(* ===== verification/Prelude.thy ===== *)
theory Prelude
  imports Main "HOL-Library.Word" "HOL-Library.Signed_Division"
begin

text \<open>
  What every component of the model shares: the faults of the C++ program as values, the
  sequencing of operations that may fault, the \<^verbatim>\<open>size_t\<close> arithmetic with its wrap-around,
  slices of a byte array and the scanning loop \<^verbatim>\<open>std::find\<close> over an index range.

  A \<^verbatim>\<open>char*\<close> into a buffer is an index into the byte list that holds it; a read or a write
  out of that list, which C++ leaves undefined, is a fault.
\<close>

named_theorems size_arith \<open>size_t arithmetic where it does not wrap\<close>
named_theorems slice_simps \<open>slices of byte lists\<close>
named_theorems fault_simps \<open>sequencing of operations that may fault\<close>

section \<open>Faults\<close>

text \<open>
  The ways an operation fails to return: undefined behaviour (an access out of an array, an
  overlapping \<^verbatim>\<open>std::copy\<close>, a comparator of \<^verbatim>\<open>std::set\<close> that is no strict weak order, a
  dangling or null pointer, a signed overflow), an exception of the standard library that nobody catches
  (\<^verbatim>\<open>std::length_error\<close>, \<^verbatim>\<open>std::out_of_range\<close>, \<^verbatim>\<open>std::bad_function_call\<close>,
  \<^verbatim>\<open>std::filesystem::filesystem_error\<close>), a loop without end, and
  \<^verbatim>\<open>abort()\<close>, which every \<^verbatim>\<open>LOG_FATAL\<close> ends in (\<^verbatim>\<open>Logger::~Logger\<close>).
\<close>

datatype fault =
    OutOfBounds
  | OverlappingCopy
  | ComparatorUB
  | DanglingPointer
  | LengthError
  | OutOfRange
  | BadFunctionCall
  | SignedOverflow
  | Diverges
  | NullPointer
  | FilesystemError
  | SystemError
  | Abort

type_synonym 'a res = "fault + 'a"

definition bindR :: "'a res \<Rightarrow> ('a \<Rightarrow> 'b res) \<Rightarrow> 'b res" where
  "bindR m f = (case m of Inl e \<Rightarrow> Inl e | Inr x \<Rightarrow> f x)"

lemma bindR_simps [simp, fault_simps]:
  "bindR (Inl e) f = Inl e"
  "bindR (Inr x) f = f x"
  by (simp_all add: bindR_def)

lemma bindR_assoc: "bindR (bindR m f) g = bindR m (\<lambda>x. bindR (f x) g)"
  by (cases m) simp_all

lemma bindR_Inr_iff: "bindR m f = Inr y \<longleftrightarrow> (\<exists>x. m = Inr x \<and> f x = Inr y)"
  by (cases m) simp_all

lemma bindR_Inl_iff: "bindR m f = Inl e \<longleftrightarrow> m = Inl e \<or> (\<exists>x. m = Inr x \<and> f x = Inl e)"
  by (cases m) simp_all

lemma bindR_InrE [elim!]:
  assumes "bindR m f = Inr y"
  obtains x where "m = Inr x" and "f x = Inr y"
  using assms by (auto simp: bindR_Inr_iff)

lemma bindR_cong [fundef_cong]:
  "m = m' \<Longrightarrow> (\<And>x. m' = Inr x \<Longrightarrow> f x = f' x) \<Longrightarrow> bindR m f = bindR m' f'"
  by (cases m') simp_all

text \<open>A step that may fault, run over a list from the left.\<close>

fun foldR :: "('a \<Rightarrow> 's \<Rightarrow> 's res) \<Rightarrow> 'a list \<Rightarrow> 's \<Rightarrow> 's res" where
  "foldR f [] s = Inr s"
| "foldR f (x # xs) s = bindR (f x s) (foldR f xs)"

lemma foldR_Nil_fun: "foldR f [] = Inr"
  by (rule ext) simp

lemma foldR_Cons_fun: "foldR f (x # xs) = (\<lambda>s. bindR (f x s) (foldR f xs))"
  by (rule ext) simp

lemma bindR_Inr [simp]: "bindR m Inr = m"
  by (cases m) simp_all

lemma foldR_append: "foldR f (xs @ ys) s = bindR (foldR f xs s) (foldR f ys)"
proof (induction xs arbitrary: s)
  case (Cons x xs)
  then show ?case by (cases "f x s") simp_all
qed simp

lemma foldR_invariant:
  assumes "foldR f xs s = Inr s'" and "P s"
    and "\<And>x t t'. x \<in> set xs \<Longrightarrow> P t \<Longrightarrow> f x t = Inr t' \<Longrightarrow> P t'"
  shows "P s'"
  using assms
proof (induction xs arbitrary: s)
  case Nil
  then show ?case by simp
next
  case (Cons x xs)
  from Cons.prems(1) obtain t where t: "f x s = Inr t" "foldR f xs t = Inr s'"
    by auto
  with Cons.prems have "P t" by auto
  with t(2) show ?case using Cons.IH Cons.prems(3) by auto
qed

section \<open>Refinement over sequences of steps\<close>

text \<open>
  A detailed step refines an abstract one: whatever the abstract step can do from a state with
  the invariant, the detailed step does too, as long as the abstract state stays within
  bounds. Then sequences of steps refine each other as well.
\<close>

locale step_refinement =
  fixes step :: "'e \<Rightarrow> 's \<Rightarrow> 's res" and spec :: "'e \<Rightarrow> 'a \<Rightarrow> 'a res"
    and rel :: "'s \<Rightarrow> 'a \<Rightarrow> bool" and inv :: "'a \<Rightarrow> bool" and within :: "'a \<Rightarrow> bool"
  assumes simulates: "spec e a = Inr a' \<Longrightarrow> rel s a \<Longrightarrow> inv a \<Longrightarrow> within a' \<Longrightarrow>
      \<exists>s'. step e s = Inr s' \<and> rel s' a'"
    and keeps: "spec e a = Inr a' \<Longrightarrow> inv a \<Longrightarrow> inv a' \<and> (within a' \<longrightarrow> within a)"
begin

lemma run_keeps: "foldR spec es a = Inr a' \<Longrightarrow> inv a \<Longrightarrow> inv a' \<and> (within a' \<longrightarrow> within a)"
proof (induction es arbitrary: a)
  case (Cons e es)
  then obtain a1 where "spec e a = Inr a1" "foldR spec es a1 = Inr a'" by auto
  with Cons.IH [of a1] keeps [of e a a1] Cons.prems(2) show ?case by auto
qed simp

lemma run_simulates: "foldR spec es a = Inr a' \<Longrightarrow> rel s a \<Longrightarrow> inv a \<Longrightarrow> within a' \<Longrightarrow>
    \<exists>s'. foldR step es s = Inr s' \<and> rel s' a'"
proof (induction es arbitrary: a s)
  case (Cons e es)
  then obtain a1 where a1: "spec e a = Inr a1" "foldR spec es a1 = Inr a'" by auto
  from keeps [OF a1(1) Cons.prems(3)] have "inv a1" by blast
  moreover from run_keeps [OF a1(2) this] Cons.prems(4) have "within a1" by blast
  with simulates [OF a1(1) Cons.prems(2,3)] obtain s1 where "step e s = Inr s1" "rel s1 a1" by blast
  ultimately show ?case using Cons.IH [OF a1(2)] Cons.prems(4) by auto
qed simp

end

section \<open>Sorted lists\<close>

lemma sorted_wrt_cases:
  assumes "sorted_wrt P xs" and "a \<in> set xs" and "b \<in> set xs"
  shows "P a b \<or> a = b \<or> P b a"
  using assms by (induction xs) auto

section \<open>size\_t\<close>

text \<open>
  \<^verbatim>\<open>size_t\<close> is 64 bits wide; a sum or a difference of two of them is taken modulo
  \<open>2 ^ 64\<close>. No object is larger than \<^verbatim>\<open>PTRDIFF_MAX\<close>, the bound of
  \<^verbatim>\<open>std::vector<char>::max_size\<close>.
\<close>

definition size_mod :: nat where
  "size_mod = 2 ^ 64"

definition max_size :: nat where
  "max_size = 2 ^ 63 - 1"

definition sz_add :: "nat \<Rightarrow> nat \<Rightarrow> nat" where
  "sz_add a b = (a + b) mod size_mod"

definition sz_sub :: "nat \<Rightarrow> nat \<Rightarrow> nat" where
  "sz_sub a b = nat ((int a - int b) mod int size_mod)"

lemma sz_add_exact [size_arith]: "a + b < size_mod \<Longrightarrow> sz_add a b = a + b"
  by (simp add: sz_add_def)

lemma sz_sub_exact [size_arith]: "b \<le> a \<Longrightarrow> a < size_mod \<Longrightarrow> sz_sub a b = a - b"
  by (simp add: sz_sub_def of_nat_diff [symmetric] nat_mod_distrib del: of_nat_diff)

lemma max_size_below: "max_size < size_mod"
  by (simp add: max_size_def size_mod_def)

lemma max_size_twice: "a \<le> max_size \<Longrightarrow> b \<le> max_size \<Longrightarrow> a + b < size_mod"
  by (simp add: max_size_def size_mod_def)

section \<open>Slices\<close>

text \<open>The bytes of the index range from \<open>i\<close> up to, and without, \<open>j\<close>.\<close>

definition slice :: "'a list \<Rightarrow> nat \<Rightarrow> nat \<Rightarrow> 'a list" where
  "slice xs i j = take (j - i) (drop i xs)"

lemma slice_empty [simp, slice_simps]: "j \<le> i \<Longrightarrow> slice xs i j = []"
  by (simp add: slice_def)

lemma length_slice [slice_simps]: "j \<le> length xs \<Longrightarrow> length (slice xs i j) = j - i"
  by (simp add: slice_def)

lemma slice_nth [slice_simps]: "i + k < j \<Longrightarrow> j \<le> length xs \<Longrightarrow> slice xs i j ! k = xs ! (i + k)"
  by (simp add: slice_def)

lemma slice_Cons: "i < j \<Longrightarrow> i < length xs \<Longrightarrow> slice xs i j = xs ! i # slice xs (Suc i) j"
  by (simp add: slice_def Cons_nth_drop_Suc [symmetric] take_Cons' Suc_diff_Suc)

lemma slice_join: "i \<le> j \<Longrightarrow> j \<le> k \<Longrightarrow> slice xs i j @ slice xs j k = slice xs i k"
  using take_add [of "j - i" "k - j" "drop i xs"] by (simp add: slice_def)

lemma drop_slice [slice_simps]: "drop n (slice xs i j) = slice xs (i + n) j"
  by (simp add: slice_def drop_take add.commute)

lemma take_slice [slice_simps]: "i + n \<le> j \<Longrightarrow> take n (slice xs i j) = slice xs i (i + n)"
  by (simp add: slice_def min_def)

lemma slice_append1 [slice_simps]: "j \<le> length xs \<Longrightarrow> slice (xs @ ys) i j = slice xs i j"
  by (simp add: slice_def)

lemma slice_append2: "length xs \<le> i \<Longrightarrow>
    slice (xs @ ys) i j = slice ys (i - length xs) (j - length xs)"
  by (simp add: slice_def)

lemma slice_take [slice_simps]: "j \<le> n \<Longrightarrow> slice (take n xs) i j = slice xs i j"
  by (simp add: slice_def drop_take min_def)

lemma slice_all [simp]: "slice xs 0 (length xs) = xs"
  by (simp add: slice_def)

lemma slice_middle: "slice (xs @ ys @ zs) (length xs) (length xs + length ys) = ys"
  by (simp add: slice_def)

text \<open>\<open>j\<close> out of range (\<open>length xs < j\<close>) reads past the end; the slice stops at the end.\<close>

lemma slice_length_le: "length (slice xs i j) \<le> j - i"
  by (simp add: slice_def)

section \<open>Copying into an array\<close>

text \<open>\<^verbatim>\<open>memcpy\<close> or \<^verbatim>\<open>std::copy\<close> to an index of an array of bytes.\<close>

definition copy_at :: "char list \<Rightarrow> nat \<Rightarrow> char list \<Rightarrow> char list res" where
  "copy_at data pos v = (if pos + length data \<le> length v
     then Inr (take pos v @ data @ drop (pos + length data) v) else Inl OutOfBounds)"

lemma copy_at_Inr:
  "copy_at data pos v = Inr v' \<longleftrightarrow>
     pos + length data \<le> length v \<and> v' = take pos v @ data @ drop (pos + length data) v"
  by (auto simp: copy_at_def)

lemma copy_at_returns: "pos + length data \<le> length v \<Longrightarrow> \<exists>v'. copy_at data pos v = Inr v'"
  by (simp add: copy_at_Inr)

lemma copy_at_length: "copy_at data pos v = Inr v' \<Longrightarrow> length v' = length v"
  by (auto simp: copy_at_def split: if_splits)

lemma copy_at_take: "copy_at data pos v = Inr v' \<Longrightarrow>
    take (pos + length data) v' = take pos v @ data"
  by (auto simp: copy_at_def split: if_splits)

section \<open>std::find over an index range\<close>

text \<open>
  \<^verbatim>\<open>std::find(first, last, c)\<close>: the first position of the range that holds \<open>c\<close>,
  \<open>last\<close> if there is none.
\<close>

function find_char :: "'a list \<Rightarrow> nat \<Rightarrow> nat \<Rightarrow> 'a \<Rightarrow> nat" where
  "find_char xs i j c = (if i < j then (if xs ! i = c then i else find_char xs (Suc i) j c) else j)"
  by pat_completeness auto
termination
  by (relation "measure (\<lambda>(xs, i, j, c). j - i)") auto

declare find_char.simps [simp del]

lemma find_char_bounds: "i \<le> j \<Longrightarrow> i \<le> find_char xs i j c \<and> find_char xs i j c \<le> j"
proof (induction xs i j c rule: find_char.induct)
  case (1 xs i j c)
  show ?case
  proof (cases "i < j \<and> xs ! i \<noteq> c")
    case True
    with "1.IH" show ?thesis by (simp add: find_char.simps [of xs i j c])
  next
    case False
    with "1.prems" show ?thesis by (auto simp: find_char.simps [of xs i j c])
  qed
qed

lemma find_char_before: "i \<le> k \<Longrightarrow> k < find_char xs i j c \<Longrightarrow> i \<le> j \<Longrightarrow> xs ! k \<noteq> c"
proof (induction xs i j c rule: find_char.induct)
  case (1 xs i j c)
  show ?case
  proof (cases "i < j \<and> xs ! i \<noteq> c")
    case True
    then have eq: "find_char xs i j c = find_char xs (Suc i) j c"
      by (simp add: find_char.simps [of xs i j c])
    show ?thesis
    proof (cases "k = i")
      case True
      with \<open>i < j \<and> xs ! i \<noteq> c\<close> show ?thesis by simp
    next
      case False
      with "1.prems" have "Suc i \<le> k" "k < find_char xs (Suc i) j c" by (simp_all add: eq)
      with "1.IH" True show ?thesis by simp
    qed
  next
    case False
    then have "find_char xs i j c = (if i < j then i else j)"
      by (auto simp: find_char.simps [of xs i j c])
    with "1.prems" show ?thesis by (simp split: if_splits)
  qed
qed

lemma find_char_hit: "find_char xs i j c < j \<Longrightarrow> xs ! find_char xs i j c = c"
proof (induction xs i j c rule: find_char.induct)
  case (1 xs i j c)
  then show ?case
    by (cases "i < j"; cases "xs ! i = c") (auto simp: find_char.simps [of xs i j c])
qed

lemma find_char_eqI:
  assumes "i \<le> k" and "k < j" and "xs ! k = c" and "\<And>m. i \<le> m \<Longrightarrow> m < k \<Longrightarrow> xs ! m \<noteq> c"
  shows "find_char xs i j c = k"
proof (rule linorder_cases [of "find_char xs i j c" k])
  have b: "i \<le> find_char xs i j c" using find_char_bounds [of i j xs c] assms(1,2) by simp
  show "find_char xs i j c = k" if "find_char xs i j c < k"
    using assms(4) [OF b that] find_char_hit [of xs i j c] that assms(2) by simp
  show "find_char xs i j c = k" if "k < find_char xs i j c"
    using find_char_before [of i k xs j c] that assms by simp
qed simp

lemma find_char_noneI:
  assumes "\<And>m. i \<le> m \<Longrightarrow> m < j \<Longrightarrow> xs ! m \<noteq> c" and "i \<le> j"
  shows "find_char xs i j c = j"
proof (rule ccontr)
  assume "find_char xs i j c \<noteq> j"
  with find_char_bounds [OF assms(2), of xs c] have "i \<le> find_char xs i j c" "find_char xs i j c < j"
    by auto
  with assms(1) find_char_hit [of xs i j c] show False by blast
qed

end
