(* ===== verification/Decimal.thy ===== *)
theory Decimal
  imports Prelude
begin

text \<open>
  Decimal output as the standard library writes it: the digits of a number
  (\<^verbatim>\<open>std::to_string\<close>, \<^verbatim>\<open>%d\<close>, \<^verbatim>\<open>%u\<close>), the padded conversions
  \<^verbatim>\<open>%4d\<close> and \<^verbatim>\<open>%02d\<close>, and the truncation of \<^verbatim>\<open>snprintf\<close>. The facts the
  components use: reading the digits back gives the number, hence two numbers never print
  alike, and the number of digits is bounded by the width of the type.
\<close>

section \<open>Digits\<close>

definition digit_char :: "nat \<Rightarrow> char" where
  "digit_char d = char_of (48 + d)"

definition char_digit :: "char \<Rightarrow> nat" where
  "char_digit c = of_char c - 48"

function dec_nat :: "nat \<Rightarrow> string" where
  "dec_nat n = (if n < 10 then [digit_char n] else dec_nat (n div 10) @ [digit_char (n mod 10)])"
  by pat_completeness auto
termination
  by (relation "measure id") auto

declare dec_nat.simps [simp del]

definition undec_nat :: "string \<Rightarrow> nat" where
  "undec_nat s = foldl (\<lambda>v c. 10 * v + char_digit c) 0 s"

definition dec_int :: "int \<Rightarrow> string" where
  "dec_int i = (if i < 0 then CHR ''-'' # dec_nat (nat (- i)) else dec_nat (nat i))"

lemma char_digit_char [simp]: "d < 10 \<Longrightarrow> char_digit (digit_char d) = d"
  by (simp add: char_digit_def digit_char_def)

lemma digit_char_range: "d < 10 \<Longrightarrow> of_char (digit_char d) \<in> {48..57 :: nat}"
  by (simp add: digit_char_def)

lemma dec_nat_small: "n < 10 \<Longrightarrow> dec_nat n = [digit_char n]"
  by (simp add: dec_nat.simps)

lemma dec_nat_big: "10 \<le> n \<Longrightarrow> dec_nat n = dec_nat (n div 10) @ [digit_char (n mod 10)]"
  by (subst dec_nat.simps) simp

lemma dec_nat_nonempty [simp]: "dec_nat n \<noteq> []"
  by (subst dec_nat.simps) simp

theorem undec_dec_nat: "undec_nat (dec_nat n) = n"
proof (induction n rule: dec_nat.induct)
  case (1 n)
  then show ?case
    by (cases "n < 10") (simp_all add: dec_nat_small dec_nat_big undec_nat_def)
qed

lemma dec_nat_inject [simp]: "dec_nat m = dec_nat n \<longleftrightarrow> m = n"
  by (metis undec_dec_nat)

lemma dec_nat_digits: "c \<in> set (dec_nat n) \<Longrightarrow> of_char c \<in> {48..57 :: nat}"
proof (induction n rule: dec_nat.induct)
  case (1 n)
  then show ?case
    by (cases "n < 10")
      (auto simp: dec_nat_small dec_nat_big digit_char_range simp del: atLeastAtMost_iff)
qed

lemma dec_nat_not_special: "c \<in> set (dec_nat n) \<Longrightarrow>
    c \<noteq> CHR ''-'' \<and> c \<noteq> CHR ''#'' \<and> c \<noteq> CHR '' '' \<and> c \<noteq> CHR 0x0D \<and> c \<noteq> CHR 0x0A"
  using dec_nat_digits [of c n] by auto

lemma dec_nat_length: "n < 10 ^ k \<Longrightarrow> 0 < k \<Longrightarrow> length (dec_nat n) \<le> k"
proof (induction n arbitrary: k rule: dec_nat.induct)
  case (1 n)
  show ?case
  proof (cases "n < 10")
    case True
    with "1.prems" show ?thesis by (simp add: dec_nat_small)
  next
    case False
    then have big: "10 \<le> n" by simp
    have "k \<noteq> 1" using "1.prems"(1) big by auto
    with "1.prems" obtain j where k: "k = Suc j" and j: "0 < j" by (cases k) auto
    have "n div 10 < 10 ^ j" using "1.prems"(1) by (simp add: k less_mult_imp_div_less mult.commute)
    with "1.IH" [OF False _ j] have "length (dec_nat (n div 10)) \<le> j" by simp
    with big show ?thesis by (simp add: dec_nat_big k)
  qed
qed

lemma dec_int_inject [simp]: "dec_int a = dec_int b \<longleftrightarrow> a = b"
proof
  assume eq: "dec_int a = dec_int b"
  have sign: "hd (dec_nat n) \<noteq> CHR ''-''" for n
    using dec_nat_not_special [of "hd (dec_nat n)" n] by simp
  show "a = b"
  proof (cases "a < 0 \<longleftrightarrow> b < 0")
    case True
    with eq show ?thesis by (auto simp: dec_int_def split: if_splits)
  next
    case False
    with eq sign [of "nat a"] sign [of "nat b"] show ?thesis
      by (auto simp: dec_int_def split: if_splits dest: arg_cong [where f = hd] sym)
  qed
qed simp

section \<open>Padding and truncation\<close>

text \<open>
  \<^verbatim>\<open>%wd\<close> pads with blanks on the left, \<^verbatim>\<open>%0wd\<close> with zeros between the sign and the
  digits; \<^verbatim>\<open>snprintf(buf, size, ...)\<close> keeps at most \<^verbatim>\<open>size - 1\<close> characters.
\<close>

definition pad_left :: "char \<Rightarrow> nat \<Rightarrow> string \<Rightarrow> string" where
  "pad_left c w s = replicate (w - length s) c @ s"

definition fmt_d :: "nat \<Rightarrow> int \<Rightarrow> string" where
  "fmt_d w i = pad_left CHR '' '' w (dec_int i)"

definition fmt_0d :: "nat \<Rightarrow> int \<Rightarrow> string" where
  "fmt_0d w i = (if i < 0 then CHR ''-'' # pad_left CHR ''0'' (w - 1) (dec_nat (nat (- i)))
                 else pad_left CHR ''0'' w (dec_nat (nat i)))"

definition snprintf_buf :: "nat \<Rightarrow> string \<Rightarrow> string" where
  "snprintf_buf n s = take (n - 1) s"

lemma length_pad_left: "length (pad_left c w s) = max w (length s)"
  by (simp add: pad_left_def)

lemma length_fmt_0d_2: "0 \<le> i \<Longrightarrow> i < 100 \<Longrightarrow> length (fmt_0d 2 i) = 2"
  using dec_nat_length [of "nat i" 2] by (simp add: fmt_0d_def length_pad_left nat_less_iff)

lemma length_fmt_d_4: "0 \<le> i \<Longrightarrow> i < 10000 \<Longrightarrow> length (fmt_d 4 i) = 4"
  using dec_nat_length [of "nat i" 4]
  by (simp add: fmt_d_def dec_int_def length_pad_left nat_less_iff)

lemma snprintf_buf_fits: "length s < n \<Longrightarrow> snprintf_buf n s = s"
  by (simp add: snprintf_buf_def)

end
