(* ===== verification/Timestamps.thy ===== *)
theory Timestamps
  imports Prelude Decimal
begin

text \<open>
  \<^verbatim>\<open>Timestamp\<close> of include/base/Timestamp.h and src/base/Timestamp.cpp: a signed 64-bit
  count, its arithmetic (which wraps as two's complement does), its comparisons, the reading
  of the clock and the printed form. \<^verbatim>\<open>gettimeofday\<close> and \<^verbatim>\<open>localtime\<close> are the
  environment: their answers are arguments.
\<close>

section \<open>The class\<close>

datatype timestamp = Timestamp (microSecondsSinceEpoch: "64 word")

definition GetTime :: "timestamp \<Rightarrow> int" where
  "GetTime t = sint (microSecondsSinceEpoch t)"

definition ts_zero :: timestamp where
  "ts_zero = Timestamp 0"

definition ts_swap :: "timestamp \<Rightarrow> timestamp \<Rightarrow> timestamp \<times> timestamp" where
  "ts_swap a b = (Timestamp (microSecondsSinceEpoch b), Timestamp (microSecondsSinceEpoch a))"

definition ts_plus :: "timestamp \<Rightarrow> timestamp \<Rightarrow> timestamp" where
  "ts_plus a b = Timestamp (microSecondsSinceEpoch a + word_of_int (GetTime b))"

definition ts_plus_int :: "timestamp \<Rightarrow> 32 word \<Rightarrow> timestamp" where
  "ts_plus_int a n = Timestamp (microSecondsSinceEpoch a + word_of_int (sint n))"

definition ts_minus :: "timestamp \<Rightarrow> timestamp \<Rightarrow> int" where
  "ts_minus a b = sint (microSecondsSinceEpoch a - word_of_int (GetTime b) :: 64 word)"

definition ts_less :: "timestamp \<Rightarrow> timestamp \<Rightarrow> bool" where
  "ts_less a b \<longleftrightarrow> sint (microSecondsSinceEpoch a) < GetTime b"

definition ts_greater :: "timestamp \<Rightarrow> timestamp \<Rightarrow> bool" where
  "ts_greater a b \<longleftrightarrow> sint (microSecondsSinceEpoch a) > GetTime b"

text \<open>
  \<^verbatim>\<open>Timestamp::now\<close>: the seconds are scaled by 1000 and the microseconds
  (\<^verbatim>\<open>tv_usec\<close>, below one million) are added unscaled.
\<close>

definition ts_now :: "64 word \<Rightarrow> 64 word \<Rightarrow> timestamp" where
  "ts_now tv_sec tv_usec = (let secondes = tv_sec in Timestamp (secondes * 1000 + tv_usec))"

text \<open>The broken-down time \<^verbatim>\<open>localtime\<close> answers with, and \<^verbatim>\<open>Timestamp::toString\<close>.\<close>

record tm =
  tm_year :: int
  tm_mon :: int
  tm_mday :: int
  tm_hour :: int
  tm_min :: int
  tm_sec :: int

definition ts_toString :: "(int \<Rightarrow> tm) \<Rightarrow> timestamp \<Rightarrow> string" where
  "ts_toString localtime t =
     (let seconds = sint (microSecondsSinceEpoch t) sdiv 1000;
          time = localtime seconds
      in snprintf_buf 64
           (fmt_d 4 (tm_year time + 1900) @ ''/'' @
            fmt_0d 2 (tm_mon time + 1) @ ''/'' @
            fmt_0d 2 (tm_mday time) @ '' '' @
            fmt_0d 2 (tm_hour time) @ '':'' @
            fmt_0d 2 (tm_min time) @ '':'' @
            fmt_0d 2 (tm_sec time)))"

section \<open>The order\<close>

text \<open>
  The comparison operators make \<^verbatim>\<open>Timestamp\<close> a linear order, the order of the signed
  counts; with the class instance the library's lemmas on linear orders apply.
\<close>

instantiation timestamp :: linorder
begin

definition less_eq_timestamp :: "timestamp \<Rightarrow> timestamp \<Rightarrow> bool" where
  "less_eq_timestamp a b \<longleftrightarrow> GetTime a \<le> GetTime b"

definition less_timestamp :: "timestamp \<Rightarrow> timestamp \<Rightarrow> bool" where
  "less_timestamp a b \<longleftrightarrow> GetTime a < GetTime b"

instance
proof
  fix x y :: timestamp
  show "x \<le> y \<Longrightarrow> y \<le> x \<Longrightarrow> x = y"
    by (cases x; cases y) (auto simp: less_eq_timestamp_def GetTime_def intro: signed_word_eqI [where ?'a = int])
qed (auto simp: less_eq_timestamp_def less_timestamp_def)

end

lemma ts_less_iff [simp]: "ts_less a b \<longleftrightarrow> a < b"
  by (simp add: ts_less_def less_timestamp_def GetTime_def)

lemma ts_greater_iff [simp]: "ts_greater a b \<longleftrightarrow> b < a"
  by (simp add: ts_greater_def less_timestamp_def GetTime_def)

lemma timestamp_le_iff: "a \<le> b \<longleftrightarrow> GetTime a \<le> GetTime b"
  by (simp add: less_eq_timestamp_def)

lemma timestamp_less_iff: "a < b \<longleftrightarrow> GetTime a < GetTime b"
  by (simp add: less_timestamp_def)

section \<open>Arithmetic without overflow\<close>

definition int64 :: "int \<Rightarrow> bool" where
  "int64 i \<longleftrightarrow> - (2 ^ 63) \<le> i \<and> i < 2 ^ 63"

lemma sint_word_of_int64: "int64 i \<Longrightarrow> sint (word_of_int i :: 64 word) = i"
  by (simp add: int64_def int_word_sint)

lemma word_of_GetTime: "word_of_int (GetTime t) = microSecondsSinceEpoch t"
  by (simp add: GetTime_def)

lemma GetTime_plus_int:
  "int64 (GetTime t + sint n) \<Longrightarrow> GetTime (ts_plus_int t n) = GetTime t + sint n"
  using sint_word_of_int64 [of "GetTime t + sint n"]
  by (simp add: ts_plus_int_def GetTime_def)

lemma ts_minus_exact:
  "int64 (GetTime a - GetTime b) \<Longrightarrow> ts_minus a b = GetTime a - GetTime b"
  using sint_word_of_int64 [of "GetTime a - GetTime b"]
  by (simp add: ts_minus_def GetTime_def)

lemma ts_plus_int_mono:
  assumes "int64 (GetTime t + sint n)" and "0 \<le> sint n"
  shows "t \<le> ts_plus_int t n"
  using assms by (simp add: timestamp_le_iff GetTime_plus_int)

section \<open>The clock\<close>

definition clock_reading :: "int \<Rightarrow> int \<Rightarrow> bool" where
  "clock_reading s u \<longleftrightarrow> 0 \<le> s \<and> s < 2 ^ 52 \<and> 0 \<le> u \<and> u < 1000000"

lemma GetTime_now:
  assumes "clock_reading s u"
  shows "GetTime (ts_now (word_of_int s) (word_of_int u)) = s * 1000 + u"
proof -
  have "word_of_int s * 1000 + word_of_int u = (word_of_int (s * 1000 + u) :: 64 word)"
    by simp
  moreover have "int64 (s * 1000 + u)"
    using assms by (simp add: clock_reading_def int64_def)
  ultimately show ?thesis
    by (simp only: ts_now_def Let_def GetTime_def timestamp.sel sint_word_of_int64)
qed

text \<open>
  The clock is not monotone. Between two valid readings one second apart
  \<^verbatim>\<open>Timestamp::now\<close> goes backwards exactly when the microseconds of the later reading
  are more than 1000 below those of the earlier one, because the seconds are scaled to
  milliseconds while the microseconds are added as they are.
\<close>

theorem now_steps_back_iff:
  assumes "clock_reading s u" and "clock_reading (s + 1) u'"
  shows "ts_less (ts_now (word_of_int (s + 1)) (word_of_int u'))
                 (ts_now (word_of_int s) (word_of_int u)) \<longleftrightarrow> u' + 1000 < u"
  using GetTime_now [OF assms(1)] GetTime_now [OF assms(2)]
  by (simp add: timestamp_less_iff algebra_simps)

theorem now_steps_back_iff_witness:
  "ts_less (ts_now (word_of_int (1700000000 + 1)) (word_of_int 0))
           (ts_now (word_of_int 1700000000) (word_of_int 999999))"
proof -
  have "clock_reading 1700000000 999999" and "clock_reading (1700000000 + 1) 0"
    by (simp_all add: clock_reading_def)
  from now_steps_back_iff [OF this] show ?thesis by simp
qed

section \<open>Printing\<close>

definition tm_valid :: "tm \<Rightarrow> bool" where
  "tm_valid t \<longleftrightarrow> - 1900 \<le> tm_year t \<and> tm_year t < 8100 \<and> 0 \<le> tm_mon t \<and> tm_mon t < 12 \<and>
     1 \<le> tm_mday t \<and> tm_mday t \<le> 31 \<and> 0 \<le> tm_hour t \<and> tm_hour t < 24 \<and>
     0 \<le> tm_min t \<and> tm_min t < 60 \<and> 0 \<le> tm_sec t \<and> tm_sec t \<le> 60"

text \<open>
  The printed form has a fixed width and always fits the 64-byte array, so
  \<^verbatim>\<open>snprintf\<close> never truncates it.
\<close>

lemma toString_length:
  assumes "tm_valid (localtime (sint (microSecondsSinceEpoch t) sdiv 1000))"
  shows "length (ts_toString localtime t) = 19"
  using assms unfolding ts_toString_def Let_def
  by (subst snprintf_buf_fits)
    (simp_all add: tm_valid_def length_fmt_d_4 length_fmt_0d_2)

end
