(* ===== verification/Channels.thy ===== *)
theory Channels
  imports Prelude Decimal Timestamps
begin

unbundle bit_operations_syntax

text \<open>
  \<^verbatim>\<open>Channel\<close> of include/net/Channel.h and src/net/Channel.cpp: one descriptor, the
  event bits it waits for and the bits that happened, and the dispatch of an event to the
  callbacks. A callback is a value of a type \<open>'cb\<close>; what running it does is a parameter of
  the dispatch, so that a callback may change any state, the channel included. The weak
  pointer of \<^verbatim>\<open>tie\<close> is the identity of the object it points to.
\<close>

section \<open>Event bits\<close>

definition POLLIN :: "32 word" where "POLLIN = 0x0001"
definition POLLPRI :: "32 word" where "POLLPRI = 0x0002"
definition POLLOUT :: "32 word" where "POLLOUT = 0x0004"
definition POLLERR :: "32 word" where "POLLERR = 0x0008"
definition POLLHUP :: "32 word" where "POLLHUP = 0x0010"
definition POLLNVAL :: "32 word" where "POLLNVAL = 0x0020"
definition POLLRDHUP :: "32 word" where "POLLRDHUP = 0x2000"

lemmas poll_bits = POLLIN_def POLLPRI_def POLLOUT_def POLLERR_def POLLHUP_def POLLNVAL_def
  POLLRDHUP_def

section \<open>State\<close>

text \<open>The values of \<^verbatim>\<open>state_\<close> are those of the enum \<^verbatim>\<open>Poller::states\<close>.\<close>

datatype states = NEW | ADD | DELETED

record 'cb channel =
  fd :: int
  events :: "32 word"
  revents :: "32 word"
  ch_state :: states
  tie :: "nat option"
  tied :: bool
  ReadCallback :: "'cb option"
  WriteCallback :: "'cb option"
  CloseCallback :: "'cb option"
  ErrorCallback :: "'cb option"

definition new_Channel :: "int \<Rightarrow> 'cb channel" where
  "new_Channel f = \<lparr>fd = f, events = 0, revents = 0, ch_state = NEW, tie = None, tied = False,
     ReadCallback = None, WriteCallback = None, CloseCallback = None, ErrorCallback = None\<rparr>"

definition SetReadCallback :: "'cb \<Rightarrow> 'cb channel \<Rightarrow> 'cb channel" where
  "SetReadCallback f c = c\<lparr>ReadCallback := Some f\<rparr>"

definition SetWriteCallback :: "'cb \<Rightarrow> 'cb channel \<Rightarrow> 'cb channel" where
  "SetWriteCallback f c = c\<lparr>WriteCallback := Some f\<rparr>"

definition SetCloseCallback :: "'cb \<Rightarrow> 'cb channel \<Rightarrow> 'cb channel" where
  "SetCloseCallback f c = c\<lparr>CloseCallback := Some f\<rparr>"

definition SetErrorCallback :: "'cb \<Rightarrow> 'cb channel \<Rightarrow> 'cb channel" where
  "SetErrorCallback f c = c\<lparr>ErrorCallback := Some f\<rparr>"

definition SetRevents :: "32 word \<Rightarrow> 'cb channel \<Rightarrow> 'cb channel" where
  "SetRevents r c = c\<lparr>revents := r\<rparr>"

definition SetState :: "states \<Rightarrow> 'cb channel \<Rightarrow> 'cb channel" where
  "SetState s c = c\<lparr>ch_state := s\<rparr>"

definition isWriting :: "'cb channel \<Rightarrow> bool" where
  "isWriting c \<longleftrightarrow> events c AND POLLOUT \<noteq> 0"

definition isReading :: "'cb channel \<Rightarrow> bool" where
  "isReading c \<longleftrightarrow> events c AND (POLLIN OR POLLPRI) \<noteq> 0"

definition isNoneEvent :: "'cb channel \<Rightarrow> bool" where
  "isNoneEvent c \<longleftrightarrow> events c = 0"

definition set_tie :: "nat \<Rightarrow> 'cb channel \<Rightarrow> 'cb channel" where
  "set_tie obj c = c\<lparr>tie := Some obj, tied := True\<rparr>"

section \<open>Dispatch\<close>

text \<open>
  Each of the four guards of \<^verbatim>\<open>HandleEventWithGuard\<close> reads the channel in the state the
  callbacks before it left; \<open>chan\<close> reads the channel out of the state.
\<close>

definition fire :: "bool \<Rightarrow> 'cb option \<Rightarrow> ('cb \<Rightarrow> 's \<Rightarrow> 's res) \<Rightarrow> 's \<Rightarrow> 's res" where
  "fire cond cb run s = (if cond then (case cb of None \<Rightarrow> Inr s | Some f \<Rightarrow> run f s) else Inr s)"

definition HandleEventWithGuard ::
  "('s \<Rightarrow> 'cb channel) \<Rightarrow> ('cb \<Rightarrow> timestamp \<Rightarrow> 's \<Rightarrow> 's res) \<Rightarrow> ('cb \<Rightarrow> 's \<Rightarrow> 's res) \<Rightarrow>
     timestamp \<Rightarrow> 's \<Rightarrow> 's res" where
  "HandleEventWithGuard chan run_read run ReceiveTime s =
     bindR (fire (revents (chan s) AND POLLHUP \<noteq> 0 \<and> \<not> (revents (chan s) AND POLLIN \<noteq> 0))
              (CloseCallback (chan s)) run s)
       (\<lambda>s. bindR (fire (revents (chan s) AND POLLERR \<noteq> 0) (ErrorCallback (chan s)) run s)
         (\<lambda>s. bindR (fire (revents (chan s) AND (POLLIN OR POLLPRI) \<noteq> 0)
                   (ReadCallback (chan s)) (\<lambda>f. run_read f ReceiveTime) s)
           (\<lambda>s. fire (revents (chan s) AND POLLOUT \<noteq> 0) (WriteCallback (chan s)) run s)))"

text \<open>\<open>alive\<close> tells whether the object of a weak pointer still exists (\<^verbatim>\<open>lock()\<close>).\<close>

definition HandleEvent ::
  "(nat \<Rightarrow> bool) \<Rightarrow> ('s \<Rightarrow> 'cb channel) \<Rightarrow> ('cb \<Rightarrow> timestamp \<Rightarrow> 's \<Rightarrow> 's res) \<Rightarrow>
     ('cb \<Rightarrow> 's \<Rightarrow> 's res) \<Rightarrow> timestamp \<Rightarrow> 's \<Rightarrow> 's res" where
  "HandleEvent alive chan run_read run ReceiveTime s =
     (if tied (chan s)
      then (case tie (chan s) of
              None \<Rightarrow> Inr s
            | Some obj \<Rightarrow> if alive obj then HandleEventWithGuard chan run_read run ReceiveTime s
                          else Inr s)
      else HandleEventWithGuard chan run_read run ReceiveTime s)"

section \<open>Printing\<close>

definition event_names :: "32 word \<Rightarrow> string" where
  "event_names ev =
     (if ev AND POLLIN \<noteq> 0 then ''IN '' else []) @
     (if ev AND POLLPRI \<noteq> 0 then ''PRI '' else []) @
     (if ev AND POLLOUT \<noteq> 0 then ''OUT '' else []) @
     (if ev AND POLLHUP \<noteq> 0 then ''HUP '' else []) @
     (if ev AND POLLRDHUP \<noteq> 0 then ''RDHUP '' else []) @
     (if ev AND POLLERR \<noteq> 0 then ''ERR '' else []) @
     (if ev AND POLLNVAL \<noteq> 0 then ''NVAL '' else [])"

definition EventsToString :: "int \<Rightarrow> 32 word \<Rightarrow> string" where
  "EventsToString f ev = dec_int f @ '': '' @ event_names ev"

definition channel_EventsToString :: "'cb channel \<Rightarrow> string" where
  "channel_EventsToString c = EventsToString (fd c) (events c)"

definition ReventsToString :: "'cb channel \<Rightarrow> string" where
  "ReventsToString c = EventsToString (fd c) (revents c)"

section \<open>Facts about the bits\<close>

named_theorems bit_facts \<open>how the enabling and disabling of events acts on the tests\<close>

lemma word_absorb:
  fixes e x y :: "32 word"
  shows "(e OR x) AND x = x" "(e AND NOT x) AND x = 0"
    "x AND y = 0 \<Longrightarrow> (e OR x) AND y = e AND y" "x AND y = 0 \<Longrightarrow> (e AND NOT x) AND y = e AND y"
proof -
  show "(e OR x) AND x = x" "(e AND NOT x) AND x = 0"
    by (rule bit_word_eqI; auto simp: bit_simps)+
  assume "x AND y = 0"
  then have no: "\<not> (bit x n \<and> bit y n)" for n by (metis bit_0_eq bit_and_iff bot_apply bot_bool_def)
  show "(e OR x) AND y = e AND y" "(e AND NOT x) AND y = e AND y"
    using no by (auto intro!: bit_word_eqI simp: bit_simps)
qed

lemma reading_writing_disjoint [bit_facts]:
  "(POLLIN OR POLLPRI) AND POLLOUT = 0" "POLLOUT AND (POLLIN OR POLLPRI) = 0"
  "POLLIN OR POLLPRI \<noteq> 0" "POLLOUT \<noteq> 0"
  by (simp_all add: poll_bits)

lemma or_nonzero: "(x :: 32 word) \<noteq> 0 \<Longrightarrow> e OR x \<noteq> 0"
  by (metis and_zero_eq word_absorb(1) zero_and_eq)

lemma writing_bits [bit_facts]:
  "(e OR POLLOUT) AND POLLOUT \<noteq> 0"
  "(e AND NOT POLLOUT) AND POLLOUT = 0"
  "(e OR POLLOUT) AND (POLLIN OR POLLPRI) = e AND (POLLIN OR POLLPRI)"
  "(e AND NOT POLLOUT) AND (POLLIN OR POLLPRI) = e AND (POLLIN OR POLLPRI)"
  "e OR POLLOUT \<noteq> 0"
  using reading_writing_disjoint by (simp_all add: word_absorb or_nonzero)

lemma reading_bits [bit_facts]:
  "(e OR (POLLIN OR POLLPRI)) AND (POLLIN OR POLLPRI) \<noteq> 0"
  "(e AND NOT (POLLIN OR POLLPRI)) AND (POLLIN OR POLLPRI) = 0"
  "(e OR (POLLIN OR POLLPRI)) AND POLLOUT = e AND POLLOUT"
  "(e AND NOT (POLLIN OR POLLPRI)) AND POLLOUT = e AND POLLOUT"
  "e OR (POLLIN OR POLLPRI) \<noteq> 0"
  using reading_writing_disjoint
    word_absorb [of e "POLLIN OR POLLPRI"] word_absorb(3,4) [of "POLLIN OR POLLPRI" POLLOUT e]
    or_nonzero [of "POLLIN OR POLLPRI" e]
  by simp_all

section \<open>The order of the callbacks\<close>

text \<open>
  What the bits \<open>r\<close> of an event ask for, as a list: the close callback on a hang-up with
  nothing to read, then the error, the read and the write callback.
\<close>

datatype dispatched = OnClose | OnError | OnRead timestamp | OnWrite

definition dispatch_plan :: "32 word \<Rightarrow> timestamp \<Rightarrow> dispatched list" where
  "dispatch_plan r t =
     (if r AND POLLHUP \<noteq> 0 \<and> r AND POLLIN = 0 then [OnClose] else []) @
     (if r AND POLLERR \<noteq> 0 then [OnError] else []) @
     (if r AND (POLLIN OR POLLPRI) \<noteq> 0 then [OnRead t] else []) @
     (if r AND POLLOUT \<noteq> 0 then [OnWrite] else [])"

text \<open>The callback a dispatch asks for, and running it.\<close>

fun callback_of :: "'cb channel \<Rightarrow> dispatched \<Rightarrow> 'cb option" where
  "callback_of c OnClose = CloseCallback c"
| "callback_of c OnError = ErrorCallback c"
| "callback_of c (OnRead t) = ReadCallback c"
| "callback_of c OnWrite = WriteCallback c"

fun run_dispatched ::
  "('s \<Rightarrow> 'cb channel) \<Rightarrow> ('cb \<Rightarrow> timestamp \<Rightarrow> 's \<Rightarrow> 's res) \<Rightarrow> ('cb \<Rightarrow> 's \<Rightarrow> 's res) \<Rightarrow>
     dispatched \<Rightarrow> 's \<Rightarrow> 's res" where
  "run_dispatched chan run_read run d s =
     (case callback_of (chan s) d of
        None \<Rightarrow> Inr s
      | Some f \<Rightarrow> (case d of OnRead t \<Rightarrow> run_read f t s | _ \<Rightarrow> run f s))"

lemma fire_dispatched:
  "fire c (CloseCallback (chan s)) run s =
     foldR (run_dispatched chan rr run) (if c then [OnClose] else []) s"
  "fire c (ErrorCallback (chan s)) run s =
     foldR (run_dispatched chan rr run) (if c then [OnError] else []) s"
  "fire c (ReadCallback (chan s)) (\<lambda>f. rr f t) s =
     foldR (run_dispatched chan rr run) (if c then [OnRead t] else []) s"
  "fire c (WriteCallback (chan s)) run s =
     foldR (run_dispatched chan rr run) (if c then [OnWrite] else []) s"
  by (auto simp: fire_def bindR_def split: option.splits sum.splits)

lemma run_dispatched_keeps:
  assumes "\<And>f t s s'. rr f t s = Inr s' \<Longrightarrow> revents (chan s') = revents (chan s)"
    and "\<And>f s s'. run f s = Inr s' \<Longrightarrow> revents (chan s') = revents (chan s)"
    and "foldR (run_dispatched chan rr run) ds s = Inr s'"
  shows "revents (chan s') = revents (chan s)"
proof -
  have "revents (chan t') = revents (chan t)" if "run_dispatched chan rr run d t = Inr t'" for d t t'
    using that assms(1,2) by (auto split: option.splits dispatched.splits)
  then show ?thesis
    using foldR_invariant [OF assms(3), of "\<lambda>t. revents (chan t) = revents (chan s)"] by simp
qed

lemma bindR_dispatched:
  assumes "\<And>f t s s'. rr f t s = Inr s' \<Longrightarrow> revents (chan s') = revents (chan s)"
    and "\<And>f s s'. run f s = Inr s' \<Longrightarrow> revents (chan s') = revents (chan s)"
  shows "bindR (foldR (run_dispatched chan rr run) ds s) (\<lambda>s'. k (revents (chan s')) s') =
    bindR (foldR (run_dispatched chan rr run) ds s) (k (revents (chan s)))"
  using run_dispatched_keeps [where chan = chan and rr = rr and run = run, OF assms] by (intro bindR_cong) auto

lemma HandleEventWithGuard_plan:
  assumes keep: "\<And>f t s s'. rr f t s = Inr s' \<Longrightarrow> revents (chan s') = revents (chan s)"
      "\<And>f s s'. run f s = Inr s' \<Longrightarrow> revents (chan s') = revents (chan s)"
  shows "HandleEventWithGuard chan rr run t s =
    foldR (run_dispatched chan rr run) (dispatch_plan (revents (chan s)) t) s"
proof -
  let ?run = "foldR (run_dispatched chan rr run)"
  let ?p2 = "\<lambda>r. if r AND POLLERR \<noteq> 0 then [OnError] else []"
  let ?p3 = "\<lambda>r. if r AND (POLLIN OR POLLPRI) \<noteq> 0 then [OnRead t] else []"
  let ?p4 = "\<lambda>r. if r AND POLLOUT \<noteq> 0 then [OnWrite] else []"
  have 3: "bindR (?run (?p3 r) s) (\<lambda>s. ?run (?p4 (revents (chan s))) s) = ?run (?p3 r @ ?p4 r) s"
    if "revents (chan s) = r" for r s
    using bindR_dispatched [where chan = chan and rr = rr and run = run, OF keep, where k = "\<lambda>r. ?run (?p4 r)"] that by (simp only: foldR_append)
  have 2: "bindR (?run (?p2 r) s) (\<lambda>s. ?run (?p3 (revents (chan s)) @ ?p4 (revents (chan s))) s) =
      ?run (?p2 r @ ?p3 r @ ?p4 r) s"
    if "revents (chan s) = r" for r s
    using bindR_dispatched [where chan = chan and rr = rr and run = run, OF keep, where k = "\<lambda>r. ?run (?p3 r @ ?p4 r)"] that
    by (simp only: foldR_append)
  show ?thesis
    unfolding HandleEventWithGuard_def fire_dispatched [where rr = rr and run = run] 3 [OF refl] 2 [OF refl]
    using bindR_dispatched [where chan = chan and rr = rr and run = run, OF keep, where k = "\<lambda>r. ?run (?p2 r @ ?p3 r @ ?p4 r)"]
    by (simp only: foldR_append dispatch_plan_def not_not)
qed

text \<open>
  One event runs the callbacks of its plan, in the order close, error, read, write, each
  at most once and each looked up in the channel as the earlier callbacks left it, provided
  that no callback changes the event bits while they are dispatched; a channel tied to an
  object that is gone runs none.
\<close>

theorem HandleEvent_runs_plan:
  assumes "\<And>f t s s'. run_read f t s = Inr s' \<Longrightarrow> revents (chan s') = revents (chan s)"
    and "\<And>f s s'. run f s = Inr s' \<Longrightarrow> revents (chan s') = revents (chan s)"
  shows "HandleEvent alive chan run_read run t s =
    (if tied (chan s) \<and> (case tie (chan s) of None \<Rightarrow> True | Some obj \<Rightarrow> \<not> alive obj) then Inr s
     else foldR (run_dispatched chan run_read run) (dispatch_plan (revents (chan s)) t) s)"
  using HandleEventWithGuard_plan [where chan = chan and rr = run_read and run = run, OF assms]
  by (auto simp: HandleEvent_def split: option.splits)

text \<open>
  The callbacks of the witness add their name to a log. A descriptor that is hung up, in
  error and writable runs three callbacks.
\<close>

theorem HandleEvent_runs_plan_witness:
  "let c = (new_Channel 7)\<lparr>revents := POLLHUP OR POLLERR OR POLLOUT, CloseCallback := Some ''close'',
             ErrorCallback := Some ''error'', ReadCallback := Some ''read'', WriteCallback := Some ''write''\<rparr>
   in HandleEvent (\<lambda>_. True) (\<lambda>s. c) (\<lambda>f t s. Inr (s @ [f])) (\<lambda>f s. Inr (s @ [f])) ts_zero [] =
        Inr [''close'', ''error'', ''write'']"
proof -
  define c :: "string channel" where
    "c = (new_Channel 7)\<lparr>revents := POLLHUP OR POLLERR OR POLLOUT, CloseCallback := Some ''close'',
             ErrorCallback := Some ''error'', ReadCallback := Some ''read'', WriteCallback := Some ''write''\<rparr>"
  have plan: "dispatch_plan (revents c) ts_zero = [OnClose, OnError, OnWrite]"
    by (simp add: c_def new_Channel_def dispatch_plan_def poll_bits)
  have "HandleEvent (\<lambda>_. True) (\<lambda>s. c) (\<lambda>f t s. Inr (s @ [f])) (\<lambda>f s. Inr (s @ [f])) ts_zero [] =
      foldR (run_dispatched (\<lambda>s. c) (\<lambda>f t s. Inr (s @ [f])) (\<lambda>f s. Inr (s @ [f])))
        (dispatch_plan (revents c) ts_zero) []"
    using HandleEvent_runs_plan [of "\<lambda>f t s. Inr (s @ [f])" "\<lambda>s. c" "\<lambda>f s. Inr (s @ [f])"
        "\<lambda>_. True" ts_zero "[]"]
    by (simp add: c_def new_Channel_def)
  also have "\<dots> = Inr [''close'', ''error'', ''write'']"
    unfolding plan by (simp add: c_def new_Channel_def)
  finally show ?thesis by (simp add: c_def)
qed

end
