(* ===== verification/Pollers.thy ===== *)
theory Pollers
  imports Channels
begin

unbundle bit_operations_syntax

text \<open>
  \<^verbatim>\<open>Poller\<close> of include/net/Poller.h and src/net/Poller.cpp, and the operations of
  \<^verbatim>\<open>Channel\<close> that end in it (\<^verbatim>\<open>EnableReading\<close> and its kin go through
  \<^verbatim>\<open>EventLoop::UpdateChannel\<close>). The channels live in a store addressed by their
  pointer; the kernel's epoll instance is a value of a type \<open>'k\<close>, and \<^verbatim>\<open>epoll_ctl\<close> is a
  parameter of the operations. What the code relies on of it, the manual page of
  \<^verbatim>\<open>epoll_ctl(2)\<close>, is the hypothesis \<open>epoll_laws\<close>.
\<close>

section \<open>State\<close>

datatype epoll_op = EPOLL_CTL_ADD | EPOLL_CTL_DEL | EPOLL_CTL_MOD

text \<open>\<^verbatim>\<open>epoll_data\<close> is a union: the pointer, stored last, is what remains.\<close>

record epoll_event =
  ev_events :: "32 word"
  ev_ptr :: nat

type_synonym 'k epoll_ctl = "'k \<Rightarrow> epoll_op \<Rightarrow> int \<Rightarrow> epoll_event \<Rightarrow> bool \<times> 'k"

record ('cb, 'k) poller =
  chans :: "nat \<Rightarrow> 'cb channel"
  channels :: "int \<Rightarrow> nat option"
  epoll :: 'k
  events_size :: nat

definition InitEventListSize :: nat where "InitEventListSize = 16"

definition upd_chan :: "nat \<Rightarrow> ('cb channel \<Rightarrow> 'cb channel) \<Rightarrow>
    ('cb, 'k, 'z) poller_scheme \<Rightarrow> ('cb, 'k, 'z) poller_scheme" where
  "upd_chan r f p = p\<lparr>chans := (chans p)(r := f (chans p r))\<rparr>"

section \<open>Operations\<close>

text \<open>
  The constructor: \<open>epfd\<close> is the answer of \<^verbatim>\<open>epoll_create1\<close>, \<open>k\<close> the new instance and
  \<open>heap\<close> the store the channels live in.
\<close>

definition new_Poller :: "(nat \<Rightarrow> 'cb channel) \<Rightarrow> 'k \<Rightarrow> int \<Rightarrow> ('cb, 'k) poller res" where
  "new_Poller heap k epfd = (if epfd < 0 then Inl Abort
     else Inr \<lparr>chans = heap, channels = Map.empty, epoll = k, events_size = InitEventListSize\<rparr>)"

text \<open>
  A failing \<^verbatim>\<open>EPOLL_CTL_DEL\<close> is logged; any other failure is a \<^verbatim>\<open>LOG_FATAL\<close> and
  ends the process.
\<close>

definition poller_update :: "'k epoll_ctl \<Rightarrow> epoll_op \<Rightarrow> nat \<Rightarrow>
    ('cb, 'k, 'z) poller_scheme \<Rightarrow> ('cb, 'k, 'z) poller_scheme res" where
  "poller_update ctl operation r p =
     (let event = \<lparr>ev_events = events (chans p r), ev_ptr = r\<rparr>;
          (ok, k) = ctl (epoll p) operation (fd (chans p r)) event
      in if ok then Inr (p\<lparr>epoll := k\<rparr>)
         else if operation = EPOLL_CTL_DEL then Inr (p\<lparr>epoll := k\<rparr>)
         else Inl Abort)"

definition UpdateChannel :: "'k epoll_ctl \<Rightarrow> nat \<Rightarrow>
    ('cb, 'k, 'z) poller_scheme \<Rightarrow> ('cb, 'k, 'z) poller_scheme res" where
  "UpdateChannel ctl r p =
     (let state = ch_state (chans p r) in
      if state = NEW \<or> state = DELETED then
        (let p = (if state = NEW then p\<lparr>channels := (channels p)(fd (chans p r) \<mapsto> r)\<rparr> else p);
             p = upd_chan r (SetState ADD) p
         in poller_update ctl EPOLL_CTL_ADD r p)
      else if isNoneEvent (chans p r) then
        bindR (poller_update ctl EPOLL_CTL_DEL r p) (\<lambda>p. Inr (upd_chan r (SetState DELETED) p))
      else poller_update ctl EPOLL_CTL_MOD r p)"

definition RemoveChannel :: "'k epoll_ctl \<Rightarrow> nat \<Rightarrow>
    ('cb, 'k, 'z) poller_scheme \<Rightarrow> ('cb, 'k, 'z) poller_scheme res" where
  "RemoveChannel ctl r p =
     (let p = p\<lparr>channels := (channels p)(fd (chans p r) := None)\<rparr>;
          state = ch_state (chans p r)
      in bindR (if state = ADD then poller_update ctl EPOLL_CTL_DEL r p else Inr p)
           (\<lambda>p. Inr (upd_chan r (SetState NEW) p)))"

definition hasChannel :: "nat \<Rightarrow> ('cb, 'k, 'z) poller_scheme \<Rightarrow> bool" where
  "hasChannel r p \<longleftrightarrow> (case channels p (fd (chans p r)) of None \<Rightarrow> False | Some q \<Rightarrow> q = r)"

text \<open>
  \<^verbatim>\<open>FillActiveChannels\<close> walks over the \<open>num\<close> first entries of the event array, here the
  list of them.
\<close>

fun FillActiveChannels :: "epoll_event list \<Rightarrow>
    ('cb, 'k, 'z) poller_scheme \<times> nat list \<Rightarrow> ('cb, 'k, 'z) poller_scheme \<times> nat list" where
  "FillActiveChannels [] (p, ActiveChannels) = (p, ActiveChannels)"
| "FillActiveChannels (e # es) (p, ActiveChannels) =
     FillActiveChannels es
       (upd_chan (ev_ptr e) (SetRevents (ev_events e)) p, ActiveChannels @ [ev_ptr e])"

text \<open>
  The answer of \<^verbatim>\<open>epoll_wait\<close>: an error, or the events, none of them on a timeout. It
  reports at most as many as the array holds.
\<close>

datatype wait_result = WaitErr int | WaitOk "epoll_event list"

definition poll :: "wait_result \<Rightarrow> timestamp \<Rightarrow> ('cb, 'k, 'z) poller_scheme \<times> nat list \<Rightarrow>
    (('cb, 'k, 'z) poller_scheme \<times> nat list) \<times> timestamp" where
  "poll w now pa =
     ((case w of
         WaitErr errno \<Rightarrow> pa
       | WaitOk es \<Rightarrow>
           (if 0 < length es
            then (case FillActiveChannels es pa of (p, a) \<Rightarrow>
                    if length es = events_size p
                    then (p\<lparr>events_size := events_size p * 2\<rparr>, a) else (p, a))
            else pa)), now)"

definition OperationToString :: "epoll_op \<Rightarrow> string" where
  "OperationToString op = (case op of EPOLL_CTL_ADD \<Rightarrow> ''ADD'' | EPOLL_CTL_DEL \<Rightarrow> ''DEL''
     | EPOLL_CTL_MOD \<Rightarrow> ''MOD'')"

section \<open>The operations of Channel that end in the poller\<close>

definition change_events :: "'k epoll_ctl \<Rightarrow> (32 word \<Rightarrow> 32 word) \<Rightarrow> nat \<Rightarrow>
    ('cb, 'k, 'z) poller_scheme \<Rightarrow> ('cb, 'k, 'z) poller_scheme res" where
  "change_events ctl f r p =
     UpdateChannel ctl r (upd_chan r (\<lambda>c. c\<lparr>events := f (events c)\<rparr>) p)"

definition EnableReading :: "'k epoll_ctl \<Rightarrow> nat \<Rightarrow>
    ('cb, 'k, 'z) poller_scheme \<Rightarrow> ('cb, 'k, 'z) poller_scheme res" where
  "EnableReading ctl r p = change_events ctl (\<lambda>e. e OR (POLLIN OR POLLPRI)) r p"

definition DisableReading :: "'k epoll_ctl \<Rightarrow> nat \<Rightarrow>
    ('cb, 'k, 'z) poller_scheme \<Rightarrow> ('cb, 'k, 'z) poller_scheme res" where
  "DisableReading ctl r p = change_events ctl (\<lambda>e. e AND NOT (POLLIN OR POLLPRI)) r p"

definition EnableWriting :: "'k epoll_ctl \<Rightarrow> nat \<Rightarrow>
    ('cb, 'k, 'z) poller_scheme \<Rightarrow> ('cb, 'k, 'z) poller_scheme res" where
  "EnableWriting ctl r p = change_events ctl (\<lambda>e. e OR POLLOUT) r p"

definition DisableWriting :: "'k epoll_ctl \<Rightarrow> nat \<Rightarrow>
    ('cb, 'k, 'z) poller_scheme \<Rightarrow> ('cb, 'k, 'z) poller_scheme res" where
  "DisableWriting ctl r p = change_events ctl (\<lambda>e. e AND NOT POLLOUT) r p"

definition DisableAll :: "'k epoll_ctl \<Rightarrow> nat \<Rightarrow>
    ('cb, 'k, 'z) poller_scheme \<Rightarrow> ('cb, 'k, 'z) poller_scheme res" where
  "DisableAll ctl r p = change_events ctl (\<lambda>e. 0) r p"

section \<open>What the kernel promises\<close>

text \<open>
  \<open>reg k fd\<close> is the registration of a descriptor. Adding works exactly on a descriptor that
  is not registered, changing and deleting exactly on one that is; a failing call changes
  nothing.
\<close>

definition epoll_step :: "(int \<Rightarrow> epoll_event option) \<Rightarrow> epoll_op \<Rightarrow> int \<Rightarrow> epoll_event \<Rightarrow>
    bool \<times> (int \<Rightarrow> epoll_event option)" where
  "epoll_step m op f ev =
     (if (op = EPOLL_CTL_ADD) = (m f = None)
      then (True, m(f := (if op = EPOLL_CTL_DEL then None else Some ev)))
      else (False, m))"

definition epoll_laws :: "'k epoll_ctl \<Rightarrow> ('k \<Rightarrow> int \<Rightarrow> epoll_event option) \<Rightarrow> bool" where
  "epoll_laws ctl reg \<longleftrightarrow>
     (\<forall>k op f ev. (fst (ctl k op f ev), reg (snd (ctl k op f ev))) = epoll_step (reg k) op f ev)"

lemma epoll_lawsD:
  assumes "epoll_laws ctl reg" and "ctl k op f ev = (ok, k')"
  shows "ok \<longleftrightarrow> (op = EPOLL_CTL_ADD) = (reg k f = None)"
    and "ok \<Longrightarrow> reg k' = (reg k)(f := (if op = EPOLL_CTL_DEL then None else Some ev))"
    and "\<not> ok \<Longrightarrow> reg k' = reg k"
  using assms unfolding epoll_laws_def epoll_step_def
  by (metis (no_types, lifting) fst_conv snd_conv)+

text \<open>The laws can hold: a map of registrations, as the witnesses use it.\<close>

lemma epoll_laws_map: "epoll_laws epoll_step id"
  by (simp add: epoll_laws_def)

section \<open>The invariant of the poller\<close>

text \<open>
  For a set \<open>L\<close> of channels with different descriptors: the map knows exactly the channels
  that were added and not removed, and the kernel has exactly those in state \<^const>\<open>ADD\<close>,
  with the event bits the channel has.
\<close>

definition poller_inv :: "('k \<Rightarrow> int \<Rightarrow> epoll_event option) \<Rightarrow> nat set \<Rightarrow>
    ('cb, 'k, 'z) poller_scheme \<Rightarrow> bool" where
  "poller_inv reg L p \<longleftrightarrow>
     inj_on (\<lambda>r. fd (chans p r)) L \<and>
     (\<forall>r\<in>L. channels p (fd (chans p r)) = (if ch_state (chans p r) = NEW then None else Some r)) \<and>
     (\<forall>r\<in>L. reg (epoll p) (fd (chans p r)) =
        (if ch_state (chans p r) = ADD
         then Some \<lparr>ev_events = events (chans p r), ev_ptr = r\<rparr> else None))"

lemma poller_invD:
  assumes "poller_inv reg L p" and "r \<in> L"
  shows "channels p (fd (chans p r)) = (if ch_state (chans p r) = NEW then None else Some r)"
    and "reg (epoll p) (fd (chans p r)) =
        (if ch_state (chans p r) = ADD
         then Some \<lparr>ev_events = events (chans p r), ev_ptr = r\<rparr> else None)"
    and "q \<in> L \<Longrightarrow> q \<noteq> r \<Longrightarrow> fd (chans p q) \<noteq> fd (chans p r)"
proof -
  show "channels p (fd (chans p r)) = (if ch_state (chans p r) = NEW then None else Some r)"
    "reg (epoll p) (fd (chans p r)) =
        (if ch_state (chans p r) = ADD
         then Some \<lparr>ev_events = events (chans p r), ev_ptr = r\<rparr> else None)"
    using assms unfolding poller_inv_def by blast+
  have "inj_on (\<lambda>r. fd (chans p r)) L" using assms(1) by (simp add: poller_inv_def)
  then show "q \<in> L \<Longrightarrow> q \<noteq> r \<Longrightarrow> fd (chans p q) \<noteq> fd (chans p r)"
    using assms(2) by (auto dest: inj_onD)
qed

text \<open>Changing what the invariant does not speak of: the callbacks, the tie, the arrived events.\<close>

lemma poller_inv_quiet:
  assumes "poller_inv reg L p"
    and "\<And>c. fd (f c) = fd c" and "\<And>c. events (f c) = events c" and "\<And>c. ch_state (f c) = ch_state c"
  shows "poller_inv reg L (upd_chan r f p)"
proof -
  have "fd (chans (upd_chan r f p) q) = fd (chans p q)"
    "ch_state (chans (upd_chan r f p) q) = ch_state (chans p q)"
    "events (chans (upd_chan r f p) q) = events (chans p q)" for q
    using assms(2-4) by (simp_all add: upd_chan_def)
  moreover have "channels (upd_chan r f p) = channels p" "epoll (upd_chan r f p) = epoll p"
    by (simp_all add: upd_chan_def)
  ultimately show ?thesis using assms(1) unfolding poller_inv_def by simp
qed

text \<open>A channel that has just been made joins the channels of the invariant.\<close>

lemma poller_inv_insert:
  assumes inv: "poller_inv reg L p" and r: "r \<notin> L" and c: "fd c = f" "ch_state c = NEW"
    and f: "\<forall>q\<in>L. fd (chans p q) \<noteq> f" "channels p f = None" "reg (epoll p) f = None"
  shows "poller_inv reg (insert r L) (upd_chan r (\<lambda>_. c) p)"
proof -
  let ?p = "upd_chan r (\<lambda>_. c) p"
  have new: "chans ?p r = c" and old: "chans ?p q = chans p q" if "q \<in> L" for q
    using that r by (auto simp: upd_chan_def)
  have same: "channels ?p = channels p" "epoll ?p = epoll p" by (simp_all add: upd_chan_def)
  have new: "chans ?p r = c" by (simp add: upd_chan_def)
  have "inj_on (\<lambda>q. fd (chans p q)) L" using inv by (simp add: poller_inv_def)
  then have "inj_on (\<lambda>q. fd (chans ?p q)) L" by (simp add: inj_on_def old)
  then have "inj_on (\<lambda>q. fd (chans ?p q)) (insert r L)"
    using f(1) c(1) by (auto simp: new old)
  then show ?thesis
    using poller_invD(1,2) [OF inv] f(2,3) c by (simp add: poller_inv_def new old same)
qed

lemma poller_inv_update:
  assumes inv: "poller_inv reg L p" and r: "r \<in> L"
    and c: "fd c = fd (chans p r)"
    and m: "m' = (channels p)(fd c := (if ch_state c = NEW then None else Some r))"
    and k: "reg k' = (reg (epoll p))(fd c := (if ch_state c = ADD
              then Some \<lparr>ev_events = events c, ev_ptr = r\<rparr> else None))"
  shows "poller_inv reg L (p\<lparr>chans := (chans p)(r := c), channels := m', epoll := k'\<rparr>)"
proof -
  have "inj_on (\<lambda>q. fd (chans p q)) L" using inv by (simp add: poller_inv_def)
  moreover have "(\<lambda>q. fd (((chans p)(r := c)) q)) = (\<lambda>q. fd (chans p q))" using c by auto
  ultimately have inj: "inj_on (\<lambda>q. fd (((chans p)(r := c)) q)) L" by simp
  have other: "fd (chans p q) \<noteq> fd c" if "q \<in> L" "q \<noteq> r" for q
    using poller_invD(3) [OF inv r that] c by simp
  show ?thesis
    unfolding poller_inv_def
  proof (intro conjI ballI)
    show "inj_on (\<lambda>q. fd (chans (p\<lparr>chans := (chans p)(r := c), channels := m', epoll := k'\<rparr>) q)) L"
      using inj by simp
  next
    fix q assume q: "q \<in> L"
    show "channels (p\<lparr>chans := (chans p)(r := c), channels := m', epoll := k'\<rparr>)
        (fd (chans (p\<lparr>chans := (chans p)(r := c), channels := m', epoll := k'\<rparr>) q)) =
      (if ch_state (chans (p\<lparr>chans := (chans p)(r := c), channels := m', epoll := k'\<rparr>) q) = NEW
       then None else Some q)"
      using poller_invD(1) [OF inv q] other [OF q] by (simp add: m)
    show "reg (epoll (p\<lparr>chans := (chans p)(r := c), channels := m', epoll := k'\<rparr>))
        (fd (chans (p\<lparr>chans := (chans p)(r := c), channels := m', epoll := k'\<rparr>) q)) =
      (if ch_state (chans (p\<lparr>chans := (chans p)(r := c), channels := m', epoll := k'\<rparr>) q) = ADD
       then Some \<lparr>ev_events = events (chans (p\<lparr>chans := (chans p)(r := c), channels := m', epoll := k'\<rparr>) q),
                  ev_ptr = q\<rparr> else None)"
      using poller_invD(2) [OF inv q] other [OF q] by (simp add: k)
  qed
qed

text \<open>The state a change of the event bits leaves a channel in.\<close>

definition changed :: "(32 word \<Rightarrow> 32 word) \<Rightarrow> 'cb channel \<Rightarrow> 'cb channel" where
  "changed f c = c\<lparr>events := f (events c),
     ch_state := (if ch_state c = ADD \<and> f (events c) = 0 then DELETED else ADD)\<rparr>"

lemma changed_simps [simp]:
  "fd (changed f c) = fd c" "events (changed f c) = f (events c)" "revents (changed f c) = revents c"
  "tied (changed f c) = tied c" "tie (changed f c) = tie c" "ch_state (changed f c) \<noteq> NEW"
  by (simp_all add: changed_def)

lemma ch_state_idem: "ch_state c = s \<Longrightarrow> c\<lparr>events := e, ch_state := s\<rparr> = c\<lparr>events := e\<rparr>"
  by (cases c) simp

lemma poller_update_spec:
  assumes laws: "epoll_laws ctl reg" and fits: "(op = EPOLL_CTL_ADD) = (reg (epoll p) (fd (chans p r)) = None)"
  obtains k' where "poller_update ctl op r p = Inr (p\<lparr>epoll := k'\<rparr>)"
    and "reg k' = (reg (epoll p))(fd (chans p r) := (if op = EPOLL_CTL_DEL then None
           else Some \<lparr>ev_events = events (chans p r), ev_ptr = r\<rparr>))"
proof -
  obtain ok k' where k: "ctl (epoll p) op (fd (chans p r)) \<lparr>ev_events = events (chans p r), ev_ptr = r\<rparr> = (ok, k')"
    by (meson surj_pair)
  have ok using epoll_lawsD(1) [OF laws k] fits by simp
  with k have "poller_update ctl op r p = Inr (p\<lparr>epoll := k'\<rparr>)"
    by (simp add: poller_update_def)
  with epoll_lawsD(2) [OF laws k \<open>ok\<close>] that show thesis by simp
qed

lemma change_events_spec:
  assumes laws: "epoll_laws ctl reg" and inv: "poller_inv reg L p" and r: "r \<in> L"
  obtains k' where "change_events ctl f r p =
      Inr (p\<lparr>chans := (chans p)(r := changed f (chans p r)),
             channels := (channels p)(fd (chans p r) \<mapsto> r), epoll := k'\<rparr>)"
    and "reg k' = (reg (epoll p))(fd (chans p r) :=
           (if ch_state (chans p r) = ADD \<and> f (events (chans p r)) = 0 then None
            else Some \<lparr>ev_events = f (events (chans p r)), ev_ptr = r\<rparr>))"
proof -
  let ?c = "(chans p r)\<lparr>events := f (events (chans p r))\<rparr>"
  let ?p1 = "upd_chan r (\<lambda>c. c\<lparr>events := f (events c)\<rparr>) p"
  note D = poller_invD [OF inv r]
  show thesis
  proof (cases "ch_state (chans p r) = ADD")
    case added: True
    have reg1: "reg (epoll ?p1) (fd (chans ?p1 r)) \<noteq> None"
      using D(2) added by (simp add: upd_chan_def)
    have map: "(channels p)(fd (chans p r) \<mapsto> r) = channels p"
      using D(1) added by (simp add: fun_upd_idem)
    let ?op = "if f (events (chans p r)) = 0 then EPOLL_CTL_DEL else EPOLL_CTL_MOD"
    have fits: "(?op = EPOLL_CTL_ADD) = (reg (epoll ?p1) (fd (chans ?p1 r)) = None)"
      using reg1 by simp
    obtain k' where k: "poller_update ctl ?op r ?p1 = Inr (?p1\<lparr>epoll := k'\<rparr>)"
      and reg: "reg k' = (reg (epoll ?p1))(fd (chans ?p1 r) := (if ?op = EPOLL_CTL_DEL then None
           else Some \<lparr>ev_events = events (chans ?p1 r), ev_ptr = r\<rparr>))"
      by (rule poller_update_spec [OF laws fits])
    show thesis
    proof (rule that [of k'])
      show "change_events ctl f r p =
        Inr (p\<lparr>chans := (chans p)(r := changed f (chans p r)),
               channels := (channels p)(fd (chans p r) \<mapsto> r), epoll := k'\<rparr>)"
        using k added unfolding map
        by (cases "f (events (chans p r)) = 0")
          (simp_all add: change_events_def UpdateChannel_def Let_def upd_chan_def isNoneEvent_def
            changed_def SetState_def ch_state_idem)
      show "reg k' = (reg (epoll p))(fd (chans p r) :=
           (if ch_state (chans p r) = ADD \<and> f (events (chans p r)) = 0 then None
            else Some \<lparr>ev_events = f (events (chans p r)), ev_ptr = r\<rparr>))"
        using reg added by (cases "f (events (chans p r)) = 0") (simp_all add: upd_chan_def)
    qed
  next
    case False
    let ?p2 = "upd_chan r (SetState ADD) (?p1\<lparr>channels := (channels p)(fd (chans p r) \<mapsto> r)\<rparr>)"
    have map: "ch_state (chans p r) = DELETED \<Longrightarrow> (channels p)(fd (chans p r) \<mapsto> r) = channels p"
      using D(1) by (simp add: fun_upd_idem)
    have fits: "(EPOLL_CTL_ADD = EPOLL_CTL_ADD) = (reg (epoll ?p2) (fd (chans ?p2 r)) = None)"
      using D(2) False by (simp add: upd_chan_def SetState_def)
    obtain k' where k: "poller_update ctl EPOLL_CTL_ADD r ?p2 = Inr (?p2\<lparr>epoll := k'\<rparr>)"
      and reg: "reg k' = (reg (epoll ?p2))(fd (chans ?p2 r) := (if EPOLL_CTL_ADD = EPOLL_CTL_DEL then None
           else Some \<lparr>ev_events = events (chans ?p2 r), ev_ptr = r\<rparr>))"
      by (rule poller_update_spec [OF laws fits])
    have "change_events ctl f r p = poller_update ctl EPOLL_CTL_ADD r ?p2"
      using False map
      by (cases "ch_state (chans p r)")
        (simp_all add: change_events_def UpdateChannel_def Let_def upd_chan_def)
    then show thesis
      using that [of k'] k reg False by (simp add: upd_chan_def changed_def SetState_def)
  qed
qed

lemma change_events_inv:
  assumes laws: "epoll_laws ctl reg" and inv: "poller_inv reg L p" and r: "r \<in> L"
  obtains p' where "change_events ctl f r p = Inr p'" and "poller_inv reg L p'"
    and "chans p' = (chans p)(r := changed f (chans p r))" and "poller.more p' = poller.more p"
    and "events_size p' = events_size p"
proof -
  obtain k' where k: "change_events ctl f r p =
      Inr (p\<lparr>chans := (chans p)(r := changed f (chans p r)),
             channels := (channels p)(fd (chans p r) \<mapsto> r), epoll := k'\<rparr>)"
    and reg: "reg k' = (reg (epoll p))(fd (chans p r) :=
           (if ch_state (chans p r) = ADD \<and> f (events (chans p r)) = 0 then None
            else Some \<lparr>ev_events = f (events (chans p r)), ev_ptr = r\<rparr>))"
    by (rule change_events_spec [OF laws inv r])
  show thesis
  proof (rule that [OF k])
    show "poller_inv reg L (p\<lparr>chans := (chans p)(r := changed f (chans p r)),
             channels := (channels p)(fd (chans p r) \<mapsto> r), epoll := k'\<rparr>)"
      by (rule poller_inv_update [OF inv r]) (auto simp: reg changed_def)
  qed simp_all
qed

lemma RemoveChannel_spec:
  assumes laws: "epoll_laws ctl reg" and inv: "poller_inv reg L p" and r: "r \<in> L"
  obtains k' where "RemoveChannel ctl r p =
      Inr (p\<lparr>chans := (chans p)(r := SetState NEW (chans p r)),
             channels := (channels p)(fd (chans p r) := None), epoll := k'\<rparr>)"
    and "reg k' = (reg (epoll p))(fd (chans p r) := None)"
proof -
  let ?p1 = "p\<lparr>channels := (channels p)(fd (chans p r) := None)\<rparr>"
  note D = poller_invD [OF inv r]
  show thesis
  proof (cases "ch_state (chans p r) = ADD")
    case True
    then have "reg (epoll ?p1) (fd (chans ?p1 r)) \<noteq> None" using D(2) by simp
    then obtain k' where "poller_update ctl EPOLL_CTL_DEL r ?p1 = Inr (?p1\<lparr>epoll := k'\<rparr>)"
      and "reg k' = (reg (epoll ?p1))(fd (chans ?p1 r) := None)"
      using poller_update_spec [OF laws, of EPOLL_CTL_DEL ?p1 r] by auto
    with True that [of k'] show thesis by (simp add: RemoveChannel_def upd_chan_def)
  next
    case False
    then have "(reg (epoll p))(fd (chans p r) := None) = reg (epoll p)"
      using D(2) by (simp add: fun_upd_idem)
    with False that [of "epoll p"] show thesis by (simp add: RemoveChannel_def Let_def upd_chan_def)
  qed
qed

lemma RemoveChannel_inv:
  assumes laws: "epoll_laws ctl reg" and inv: "poller_inv reg L p" and r: "r \<in> L"
  obtains p' where "RemoveChannel ctl r p = Inr p'" and "poller_inv reg L p'"
    and "chans p' = (chans p)(r := SetState NEW (chans p r))" and "poller.more p' = poller.more p"
proof -
  obtain k' where k: "RemoveChannel ctl r p =
      Inr (p\<lparr>chans := (chans p)(r := SetState NEW (chans p r)),
             channels := (channels p)(fd (chans p r) := None), epoll := k'\<rparr>)"
    and reg: "reg k' = (reg (epoll p))(fd (chans p r) := None)"
    by (rule RemoveChannel_spec [OF assms])
  show thesis
  proof (rule that [OF k])
    show "poller_inv reg L (p\<lparr>chans := (chans p)(r := SetState NEW (chans p r)),
             channels := (channels p)(fd (chans p r) := None), epoll := k'\<rparr>)"
      by (rule poller_inv_update [OF inv r]) (auto simp: reg SetState_def)
  qed simp_all
qed

section \<open>Sequences of requests\<close>

text \<open>What the other components ask of the poller, one constructor per operation of Channel.\<close>

datatype request =
    ReqEnableReading nat | ReqDisableReading nat | ReqEnableWriting nat | ReqDisableWriting nat
  | ReqDisableAll nat | ReqRemove nat

fun request_chan :: "request \<Rightarrow> nat" where
  "request_chan (ReqEnableReading r) = r"
| "request_chan (ReqDisableReading r) = r"
| "request_chan (ReqEnableWriting r) = r"
| "request_chan (ReqDisableWriting r) = r"
| "request_chan (ReqDisableAll r) = r"
| "request_chan (ReqRemove r) = r"

fun do_request :: "'k epoll_ctl \<Rightarrow> request \<Rightarrow> ('cb, 'k, 'z) poller_scheme \<Rightarrow>
    ('cb, 'k, 'z) poller_scheme res" where
  "do_request ctl (ReqEnableReading r) p = EnableReading ctl r p"
| "do_request ctl (ReqDisableReading r) p = DisableReading ctl r p"
| "do_request ctl (ReqEnableWriting r) p = EnableWriting ctl r p"
| "do_request ctl (ReqDisableWriting r) p = DisableWriting ctl r p"
| "do_request ctl (ReqDisableAll r) p = DisableAll ctl r p"
| "do_request ctl (ReqRemove r) p = RemoveChannel ctl r p"

lemmas change_ops = EnableReading_def DisableReading_def EnableWriting_def DisableWriting_def
  DisableAll_def

lemma do_request_inv:
  assumes laws: "epoll_laws ctl reg" and inv: "poller_inv reg L p" and r: "request_chan q \<in> L"
  shows "\<exists>p'. do_request ctl q p = Inr p' \<and> poller_inv reg L p'"
proof -
  have ch: "\<exists>p'. change_events ctl f r p = Inr p' \<and> poller_inv reg L p'" if "r \<in> L" for f r
    using change_events_inv [OF laws inv that, of f] by metis
  have rm: "\<exists>p'. RemoveChannel ctl r p = Inr p' \<and> poller_inv reg L p'" if "r \<in> L" for r
    using RemoveChannel_inv [OF laws inv that] by metis
  show ?thesis using r by (cases q) (simp_all add: change_ops ch rm)
qed

text \<open>
  The frame of a request: it concerns the descriptor of its channel only. The kernel and the map
  know no descriptor but those of the channels \<open>L\<close> when \<open>watches_only\<close> holds, and that is
  kept; a channel keeps its wiring, the descriptor and the callbacks.
\<close>

definition watched_fds :: "nat set \<Rightarrow> ('cb, 'k, 'z) poller_scheme \<Rightarrow> int set" where
  "watched_fds L p = (\<lambda>r. fd (chans p r)) ` L"

definition watches_only :: "('k \<Rightarrow> int \<Rightarrow> epoll_event option) \<Rightarrow> nat set \<Rightarrow> ('cb, 'k, 'z) poller_scheme \<Rightarrow> bool" where
  "watches_only reg L p \<longleftrightarrow> (\<forall>f. reg (epoll p) f \<noteq> None \<or> channels p f \<noteq> None \<longrightarrow> f \<in> watched_fds L p)"

definition wiring :: "'cb channel \<Rightarrow> int \<times> 'cb option \<times> 'cb option \<times> 'cb option \<times> 'cb option" where
  "wiring c = (fd c, ReadCallback c, WriteCallback c, CloseCallback c, ErrorCallback c)"

lemma wiring_fd: "wiring c = wiring d \<Longrightarrow> fd c = fd d"
  by (simp add: wiring_def)

lemma wiring_revents: "c\<lparr>revents := 0\<rparr> = d\<lparr>revents := 0\<rparr> \<Longrightarrow> wiring c = wiring d"
  by (cases c; cases d) (simp add: wiring_def)

lemma watched_fds_cong: "(\<And>r. r \<in> L \<Longrightarrow> fd (chans p' r) = fd (chans p r)) \<Longrightarrow> watched_fds L p' = watched_fds L p"
  by (simp add: watched_fds_def)

lemma watches_only_update:
  assumes "watches_only reg M p" and "r \<in> M" and c: "fd c = fd (chans p r)"
    and "m' = (channels p)(fd c := x)" and "reg k' = (reg (epoll p))(fd c := y)"
  shows "watches_only reg M (p\<lparr>chans := (chans p)(r := c), channels := m', epoll := k'\<rparr>)"
proof -
  have "watched_fds M (p\<lparr>chans := (chans p)(r := c), channels := m', epoll := k'\<rparr>) = watched_fds M p"
    by (rule watched_fds_cong) (simp add: c)
  moreover have "fd c \<in> watched_fds M p" using assms(2) c by (auto simp: watched_fds_def)
  ultimately show ?thesis using assms by (auto simp: watches_only_def)
qed

lemma change_events_frame:
  assumes laws: "epoll_laws ctl reg" and inv: "poller_inv reg L p" and r: "r \<in> L" and only: "watches_only reg L p"
  obtains p' where "change_events ctl f r p = Inr p'" and "poller_inv reg L p'" and "watches_only reg L p'"
    and "chans p' = (chans p)(r := changed f (chans p r))"
proof -
  obtain k' where k: "change_events ctl f r p =
      Inr (p\<lparr>chans := (chans p)(r := changed f (chans p r)),
             channels := (channels p)(fd (chans p r) \<mapsto> r), epoll := k'\<rparr>)"
    and reg: "reg k' = (reg (epoll p))(fd (chans p r) :=
           (if ch_state (chans p r) = ADD \<and> f (events (chans p r)) = 0 then None
            else Some \<lparr>ev_events = f (events (chans p r)), ev_ptr = r\<rparr>))"
    by (rule change_events_spec [OF laws inv r])
  obtain p' where "change_events ctl f r p = Inr p'" "poller_inv reg L p'"
    by (rule change_events_inv [OF laws inv r])
  with k have "poller_inv reg L (p\<lparr>chans := (chans p)(r := changed f (chans p r)),
             channels := (channels p)(fd (chans p r) \<mapsto> r), epoll := k'\<rparr>)" by simp
  moreover have "watches_only reg L (p\<lparr>chans := (chans p)(r := changed f (chans p r)),
             channels := (channels p)(fd (chans p r) \<mapsto> r), epoll := k'\<rparr>)"
    by (rule watches_only_update [OF only r _ _ reg [folded changed_simps(1) [of f "chans p r"]]]) simp_all
  ultimately show thesis by (rule that [OF k]) simp
qed

lemma RemoveChannel_frame:
  assumes laws: "epoll_laws ctl reg" and inv: "poller_inv reg L p" and r: "r \<in> L" and only: "watches_only reg L p"
  obtains p' where "RemoveChannel ctl r p = Inr p'" and "poller_inv reg L p'" and "watches_only reg L p'"
    and "chans p' = (chans p)(r := SetState NEW (chans p r))"
proof -
  obtain k' where k: "RemoveChannel ctl r p =
      Inr (p\<lparr>chans := (chans p)(r := SetState NEW (chans p r)),
             channels := (channels p)(fd (chans p r) := None), epoll := k'\<rparr>)"
    and reg: "reg k' = (reg (epoll p))(fd (chans p r) := None)"
    by (rule RemoveChannel_spec [OF laws inv r])
  obtain p' where "RemoveChannel ctl r p = Inr p'" "poller_inv reg L p'"
    by (rule RemoveChannel_inv [OF laws inv r])
  with k have "poller_inv reg L (p\<lparr>chans := (chans p)(r := SetState NEW (chans p r)),
             channels := (channels p)(fd (chans p r) := None), epoll := k'\<rparr>)" by simp
  moreover have "watches_only reg L (p\<lparr>chans := (chans p)(r := SetState NEW (chans p r)),
             channels := (channels p)(fd (chans p r) := None), epoll := k'\<rparr>)"
    by (rule watches_only_update [OF only r]) (simp_all add: SetState_def reg)
  ultimately show thesis by (rule that [OF k]) simp
qed

lemma do_request_frame:
  assumes "epoll_laws ctl reg" and "poller_inv reg L p" and "request_chan q \<in> L" and "watches_only reg L p"
  obtains p' c where "do_request ctl q p = Inr p'" and "poller_inv reg L p'" and "watches_only reg L p'"
    and "chans p' = (chans p)(request_chan q := c)" and "wiring c = wiring (chans p (request_chan q))"
proof (cases "\<exists>r. q = ReqRemove r")
  case True
  then have q: "do_request ctl q p = RemoveChannel ctl (request_chan q) p" by auto
  obtain p' where "RemoveChannel ctl (request_chan q) p = Inr p'" "poller_inv reg L p'" "watches_only reg L p'"
    "chans p' = (chans p)(request_chan q := SetState NEW (chans p (request_chan q)))"
    by (rule RemoveChannel_frame [OF assms])
  then show thesis by (rule that [OF q [THEN trans]]) (simp add: wiring_def SetState_def)
next
  case False
  then obtain f where q: "do_request ctl q p = change_events ctl f (request_chan q) p"
    by (cases q) (auto simp: change_ops)
  obtain p' where "change_events ctl f (request_chan q) p = Inr p'" "poller_inv reg L p'" "watches_only reg L p'"
    "chans p' = (chans p)(request_chan q := changed f (chans p (request_chan q)))"
    by (rule change_events_frame [OF assms])
  then show thesis by (rule that [OF q [THEN trans]]) (simp add: wiring_def changed_def)
qed

lemma requests_frame:
  assumes laws: "epoll_laws ctl reg" and "poller_inv reg M p" and "watches_only reg M p"
    and "request_chan ` set qs \<subseteq> L" and "L \<subseteq> M"
  shows "\<exists>p'. foldR (do_request ctl) qs p = Inr p' \<and> poller_inv reg M p' \<and> watches_only reg M p' \<and>
    (\<forall>r. r \<notin> L \<longrightarrow> chans p' r = chans p r) \<and> (\<forall>r. fd (chans p' r) = fd (chans p r))"
  using assms(2-4)
proof (induction qs arbitrary: p)
  case (Cons q qs)
  have q: "request_chan q \<in> M" "request_chan q \<in> L" using Cons.prems(3) assms(5) by auto
  obtain p1 c where p1: "do_request ctl q p = Inr p1" "poller_inv reg M p1" "watches_only reg M p1"
      "chans p1 = (chans p)(request_chan q := c)" "wiring c = wiring (chans p (request_chan q))"
    by (rule do_request_frame [OF laws Cons.prems(1) q(1) Cons.prems(2)])
  then obtain p' where p': "foldR (do_request ctl) qs p1 = Inr p'" "poller_inv reg M p'"
    "watches_only reg M p'" "\<forall>r. r \<notin> L \<longrightarrow> chans p' r = chans p1 r" "\<forall>r. fd (chans p' r) = fd (chans p1 r)"
    using Cons.IH [OF p1(2,3)] Cons.prems(3) by auto
  with q(2) p1(1,4) wiring_fd [OF p1(5)] show ?case by auto
qed simp

text \<open>
  C10. No sequence of channel operations ends the process: from a state that satisfies the
  invariant every sequence of enabling, disabling and removing requests, in any order and on
  any of the channels, returns, so no \<^verbatim>\<open>epoll_ctl\<close> call fails and no
  \<^verbatim>\<open>LOG_FATAL\<close> is reached, and the invariant holds again: the map and the kernel's
  interest set agree with the states and the event bits of the channels.
\<close>

theorem requests_never_abort:
  assumes "epoll_laws ctl reg" and "poller_inv reg L p"
    and "request_chan ` set reqs \<subseteq> L"
  shows "\<exists>p'. foldR (do_request ctl) reqs p = Inr p' \<and> poller_inv reg L p'"
  using assms(2,3)
proof (induction reqs arbitrary: p)
  case Nil
  then show ?case by simp
next
  case (Cons q reqs)
  then obtain p1 where "do_request ctl q p = Inr p1" "poller_inv reg L p1"
    using do_request_inv [OF assms(1), of L p q] by auto
  with Cons show ?case by simp
qed

text \<open>Two channels on the descriptors 5 and 6, nothing registered yet.\<close>

definition demo_poller :: "(string, int \<Rightarrow> epoll_event option) poller" where
  "demo_poller = \<lparr>chans = (\<lambda>r. new_Channel (5 + int r)), channels = Map.empty, epoll = (\<lambda>_. None),
     events_size = InitEventListSize\<rparr>"

lemma demo_poller_inv: "poller_inv id {0, 1} demo_poller"
  by (simp add: poller_inv_def demo_poller_def new_Channel_def inj_on_def)

theorem requests_never_abort_witness:
  "\<exists>p'. foldR (do_request epoll_step)
           [ReqEnableReading 0, ReqEnableWriting 1, ReqDisableAll 0, ReqDisableAll 0, ReqRemove 1, ReqRemove 0]
           demo_poller = Inr p' \<and> poller_inv id {0, 1} p'"
  by (rule requests_never_abort [OF epoll_laws_map demo_poller_inv]) simp

text \<open>
  The effect of one change of a channel's event bits: the bits are stored, no other
  channel changes, the poller knows the channel afterwards, and the kernel waits for exactly
  the new bits, except that a registered channel left with no bits is taken out of the
  kernel. A channel with no bits that is not registered is put in (so disabling everything
  twice in a row registers the channel again, with an empty mask).
\<close>

theorem change_events_effect:
  assumes "epoll_laws ctl reg" and "poller_inv reg L p" and "r \<in> L"
  shows "\<exists>p'. change_events ctl f r p = Inr p' \<and>
     events (chans p' r) = f (events (chans p r)) \<and>
     (\<forall>q. q \<noteq> r \<longrightarrow> chans p' q = chans p q) \<and> hasChannel r p' \<and>
     reg (epoll p') (fd (chans p r)) =
       (if ch_state (chans p r) = ADD \<and> f (events (chans p r)) = 0 then None
        else Some \<lparr>ev_events = f (events (chans p r)), ev_ptr = r\<rparr>)"
proof -
  obtain k' where k: "change_events ctl f r p =
      Inr (p\<lparr>chans := (chans p)(r := changed f (chans p r)),
             channels := (channels p)(fd (chans p r) \<mapsto> r), epoll := k'\<rparr>)"
    and reg: "reg k' = (reg (epoll p))(fd (chans p r) :=
           (if ch_state (chans p r) = ADD \<and> f (events (chans p r)) = 0 then None
            else Some \<lparr>ev_events = f (events (chans p r)), ev_ptr = r\<rparr>))"
    by (rule change_events_spec [OF assms])
  show ?thesis by (simp add: k reg hasChannel_def)
qed

theorem change_events_effect_witness:
  "\<exists>p'. change_events epoll_step (\<lambda>e. 0) 0 demo_poller = Inr p' \<and> hasChannel 0 p' \<and>
     epoll p' 5 = Some \<lparr>ev_events = 0, ev_ptr = 0\<rparr>"
  using change_events_effect [OF epoll_laws_map demo_poller_inv, of 0 "\<lambda>e. 0"]
  by (auto simp: demo_poller_def new_Channel_def)

section \<open>Waiting for events\<close>

lemma FillActiveChannels_list:
  "snd (FillActiveChannels es (p, a)) = a @ map ev_ptr es"
  by (induction es arbitrary: p a) simp_all

lemma FillActiveChannels_frame:
  "channels (fst (FillActiveChannels es (p, a))) = channels p \<and>
   epoll (fst (FillActiveChannels es (p, a))) = epoll p \<and>
   events_size (fst (FillActiveChannels es (p, a))) = events_size p \<and>
   (\<forall>r. (chans (fst (FillActiveChannels es (p, a))) r)\<lparr>revents := 0\<rparr> = (chans p r)\<lparr>revents := 0\<rparr>)"
  by (induction es arbitrary: p a) (simp_all add: upd_chan_def SetRevents_def)

lemma FillActiveChannels_other:
  "r \<notin> ev_ptr ` set es \<Longrightarrow> chans (fst (FillActiveChannels es (p, a))) r = chans p r"
  by (induction es arbitrary: p a) (simp_all add: upd_chan_def)

lemma FillActiveChannels_revents:
  "e \<in> set es \<Longrightarrow> distinct (map ev_ptr es) \<Longrightarrow>
     revents (chans (fst (FillActiveChannels es (p, a))) (ev_ptr e)) = ev_events e"
proof (induction es arbitrary: p a)
  case (Cons x es)
  show ?case
  proof (cases "e = x")
    case True
    with Cons.prems have "ev_ptr e \<notin> ev_ptr ` set es" by auto
    with True show ?thesis by (simp add: FillActiveChannels_other upd_chan_def SetRevents_def)
  next
    case False
    with Cons show ?thesis by simp
  qed
qed simp

lemma same_but_revents:
  assumes "c\<lparr>revents := 0\<rparr> = d\<lparr>revents := 0\<rparr>"
  shows "fd c = fd d" "events c = events d" "ch_state c = ch_state d"
proof -
  from assms have "fd (c\<lparr>revents := 0\<rparr>) = fd (d\<lparr>revents := 0\<rparr>)"
    "events (c\<lparr>revents := 0\<rparr>) = events (d\<lparr>revents := 0\<rparr>)"
    "ch_state (c\<lparr>revents := 0\<rparr>) = ch_state (d\<lparr>revents := 0\<rparr>)"
    by simp_all
  then show "fd c = fd d" "events c = events d" "ch_state c = ch_state d" by simp_all
qed

lemma FillActiveChannels_inv:
  assumes "poller_inv reg L p"
  shows "poller_inv reg L (fst (FillActiveChannels es (p, a)))"
proof -
  note F = FillActiveChannels_frame [of es p a]
  have "fd (chans (fst (FillActiveChannels es (p, a))) r) = fd (chans p r)"
    "events (chans (fst (FillActiveChannels es (p, a))) r) = events (chans p r)"
    "ch_state (chans (fst (FillActiveChannels es (p, a))) r) = ch_state (chans p r)" for r
    using F same_but_revents [of "chans (fst (FillActiveChannels es (p, a))) r" "chans p r"] by blast+
  with F assms show ?thesis by (simp add: poller_inv_def)
qed

text \<open>Waiting changes nothing but the arrived events, and reports channels the kernel has reported.\<close>

lemma poll_frame:
  assumes "poll answer now (p, []) = ((p', active), t)"
  shows "channels p' = channels p" "epoll p' = epoll p" "(chans p' r)\<lparr>revents := 0\<rparr> = (chans p r)\<lparr>revents := 0\<rparr>"
    and "r \<in> set active \<Longrightarrow> \<exists>es. answer = WaitOk es \<and> r \<in> ev_ptr ` set es"
proof -
  have "channels p' = channels p \<and> epoll p' = epoll p \<and> (chans p' r)\<lparr>revents := 0\<rparr> = (chans p r)\<lparr>revents := 0\<rparr> \<and>
     (r \<in> set active \<longrightarrow> (\<exists>es. answer = WaitOk es \<and> r \<in> ev_ptr ` set es))"
  proof (cases answer)
    case (WaitOk es)
    obtain q a where q: "FillActiveChannels es (p, []) = (q, a)" by fastforce
    with assms WaitOk FillActiveChannels_list [of es p "[]"] FillActiveChannels_frame [of es p "[]"]
    show ?thesis by (auto simp: poll_def split: if_splits)
  qed (use assms in \<open>simp add: poll_def\<close>)
  then show "channels p' = channels p" "epoll p' = epoll p" "(chans p' r)\<lparr>revents := 0\<rparr> = (chans p r)\<lparr>revents := 0\<rparr>"
    "r \<in> set active \<Longrightarrow> \<exists>es. answer = WaitOk es \<and> r \<in> ev_ptr ` set es" by blast+
qed

text \<open>
  Waiting reports what the kernel reported: the active list holds the channels of the
  events in their order, each of them with the reported bits, the others as they were; the
  invariant is kept, and the event array is doubled exactly when it was full, so that a full
  report is never read twice with the same room.
\<close>

theorem poll_reports:
  assumes "poller_inv reg L p" and "distinct (map ev_ptr es)"
  shows "case poll (WaitOk es) now (p, []) of ((p', active), t) \<Rightarrow>
     active = map ev_ptr es \<and> t = now \<and> poller_inv reg L p' \<and>
     (\<forall>e\<in>set es. revents (chans p' (ev_ptr e)) = ev_events e) \<and>
     (\<forall>r. r \<notin> ev_ptr ` set es \<longrightarrow> chans p' r = chans p r) \<and>
     events_size p' = (if es \<noteq> [] \<and> length es = events_size p then 2 * events_size p
                       else events_size p)"
proof (cases "es = []")
  case True
  with assms(1) show ?thesis by (simp add: poll_def)
next
  case False
  obtain q a where qa: "FillActiveChannels es (p, []) = (q, a)" by fastforce
  note facts = FillActiveChannels_list [of es p "[]"] FillActiveChannels_frame [of es p "[]"]
    FillActiveChannels_revents [OF _ assms(2), of _ p "[]"]
    FillActiveChannels_other [of _ es p "[]"] FillActiveChannels_inv [OF assms(1), of es "[]"]
  have sz: "poller_inv reg L (q\<lparr>events_size := n\<rparr>)" for n
    using facts(5) by (simp add: qa poller_inv_def)
  show ?thesis using facts False sz by (auto simp: poll_def qa)
qed

theorem poll_reports_witness:
  "case poll (WaitOk [\<lparr>ev_events = POLLIN, ev_ptr = 1\<rparr>]) ts_zero (demo_poller, []) of
     ((p', active), t) \<Rightarrow> active = [1] \<and> revents (chans p' 1) = POLLIN \<and> events_size p' = 16"
  using poll_reports [OF demo_poller_inv, of "[\<lparr>ev_events = POLLIN, ev_ptr = 1\<rparr>]" ts_zero]
  by (simp add: split_beta demo_poller_def InitEventListSize_def)

end
