(* ===== verification/Timer_Queue.thy ===== *)
theory Timer_Queue
  imports Timestamps
begin

text \<open>
  \<^verbatim>\<open>Timer\<close> (include/net/Timer.h, src/net/Timer.cpp) and \<^verbatim>\<open>TimerQueue\<close>
  (include/net/TimerQueue.h, src/net/TimerQueue.cpp). A timer's callback is a value of a type
  \<open>'cb\<close>; running it is a parameter of \<^verbatim>\<open>HandleRead\<close>, so a callback may add and cancel
  timers. The clock readings and the answer of \<^verbatim>\<open>timerfd_settime\<close> are arguments. A timer
  object is reached from one place at a time (an entry of the set, then the vector of expired
  entries, then its new entry), so an entry holds the timer itself.
\<close>

section \<open>Timer\<close>

record 'cb timer =
  callback :: 'cb
  expiration :: timestamp
  interval :: "32 word"
  repeat :: bool
  timer_id :: "64 word"

text \<open>The second component is the class's counter \<^verbatim>\<open>TotalNum_\<close> after the call.\<close>

definition new_Timer :: "'cb \<Rightarrow> timestamp \<Rightarrow> 32 word \<Rightarrow> 64 word \<Rightarrow> 'cb timer \<times> 64 word" where
  "new_Timer f CountDown intv TotalNum =
     (\<lparr>callback = f, expiration = CountDown, interval = intv, repeat = (0 < sint intv),
       timer_id = TotalNum + 1\<rparr>, TotalNum + 1)"

definition restart :: "timestamp \<Rightarrow> 'cb timer \<Rightarrow> 'cb timer" where
  "restart now t = (if repeat t then t\<lparr>expiration := ts_plus_int now (interval t)\<rparr>
                    else t\<lparr>expiration := ts_zero\<rparr>)"

text \<open>\<^verbatim>\<open>bool interval() const\<close>: the conversion to \<^verbatim>\<open>bool\<close> keeps only whether it is 0.\<close>

definition get_interval :: "'cb timer \<Rightarrow> bool" where
  "get_interval t \<longleftrightarrow> interval t \<noteq> 0"

section \<open>The set of timers\<close>

record 'cb ExpiredTimer =
  et_timestamp :: timestamp
  et_timer :: "'cb timer"

definition less_ExpiredTimer :: "'cb ExpiredTimer \<Rightarrow> 'cb ExpiredTimer \<Rightarrow> bool" where
  "less_ExpiredTimer a b =
     (if ts_less (et_timestamp a) (et_timestamp b) then ts_less (et_timestamp a) (et_timestamp b)
      else timer_id (et_timer a) < timer_id (et_timer b))"

text \<open>
  \<^verbatim>\<open>std::set\<close> as its iteration order. The standard defines the set only for a comparator
  that is a strict weak order on the elements; an insertion that violates this is undefined.
  For such a comparator the new element goes in front of the first one that is not less, and
  is dropped if it is equivalent to it.
\<close>

definition incomparable :: "('a \<Rightarrow> 'a \<Rightarrow> bool) \<Rightarrow> 'a \<Rightarrow> 'a \<Rightarrow> bool" where
  "incomparable lt x y \<longleftrightarrow> \<not> lt x y \<and> \<not> lt y x"

definition strict_weak_order :: "('a \<Rightarrow> 'a \<Rightarrow> bool) \<Rightarrow> 'a list \<Rightarrow> bool" where
  "strict_weak_order lt xs \<longleftrightarrow>
     (\<forall>x\<in>set xs. \<not> lt x x) \<and>
     (\<forall>x\<in>set xs. \<forall>y\<in>set xs. \<forall>z\<in>set xs. lt x y \<and> lt y z \<longrightarrow> lt x z) \<and>
     (\<forall>x\<in>set xs. \<forall>y\<in>set xs. \<forall>z\<in>set xs.
        incomparable lt x y \<and> incomparable lt y z \<longrightarrow> incomparable lt x z)"

fun place :: "('a \<Rightarrow> 'a \<Rightarrow> bool) \<Rightarrow> 'a \<Rightarrow> 'a list \<Rightarrow> 'a list" where
  "place lt x [] = [x]"
| "place lt x (y # ys) =
     (if lt y x then y # place lt x ys else if lt x y then x # y # ys else y # ys)"

definition std_set_insert :: "('a \<Rightarrow> 'a \<Rightarrow> bool) \<Rightarrow> 'a \<Rightarrow> 'a list \<Rightarrow> 'a list res" where
  "std_set_insert lt x xs = (if strict_weak_order lt (x # xs) then Inr (place lt x xs)
                             else Inl ComparatorUB)"

section \<open>TimerQueue\<close>

text \<open>\<open>timerfd_value\<close> is the value the timer descriptor was last set to, seconds and nanoseconds.\<close>

record 'cb timer_queue =
  timers :: "'cb ExpiredTimer list"
  CallingExpiredTimers :: bool
  CancelTimers :: "64 word set"
  timerfd_value :: "(int \<times> int) option"

definition new_TimerQueue :: "'cb timer_queue" where
  "new_TimerQueue = \<lparr>timers = [], CallingExpiredTimers = False, CancelTimers = {},
     timerfd_value = None\<rparr>"

text \<open>
  The two readings of the clock are those for the seconds and for the nanoseconds;
  \<open>settime_ok\<close> tells whether \<^verbatim>\<open>timerfd_settime\<close> accepts the value.
\<close>

definition ResetTimerfd :: "(int \<times> int \<Rightarrow> bool) \<Rightarrow> timestamp \<Rightarrow> timestamp \<Rightarrow> timestamp \<Rightarrow>
    ('cb, 'z) timer_queue_scheme \<Rightarrow> ('cb, 'z) timer_queue_scheme res" where
  "ResetTimerfd settime_ok now1 now2 expir q =
     (let sec = ts_minus expir now1 sdiv 1000;
          nsec = ts_minus expir now2 smod 1000;
          val = (sec, nsec * 1000)
      in if settime_ok val then Inr (q\<lparr>timerfd_value := Some val\<rparr>) else Inl Abort)"

definition insert_timer :: "'cb timer \<Rightarrow> ('cb, 'z) timer_queue_scheme \<Rightarrow> (bool \<times> ('cb, 'z) timer_queue_scheme) res" where
  "insert_timer timer q =
     (let expired = expiration timer;
          EarliestChanged = (timers q = [] \<or> ts_less expired (et_timestamp (hd (timers q))))
      in bindR (std_set_insert less_ExpiredTimer \<lparr>et_timestamp = expired, et_timer = timer\<rparr> (timers q))
           (\<lambda>ts. Inr (EarliestChanged, q\<lparr>timers := ts\<rparr>)))"

definition AddTimerInLoop :: "(int \<times> int \<Rightarrow> bool) \<Rightarrow> timestamp \<Rightarrow> timestamp \<Rightarrow> 'cb timer \<Rightarrow>
    ('cb, 'z) timer_queue_scheme \<Rightarrow> ('cb, 'z) timer_queue_scheme res" where
  "AddTimerInLoop settime_ok now1 now2 timer q =
     bindR (insert_timer timer q)
       (\<lambda>(changed, q). if changed then ResetTimerfd settime_ok now1 now2 (expiration timer) q else Inr q)"

definition CancelTimerInLoop :: "64 word \<Rightarrow> ('cb, 'z) timer_queue_scheme \<Rightarrow> ('cb, 'z) timer_queue_scheme" where
  "CancelTimerInLoop timerid q =
     (let before = takeWhile (\<lambda>i. timer_id (et_timer i) \<noteq> timerid) (timers q);
          it = dropWhile (\<lambda>i. timer_id (et_timer i) \<noteq> timerid) (timers q)
      in if it \<noteq> [] then q\<lparr>timers := before @ tl it\<rparr>
         else if CallingExpiredTimers q then q\<lparr>CancelTimers := insert timerid (CancelTimers q)\<rparr>
         else q)"

definition GetExpiredTimer :: "timestamp \<Rightarrow> ('cb, 'z) timer_queue_scheme \<Rightarrow>
    'cb ExpiredTimer list \<times> ('cb, 'z) timer_queue_scheme" where
  "GetExpiredTimer now q =
     (takeWhile (\<lambda>i. \<not> ts_greater (et_timestamp i) now) (timers q),
      q\<lparr>timers := dropWhile (\<lambda>i. \<not> ts_greater (et_timestamp i) now) (timers q)\<rparr>)"

text \<open>The other overload, for a timer that has been in the set: its shared pointer is copied.\<close>

definition insert_TimerPtr :: "'cb timer \<Rightarrow> ('cb, 'z) timer_queue_scheme \<Rightarrow> (bool \<times> ('cb, 'z) timer_queue_scheme) res" where
  "insert_TimerPtr timer q =
     (let expired = expiration timer;
          EarliestChanged = (timers q = [] \<or> ts_less expired (et_timestamp (hd (timers q))))
      in bindR (std_set_insert less_ExpiredTimer \<lparr>et_timestamp = expired, et_timer = timer\<rparr> (timers q))
           (\<lambda>ts. Inr (EarliestChanged, q\<lparr>timers := ts\<rparr>)))"

lemma insert_overloads [simp]: "insert_TimerPtr = insert_timer"
  by (simp add: fun_eq_iff insert_TimerPtr_def insert_timer_def)

definition reinsert :: "timestamp \<Rightarrow> 'cb ExpiredTimer \<Rightarrow> ('cb, 'z) timer_queue_scheme \<Rightarrow> ('cb, 'z) timer_queue_scheme res" where
  "reinsert now e q =
     (if repeat (et_timer e) \<and> timer_id (et_timer e) \<notin> CancelTimers q
      then bindR (insert_TimerPtr (restart now (et_timer e)) q) (\<lambda>(_, q). Inr q)
      else Inr q)"

definition reset :: "(int \<times> int \<Rightarrow> bool) \<Rightarrow> timestamp \<Rightarrow> timestamp \<Rightarrow> 'cb ExpiredTimer list \<Rightarrow>
    timestamp \<Rightarrow> ('cb, 'z) timer_queue_scheme \<Rightarrow> ('cb, 'z) timer_queue_scheme res" where
  "reset settime_ok now1 now2 expired now q =
     bindR (foldR (reinsert now) expired q)
       (\<lambda>q. if timers q \<noteq> []
            then ResetTimerfd settime_ok now1 now2 (expiration (et_timer (hd (timers q)))) q
            else Inr q)"

definition HandleRead :: "(int \<times> int \<Rightarrow> bool) \<Rightarrow> timestamp \<Rightarrow> timestamp \<Rightarrow>
    ('cb \<Rightarrow> ('cb, 'z) timer_queue_scheme \<Rightarrow> ('cb, 'z) timer_queue_scheme res) \<Rightarrow> timestamp \<Rightarrow>
    ('cb, 'z) timer_queue_scheme \<Rightarrow> ('cb, 'z) timer_queue_scheme res" where
  "HandleRead settime_ok now1 now2 run now q =
     (case GetExpiredTimer now q of (expired, q) \<Rightarrow>
        let q = q\<lparr>CallingExpiredTimers := False\<rparr> in
        bindR (foldR (\<lambda>e. run (callback (et_timer e))) expired q)
          (\<lambda>q. reset settime_ok now1 now2 expired now (q\<lparr>CallingExpiredTimers := False\<rparr>)))"

text \<open>
  \<^verbatim>\<open>AddTimer\<close> creates the timer and hands a bound \<^verbatim>\<open>AddTimerInLoop\<close> to the loop;
  \<^verbatim>\<open>cancel\<close> hands it a bound \<^verbatim>\<open>CancelTimerInLoop\<close>. These are the two functors.
\<close>

datatype 'cb tq_functor = AddTimerF "'cb timer" | CancelTimerF "64 word"

definition AddTimer :: "'cb \<Rightarrow> timestamp \<Rightarrow> 32 word \<Rightarrow> 64 word \<Rightarrow>
    64 word \<times> 'cb tq_functor \<times> 64 word" where
  "AddTimer f CountDown intv TotalNum =
     (case new_Timer f CountDown intv TotalNum of
        (timer, TotalNum) \<Rightarrow> (timer_id timer, AddTimerF timer, TotalNum))"

definition cancel :: "64 word \<Rightarrow> 'cb tq_functor" where
  "cancel timerid = CancelTimerF timerid"

fun run_tq_functor :: "(int \<times> int \<Rightarrow> bool) \<Rightarrow> timestamp \<Rightarrow> timestamp \<Rightarrow> 'cb tq_functor \<Rightarrow>
    ('cb, 'z) timer_queue_scheme \<Rightarrow> ('cb, 'z) timer_queue_scheme res" where
  "run_tq_functor settime_ok now1 now2 (AddTimerF t) q = AddTimerInLoop settime_ok now1 now2 t q"
| "run_tq_functor settime_ok now1 now2 (CancelTimerF i) q = Inr (CancelTimerInLoop i q)"

section \<open>The comparator\<close>

lemma less_ExpiredTimer_iff: "less_ExpiredTimer a b \<longleftrightarrow>
    et_timestamp a < et_timestamp b \<or> timer_id (et_timer a) < timer_id (et_timer b)"
  by (simp add: less_ExpiredTimer_def)

lemma swo_ExpiredTimer_iff:
  "strict_weak_order less_ExpiredTimer xs \<longleftrightarrow>
     (\<forall>a\<in>set xs. \<forall>b\<in>set xs. et_timestamp a < et_timestamp b \<longrightarrow>
        timer_id (et_timer a) \<le> timer_id (et_timer b))"
proof
  assume swo: "strict_weak_order less_ExpiredTimer xs"
  have irr: "\<not> less_ExpiredTimer a a" if "a \<in> set xs" for a
    using swo that by (simp add: strict_weak_order_def)
  have tr: "less_ExpiredTimer a c" if "a \<in> set xs" "b \<in> set xs" "c \<in> set xs"
    "less_ExpiredTimer a b" "less_ExpiredTimer b c" for a b c
    using swo that unfolding strict_weak_order_def by blast
  show "\<forall>a\<in>set xs. \<forall>b\<in>set xs. et_timestamp a < et_timestamp b \<longrightarrow>
        timer_id (et_timer a) \<le> timer_id (et_timer b)"
  proof (intro ballI impI, rule ccontr)
    fix a b
    assume ab: "a \<in> set xs" "b \<in> set xs" "et_timestamp a < et_timestamp b"
      "\<not> timer_id (et_timer a) \<le> timer_id (et_timer b)"
    then have "less_ExpiredTimer a b" "less_ExpiredTimer b a" by (simp_all add: less_ExpiredTimer_iff not_le)
    with tr [of a b a] irr ab show False by blast
  qed
next
  assume "\<forall>a\<in>set xs. \<forall>b\<in>set xs. et_timestamp a < et_timestamp b \<longrightarrow>
        timer_id (et_timer a) \<le> timer_id (et_timer b)"
  then have lex: "less_ExpiredTimer a b \<longleftrightarrow> timer_id (et_timer a) < timer_id (et_timer b) \<or>
      timer_id (et_timer a) = timer_id (et_timer b) \<and> et_timestamp a < et_timestamp b"
    if "a \<in> set xs" "b \<in> set xs" for a b
    using that by (auto simp: less_ExpiredTimer_iff order.order_iff_strict)
  show "strict_weak_order less_ExpiredTimer xs"
    unfolding strict_weak_order_def incomparable_def
  proof (intro conjI ballI impI)
    fix x y z
    assume xyz: "x \<in> set xs" "y \<in> set xs" "z \<in> set xs"
      and inc: "(\<not> less_ExpiredTimer x y \<and> \<not> less_ExpiredTimer y x) \<and>
        (\<not> less_ExpiredTimer y z \<and> \<not> less_ExpiredTimer z y)"
    from inc lex [OF xyz(1,2)] lex [OF xyz(2,1)] lex [OF xyz(2,3)] lex [OF xyz(3,2)]
    have "timer_id (et_timer x) = timer_id (et_timer z)" "et_timestamp x = et_timestamp z"
      by (metis linorder_neq_iff)+
    with lex [OF xyz(1,3)] lex [OF xyz(3,1)]
    show "\<not> less_ExpiredTimer x z" "\<not> less_ExpiredTimer z x" by simp_all
  qed (use lex in \<open>auto dest: less_trans\<close>)
qed

text \<open>
  C25. The comparator of \<^verbatim>\<open>std::set<ExpiredTimer>\<close> is a strict weak order on a list of
  entries exactly when a timer with an earlier time never has a greater number: as soon as a
  timer created later is due earlier, each of the two entries is less than the other and the
  set's behaviour is undefined.
\<close>

theorem timer_order_defined_iff:
  "strict_weak_order less_ExpiredTimer xs \<longleftrightarrow>
     (\<forall>a\<in>set xs. \<forall>b\<in>set xs. et_timestamp a < et_timestamp b \<longrightarrow>
        timer_id (et_timer a) \<le> timer_id (et_timer b))"
  by (rule swo_ExpiredTimer_iff)

theorem timer_order_defined_iff_witness:
  "\<not> strict_weak_order less_ExpiredTimer
      [\<lparr>et_timestamp = Timestamp 50, et_timer = fst (new_Timer () (Timestamp 50) 0 1)\<rparr>,
       \<lparr>et_timestamp = Timestamp 100, et_timer = fst (new_Timer () (Timestamp 100) 0 0)\<rparr>] \<and>
   strict_weak_order less_ExpiredTimer
      [\<lparr>et_timestamp = Timestamp 50, et_timer = fst (new_Timer () (Timestamp 50) 0 0)\<rparr>,
       \<lparr>et_timestamp = Timestamp 100, et_timer = fst (new_Timer () (Timestamp 100) 0 1)\<rparr>]"
  by (simp add: timer_order_defined_iff new_Timer_def timestamp_less_iff GetTime_def word_le_nat_alt)

section \<open>Insertion\<close>

text \<open>
  The order the entries have while the set is defined: by number, and with it by time. Each
  entry carries the time its timer expires at.
\<close>

definition entry_before :: "'cb ExpiredTimer \<Rightarrow> 'cb ExpiredTimer \<Rightarrow> bool" where
  "entry_before a b \<longleftrightarrow> timer_id (et_timer a) < timer_id (et_timer b) \<and>
     et_timestamp a \<le> et_timestamp b"

definition tq_inv :: "('cb, 'z) timer_queue_scheme \<Rightarrow> bool" where
  "tq_inv q \<longleftrightarrow> sorted_wrt entry_before (timers q) \<and>
     (\<forall>e\<in>set (timers q). et_timestamp e = expiration (et_timer e))"

lemma new_TimerQueue_inv: "tq_inv new_TimerQueue"
  by (simp add: tq_inv_def new_TimerQueue_def)

lemma set_place: "\<forall>y\<in>set xs. lt y x \<or> lt x y \<Longrightarrow> set (place lt x xs) = insert x (set xs)"
  by (induction xs) auto

lemma place_before:
  assumes "sorted_wrt entry_before xs"
    and "\<forall>y\<in>set xs. timer_id (et_timer y) \<noteq> timer_id (et_timer x)"
    and "\<forall>y\<in>set xs. less_ExpiredTimer y x \<longrightarrow> entry_before y x"
    and "\<forall>y\<in>set xs. less_ExpiredTimer x y \<longrightarrow> entry_before x y"
  shows "sorted_wrt entry_before (place less_ExpiredTimer x xs)"
  using assms
proof (induction xs)
  case (Cons y ys)
  have total: "less_ExpiredTimer z x \<or> less_ExpiredTimer x z" if "z \<in> set (y # ys)" for z
    using Cons.prems(2) that by (auto simp: less_ExpiredTimer_iff)
  show ?case
  proof (cases "less_ExpiredTimer y x")
    case True
    have "set (place less_ExpiredTimer x ys) = insert x (set ys)"
      using total by (intro set_place) simp
    with True Cons show ?thesis by simp
  next
    case False
    with total have xy: "entry_before x y" using Cons.prems(4) by auto
    then have "\<forall>z\<in>set ys. entry_before x z"
      using Cons.prems(1) by (auto simp: entry_before_def)
    with xy False total [of y] Cons.prems(1) show ?thesis by simp
  qed
qed simp

lemma place_hd:
  "place lt x xs \<noteq> []" "hd (place lt x xs) = (if xs = [] then x else if lt (hd xs) x then hd xs
     else if lt x (hd xs) then x else hd xs)"
  by (cases xs; simp)+

lemma swo_entry_before:
  assumes "strict_weak_order less_ExpiredTimer xs" and "a \<in> set xs" and "b \<in> set xs"
    and "less_ExpiredTimer a b" and "timer_id (et_timer a) \<noteq> timer_id (et_timer b)"
  shows "entry_before a b"
  using assms unfolding swo_ExpiredTimer_iff entry_before_def less_ExpiredTimer_iff
  by (metis linorder_not_less order.strict_iff_order)

text \<open>
  C24. Inserting a timer whose number is not in the set. The insertion is undefined exactly
  when some entry is due later although its number is smaller, or due earlier although its
  number is greater. Otherwise the queue keeps its order, holds the old entries and the new
  one, and the returned flag tells whether the earliest time has become earlier (or there was
  none), which is what \<^verbatim>\<open>AddTimerInLoop\<close> sets the timer descriptor by.
\<close>

theorem insert_timer_exact:
  assumes "tq_inv q" and "\<forall>e\<in>set (timers q). timer_id (et_timer e) \<noteq> timer_id t"
  shows "case insert_timer t q of
      Inl f \<Rightarrow> f = ComparatorUB \<and>
        (\<exists>e\<in>set (timers q).
           expiration t < et_timestamp e \<and> timer_id (et_timer e) < timer_id t \<or>
           et_timestamp e < expiration t \<and> timer_id t < timer_id (et_timer e))
    | Inr (changed, q') \<Rightarrow> tq_inv q' \<and>
        set (timers q') = insert \<lparr>et_timestamp = expiration t, et_timer = t\<rparr> (set (timers q)) \<and>
        (changed \<longleftrightarrow> timers q = [] \<or>
           et_timestamp (hd (timers q')) < et_timestamp (hd (timers q)))"
proof -
  let ?e = "\<lparr>et_timestamp = expiration t, et_timer = t\<rparr>"
  have sorted: "sorted_wrt entry_before (timers q)"
    and keys: "\<forall>e\<in>set (timers q). et_timestamp e = expiration (et_timer e)"
    using assms(1) by (simp_all add: tq_inv_def)
  have inner: "timer_id (et_timer a) \<le> timer_id (et_timer b)"
    if "a \<in> set (timers q)" "b \<in> set (timers q)" "et_timestamp a < et_timestamp b" for a b
    using sorted_wrt_cases [OF sorted that(1,2)] that(3) by (auto simp: entry_before_def)
  show ?thesis
  proof (cases "strict_weak_order less_ExpiredTimer (?e # timers q)")
    case swo: True
    have dir: "\<forall>y\<in>set (timers q). less_ExpiredTimer y ?e \<longrightarrow> entry_before y ?e"
      "\<forall>y\<in>set (timers q). less_ExpiredTimer ?e y \<longrightarrow> entry_before ?e y"
      using assms(2) by (auto intro!: swo_entry_before [OF swo] dest: sym)
    have tot: "\<forall>y\<in>set (timers q). less_ExpiredTimer y ?e \<or> less_ExpiredTimer ?e y"
      using assms(2) by (auto simp: less_ExpiredTimer_iff)
    define ts' where "ts' = place less_ExpiredTimer ?e (timers q)"
    have res: "insert_timer t q =
        Inr (timers q = [] \<or> expiration t < et_timestamp (hd (timers q)), q\<lparr>timers := ts'\<rparr>)"
      using swo by (simp add: insert_timer_def std_set_insert_def Let_def ts'_def)
    have set': "set ts' = insert ?e (set (timers q))"
      using set_place [OF tot] by (simp add: ts'_def)
    moreover have "sorted_wrt entry_before ts'"
      using place_before [OF sorted _ dir] assms(2) by (simp add: ts'_def)
    ultimately have inv': "tq_inv (q\<lparr>timers := ts'\<rparr>)"
      using keys by (simp add: tq_inv_def)
    have flag: "timers q = [] \<or> expiration t < et_timestamp (hd (timers q)) \<longleftrightarrow>
        timers q = [] \<or> et_timestamp (hd ts') < et_timestamp (hd (timers q))"
    proof (cases "timers q = []")
      case False
      then have "hd (timers q) \<in> set (timers q)" by simp
      with dir have "less_ExpiredTimer (hd (timers q)) ?e \<longrightarrow> entry_before (hd (timers q)) ?e"
        "less_ExpiredTimer ?e (hd (timers q)) \<longrightarrow> entry_before ?e (hd (timers q))" by blast+
      with False show ?thesis
        by (auto simp: ts'_def place_hd less_ExpiredTimer_iff entry_before_def)
    qed simp
    show ?thesis using inv' set' flag by (simp add: res)
  next
    case False
    then have "\<exists>e\<in>set (timers q).
        expiration t < et_timestamp e \<and> timer_id (et_timer e) < timer_id t \<or>
        et_timestamp e < expiration t \<and> timer_id t < timer_id (et_timer e)"
      using inner by (auto simp: swo_ExpiredTimer_iff not_le [symmetric])
    with False show ?thesis by (simp add: insert_timer_def std_set_insert_def)
  qed
qed

text \<open>A timer due at 50 inserted behind one that was created before it and is due at 100.\<close>

definition demo_timer :: "64 word \<Rightarrow> 64 word \<Rightarrow> string timer" where
  "demo_timer i due = \<lparr>callback = ''cb'', expiration = Timestamp due, interval = 0, repeat = False,
     timer_id = i\<rparr>"

theorem insert_timer_exact_witness:
  "let q = new_TimerQueue\<lparr>timers := [\<lparr>et_timestamp = Timestamp 100, et_timer = demo_timer 1 100\<rparr>]\<rparr>
   in insert_timer (demo_timer 2 50) q = Inl ComparatorUB \<and>
      (\<exists>q'. insert_timer (demo_timer 2 200) q = Inr (False, q') \<and> tq_inv q')"
proof -
  let ?q = "new_TimerQueue\<lparr>timers := [\<lparr>et_timestamp = Timestamp 100, et_timer = demo_timer 1 100\<rparr>]\<rparr>"
  have inv: "tq_inv ?q" by (simp add: tq_inv_def demo_timer_def)
  have fresh: "\<forall>e\<in>set (timers ?q). timer_id (et_timer e) \<noteq> timer_id (demo_timer 2 d)" for d
    by (simp add: demo_timer_def)
  have t: "Timestamp 50 < Timestamp 100" "\<not> Timestamp 200 < Timestamp 100" "\<not> (2 :: 64 word) \<le> 1"
    by (simp_all add: timestamp_less_iff GetTime_def word_le_nat_alt)
  have "\<not> strict_weak_order less_ExpiredTimer
      [\<lparr>et_timestamp = Timestamp 50, et_timer = demo_timer 2 50\<rparr>,
       \<lparr>et_timestamp = Timestamp 100, et_timer = demo_timer 1 100\<rparr>]"
    using t by (simp add: swo_ExpiredTimer_iff demo_timer_def)
  then have "insert_timer (demo_timer 2 50) ?q = Inl ComparatorUB"
    by (simp add: insert_timer_def std_set_insert_def demo_timer_def)
  moreover have "\<exists>q'. insert_timer (demo_timer 2 200) ?q = Inr (False, q') \<and> tq_inv q'"
    using insert_timer_exact [OF inv fresh, of 200] t
    by (auto simp: demo_timer_def insert_timer_def bindR_def Let_def split: sum.splits)
  ultimately show ?thesis by simp
qed

section \<open>Expiry\<close>

lemma expired_prefix:
  assumes "sorted_wrt entry_before xs"
  shows "takeWhile (\<lambda>e. \<not> ts_greater (et_timestamp e) now) xs = filter (\<lambda>e. et_timestamp e \<le> now) xs"
    and "dropWhile (\<lambda>e. \<not> ts_greater (et_timestamp e) now) xs = filter (\<lambda>e. now < et_timestamp e) xs"
proof -
  have later: "\<forall>e\<in>set ys. now < et_timestamp e" if "\<forall>e\<in>set ys. entry_before x e" "now < et_timestamp x"
    for x :: "'a ExpiredTimer" and ys
    using that by (auto simp: entry_before_def)
  show "takeWhile (\<lambda>e. \<not> ts_greater (et_timestamp e) now) xs = filter (\<lambda>e. et_timestamp e \<le> now) xs"
    using assms
  proof (induction xs)
    case (Cons x xs)
    then show ?case using later [of xs x] by (auto simp: filter_empty_conv not_le)
  qed simp
  show "dropWhile (\<lambda>e. \<not> ts_greater (et_timestamp e) now) xs = filter (\<lambda>e. now < et_timestamp e) xs"
    using assms
  proof (induction xs)
    case (Cons x xs)
    then show ?case using later [of xs x] by (auto simp: filter_id_conv)
  qed simp
qed

text \<open>
  On a queue in order \<^verbatim>\<open>GetExpiredTimer\<close> splits the timers at the given time: it
  returns exactly the entries that are due, in order, and leaves exactly the others; the
  queue stays in order.
\<close>

theorem GetExpiredTimer_splits:
  assumes "tq_inv q"
  shows "case GetExpiredTimer now q of (expired, q') \<Rightarrow>
     expired = filter (\<lambda>e. et_timestamp e \<le> now) (timers q) \<and>
     timers q' = filter (\<lambda>e. now < et_timestamp e) (timers q) \<and>
     timers q = expired @ timers q' \<and> tq_inv q'"
proof -
  have sorted: "sorted_wrt entry_before (timers q)" using assms by (simp add: tq_inv_def)
  note split = expired_prefix [OF sorted, of now]
  have "timers q = filter (\<lambda>e. et_timestamp e \<le> now) (timers q) @
      filter (\<lambda>e. now < et_timestamp e) (timers q)"
    using takeWhile_dropWhile_id [of "\<lambda>e. \<not> ts_greater (et_timestamp e) now" "timers q"]
    unfolding split by simp
  with split assms show ?thesis
    by (simp add: GetExpiredTimer_def tq_inv_def sorted_wrt_filter)
qed

theorem GetExpiredTimer_splits_witness:
  "let q = new_TimerQueue\<lparr>timers := [\<lparr>et_timestamp = Timestamp 100, et_timer = demo_timer 1 100\<rparr>,
             \<lparr>et_timestamp = Timestamp 200, et_timer = demo_timer 2 200\<rparr>]\<rparr>
   in map (\<lambda>e. timer_id (et_timer e)) (fst (GetExpiredTimer (Timestamp 150) q)) = [1]"
proof -
  let ?q = "new_TimerQueue\<lparr>timers := [\<lparr>et_timestamp = Timestamp 100, et_timer = demo_timer 1 100\<rparr>,
             \<lparr>et_timestamp = Timestamp 200, et_timer = demo_timer 2 200\<rparr>]\<rparr>"
  have "tq_inv ?q"
    by (simp add: tq_inv_def entry_before_def demo_timer_def timestamp_le_iff GetTime_def word_less_nat_alt)
  from GetExpiredTimer_splits [OF this, of "Timestamp 150"] show ?thesis
    by (simp add: split_beta timestamp_le_iff GetTime_def demo_timer_def)
qed

section \<open>Setting the timer descriptor\<close>

text \<open>
  \<^verbatim>\<open>timerfd_settime(2)\<close> refuses a value that is negative or has a billion nanoseconds or
  more; the value 0, 0 disarms the timer.
\<close>

definition settime_law :: "(int \<times> int \<Rightarrow> bool) \<Rightarrow> bool" where
  "settime_law ok \<longleftrightarrow> (\<forall>s n. ok (s, n) \<longleftrightarrow> 0 \<le> s \<and> 0 \<le> n \<and> n < 1000000000)"

definition nanoseconds :: "int \<times> int \<Rightarrow> int" where
  "nanoseconds v = fst v * 1000000000 + snd v"

lemma truncating_thousand:
  fixes d :: int
  shows "0 \<le> d \<Longrightarrow> d sdiv 1000 = d div 1000" "0 \<le> d \<Longrightarrow> d smod 1000 = d mod 1000"
    and "d < 0 \<Longrightarrow> d sdiv 1000 < 0 \<or> d smod 1000 < 0"
proof -
  show "0 \<le> d \<Longrightarrow> d sdiv 1000 = d div 1000" "0 \<le> d \<Longrightarrow> d smod 1000 = d mod 1000"
    by (auto simp: signed_divide_int_def signed_modulo_int_def sgn_if minus_div_mult_eq_mod
        algebra_simps)
  have "0 < - d div 1000 \<or> 0 < - d mod 1000" if "d < 0"
  proof -
    have "1000 * (- d div 1000) + - d mod 1000 = - d" by (rule mult_div_mod_eq)
    moreover have "0 \<le> - d div 1000" using that by (intro pos_imp_zdiv_nonneg_iff [THEN iffD2]) auto
    ultimately show ?thesis using that by linarith
  qed
  then show "d < 0 \<Longrightarrow> d sdiv 1000 < 0 \<or> d smod 1000 < 0"
    by (auto simp: signed_divide_int_def signed_modulo_int_def sgn_if)
qed

text \<open>
  Arming the timer for a time \<open>d\<close> milliseconds away. A time that has passed ends the
  process: the value is negative, \<^verbatim>\<open>timerfd_settime\<close> fails and \<^verbatim>\<open>LOG_FATAL\<close> aborts.
  Otherwise the timer is armed for at most \<open>d\<close> milliseconds, for exactly \<open>d\<close> only if \<open>d\<close> is
  a whole number of seconds (the rest is scaled by 1000 instead of a million), and a time
  that is due right now disarms it.
\<close>

theorem ResetTimerfd_effect:
  assumes "settime_law ok" and "d = GetTime expir - GetTime now" and "int64 d"
  shows "case ResetTimerfd ok now now expir q of
      Inl f \<Rightarrow> f = Abort \<and> d < 0
    | Inr q' \<Rightarrow> 0 \<le> d \<and> timers q' = timers q \<and>
        (\<exists>v. timerfd_value q' = Some v \<and> nanoseconds v \<le> d * 1000000 \<and>
           (nanoseconds v = d * 1000000 \<longleftrightarrow> d mod 1000 = 0) \<and> (v = (0, 0) \<longleftrightarrow> d = 0))"
proof (cases "d < 0")
  case True
  have "ts_minus expir now = d" using assms(2,3) by (simp add: ts_minus_exact)
  moreover have "\<not> ok (d sdiv 1000, d smod 1000 * 1000)"
    using assms(1) truncating_thousand(3) [OF True] by (auto simp: settime_law_def)
  ultimately show ?thesis using True by (simp add: ResetTimerfd_def)
next
  case False
  let ?v = "(d div 1000, d mod 1000 * 1000)"
  have m: "0 \<le> d mod 1000" "d mod 1000 < 1000" "d = d div 1000 * 1000 + d mod 1000" by simp_all
  have "ts_minus expir now = d" using assms(2,3) by (simp add: ts_minus_exact)
  moreover have "0 \<le> d div 1000" "d mod 1000 * 1000 < 1000000000" using False m by simp_all
  then have "ok ?v" using assms(1) m by (simp add: settime_law_def)
  ultimately have "ResetTimerfd ok now now expir q = Inr (q\<lparr>timerfd_value := Some ?v\<rparr>)"
    using False by (simp add: ResetTimerfd_def truncating_thousand)
  moreover have "nanoseconds ?v = d * 1000000 - d mod 1000 * 999000"
    using m(3) unfolding nanoseconds_def fst_conv snd_conv by linarith
  moreover have "?v = (0, 0) \<longleftrightarrow> d = 0" using m False by auto
  ultimately show ?thesis using False m by auto
qed

theorem ResetTimerfd_effect_witness:
  "ResetTimerfd (\<lambda>(s, n). 0 \<le> s \<and> 0 \<le> n \<and> n < 1000000000) (Timestamp 1000) (Timestamp 1000)
     (Timestamp 999) new_TimerQueue = (Inl Abort :: string timer_queue res) \<and>
   (\<exists>q'. ResetTimerfd (\<lambda>(s, n). 0 \<le> s \<and> 0 \<le> n \<and> n < 1000000000) (Timestamp 1000) (Timestamp 1000)
     (Timestamp 2500) new_TimerQueue = (Inr q' :: string timer_queue res) \<and>
     timerfd_value q' = Some (1, 500000))"
proof -
  let ?ok = "\<lambda>(s, n). 0 \<le> s \<and> 0 \<le> n \<and> n < (1000000000 :: int)"
  have law: "settime_law ?ok" by (simp add: settime_law_def)
  have "- 1 = GetTime (Timestamp 999) - GetTime (Timestamp 1000)" "int64 (- 1)"
    by (simp_all add: GetTime_def int64_def)
  note 1 = ResetTimerfd_effect [OF law this, of new_TimerQueue]
  have "1500 = GetTime (Timestamp 2500) - GetTime (Timestamp 1000)" "int64 1500"
    by (simp_all add: GetTime_def int64_def)
  note 2 = ResetTimerfd_effect [OF law this, of new_TimerQueue]
  from 1 2 show ?thesis
    by (auto simp: ResetTimerfd_def ts_minus_def GetTime_def Let_def signed_divide_int_def
        signed_modulo_int_def split: sum.splits)
qed

section \<open>Cancelling while the callbacks run\<close>

text \<open>
  \<^verbatim>\<open>CancelTimers_\<close> records a cancellation only while \<^verbatim>\<open>CallingExpiredTimers_\<close> is
  set, and \<^verbatim>\<open>HandleRead\<close> never sets it.
\<close>

definition quiet :: "('cb, 'z) timer_queue_scheme \<Rightarrow> bool" where
  "quiet q \<longleftrightarrow> \<not> CallingExpiredTimers q \<and> CancelTimers q = {}"

lemma insert_timer_frame:
  "insert_timer t q = Inr (c, q') \<Longrightarrow> CallingExpiredTimers q' = CallingExpiredTimers q \<and>
     CancelTimers q' = CancelTimers q"
  by (auto simp: insert_timer_def Let_def)

lemma ResetTimerfd_frame:
  "ResetTimerfd ok n1 n2 e q = Inr q' \<Longrightarrow> CallingExpiredTimers q' = CallingExpiredTimers q \<and>
     CancelTimers q' = CancelTimers q \<and> timers q' = timers q"
  by (auto simp: ResetTimerfd_def Let_def split: if_splits)

lemma run_tq_functor_quiet:
  "run_tq_functor ok n1 n2 f q = Inr q' \<Longrightarrow> quiet q \<Longrightarrow> quiet q'"
  by (cases f) (auto simp: quiet_def AddTimerInLoop_def CancelTimerInLoop_def Let_def
      split: if_splits dest!: insert_timer_frame ResetTimerfd_frame)

lemma reinsert_frame: "reinsert now e q = Inr q' \<Longrightarrow> quiet q \<Longrightarrow> quiet q'"
  by (auto simp: reinsert_def quiet_def split: if_splits dest!: insert_timer_frame)

lemma place_keeps: "set xs \<subseteq> set (place lt x xs)"
  by (induction xs) auto

lemma place_holds: "x \<in> set (place lt x xs) \<or> (\<exists>y\<in>set xs. \<not> lt y x \<and> \<not> lt x y)"
  by (induction xs) auto

definition holds_entry :: "64 word \<Rightarrow> timestamp \<Rightarrow> ('cb, 'z) timer_queue_scheme \<Rightarrow> bool" where
  "holds_entry i t q \<longleftrightarrow> (\<exists>e\<in>set (timers q). timer_id (et_timer e) = i \<and> et_timestamp e = t)"

lemma insert_timer_holds:
  assumes "insert_timer t q = Inr (c, q')"
  shows "holds_entry (timer_id t) (expiration t) q'"
    and "holds_entry i u q \<Longrightarrow> holds_entry i u q'"
proof -
  let ?e = "\<lparr>et_timestamp = expiration t, et_timer = t\<rparr>"
  have q': "timers q' = place less_ExpiredTimer ?e (timers q)"
    using assms by (auto simp: insert_timer_def std_set_insert_def Let_def split: if_splits)
  then show "holds_entry i u q \<Longrightarrow> holds_entry i u q'"
    using place_keeps [of "timers q" less_ExpiredTimer ?e] by (auto simp: holds_entry_def)
  from place_holds [of ?e less_ExpiredTimer "timers q"]
  show "holds_entry (timer_id t) (expiration t) q'"
  proof
    assume "\<exists>y\<in>set (timers q). \<not> less_ExpiredTimer y ?e \<and> \<not> less_ExpiredTimer ?e y"
    then obtain y where "y \<in> set (timers q')" "timer_id (et_timer y) = timer_id t"
      "et_timestamp y = expiration t"
      using place_keeps [of "timers q" less_ExpiredTimer ?e]
      by (auto simp: less_ExpiredTimer_iff q' intro: antisym)
    then show ?thesis by (auto simp: holds_entry_def)
  next
    assume "?e \<in> set (place less_ExpiredTimer ?e (timers q))"
    then show ?thesis unfolding holds_entry_def q' by (rule bexI [rotated]) simp
  qed
qed

lemma reinsert_all_holds:
  assumes "foldR (reinsert now) es q = Inr q'" and "quiet q"
  shows "(\<forall>i u. holds_entry i u q \<longrightarrow> holds_entry i u q') \<and>
    (\<forall>e\<in>set es. repeat (et_timer e) \<longrightarrow>
       holds_entry (timer_id (et_timer e)) (ts_plus_int now (interval (et_timer e))) q')"
  using assms
proof (induction es arbitrary: q)
  case (Cons e es)
  then obtain q1 where q1: "reinsert now e q = Inr q1" "foldR (reinsert now) es q1 = Inr q'" by auto
  have "quiet q1" using reinsert_frame [OF q1(1) Cons.prems(2)] .
  note IH = Cons.IH [OF q1(2) this]
  have "holds_entry (timer_id (et_timer e)) (ts_plus_int now (interval (et_timer e))) q1"
    if "repeat (et_timer e)"
    using q1(1) that Cons.prems(2) insert_timer_holds(1)
    by (fastforce simp: reinsert_def quiet_def restart_def)
  moreover have "holds_entry i u q1" if "holds_entry i u q" for i u
    using q1(1) that insert_timer_holds(2) by (auto simp: reinsert_def split: if_splits)
  ultimately show ?case using IH by auto
qed simp

text \<open>
  A repeating timer that expired is armed again, whatever its callback does: if the
  callbacks work on the queue by adding and cancelling timers, then after
  \<^verbatim>\<open>HandleRead\<close> every expired repeating timer is back in the queue one interval later.
  In particular a callback that cancels its own timer, or that of another expired one, has no
  effect: the cancellation is forgotten, because \<^verbatim>\<open>CallingExpiredTimers_\<close> is not set
  while the callbacks run.
\<close>

theorem cancel_in_callback_is_lost:
  assumes "quiet q" and "\<And>cb s s'. run cb s = Inr s' \<Longrightarrow> quiet s \<Longrightarrow> quiet s'"
    and "HandleRead ok n1 n2 run now q = Inr q'"
    and "e \<in> set (fst (GetExpiredTimer now q))" and "repeat (et_timer e)"
  shows "holds_entry (timer_id (et_timer e)) (ts_plus_int now (interval (et_timer e))) q' \<and> quiet q'"
proof -
  obtain expired q1 where ex: "GetExpiredTimer now q = (expired, q1)" by fastforce
  from assms(3) ex obtain q2 q3 where
    q2: "foldR (\<lambda>e. run (callback (et_timer e))) expired (q1\<lparr>CallingExpiredTimers := False\<rparr>) = Inr q2"
    and q3: "foldR (reinsert now) expired (q2\<lparr>CallingExpiredTimers := False\<rparr>) = Inr q3"
    and q': "(if timers q3 \<noteq> [] then ResetTimerfd ok n1 n2 (expiration (et_timer (hd (timers q3)))) q3
      else Inr q3) = Inr q'"
    by (auto simp: HandleRead_def reset_def Let_def)
  have "quiet (q1\<lparr>CallingExpiredTimers := False\<rparr>)"
    using assms(1) ex by (auto simp: GetExpiredTimer_def quiet_def)
  with q2 have "quiet q2" by (rule foldR_invariant) (rule assms(2))
  then have quiet2: "quiet (q2\<lparr>CallingExpiredTimers := False\<rparr>)" by (simp add: quiet_def)
  from reinsert_all_holds [OF q3 this] assms(4,5) ex
  have "holds_entry (timer_id (et_timer e)) (ts_plus_int now (interval (et_timer e))) q3" by simp
  moreover have "quiet q3" using q3 quiet2 by (rule foldR_invariant) (rule reinsert_frame)
  ultimately show ?thesis
    using q' by (auto simp: holds_entry_def quiet_def split: if_splits dest!: ResetTimerfd_frame)
qed

text \<open>A timer of interval 10 that is due, whose callback cancels it.\<close>

theorem cancel_in_callback_is_lost_witness:
  "let t = \<lparr>callback = (7 :: 64 word), expiration = Timestamp 100, interval = 10, repeat = True, timer_id = 7\<rparr>;
       q = new_TimerQueue\<lparr>timers := [\<lparr>et_timestamp = Timestamp 100, et_timer = t\<rparr>]\<rparr>
   in \<exists>q'. HandleRead (\<lambda>_. True) (Timestamp 100) (Timestamp 100) (\<lambda>i q. Inr (CancelTimerInLoop i q))
         (Timestamp 100) q = Inr q' \<and> holds_entry 7 (Timestamp 110) q'"
proof -
  let ?t = "\<lparr>callback = (7 :: 64 word), expiration = Timestamp 100, interval = 10, repeat = True, timer_id = 7\<rparr>"
  let ?e = "\<lparr>et_timestamp = Timestamp 100, et_timer = ?t\<rparr>"
  let ?q = "new_TimerQueue\<lparr>timers := [?e]\<rparr>"
  let ?run = "\<lambda>i q. Inr (CancelTimerInLoop i q) :: 64 word timer_queue res"
  obtain q' where q': "HandleRead (\<lambda>_. True) (Timestamp 100) (Timestamp 100) ?run (Timestamp 100) ?q = Inr q'"
    by (simp add: HandleRead_def GetExpiredTimer_def reset_def reinsert_def new_TimerQueue_def
        CancelTimerInLoop_def insert_timer_def std_set_insert_def swo_ExpiredTimer_iff
        ResetTimerfd_def restart_def Let_def)
  have quiet: "quiet ?q" by (simp add: quiet_def new_TimerQueue_def)
  have run: "quiet s'" if "?run cb s = Inr s'" "quiet s" for cb s s'
    using run_tq_functor_quiet [of "\<lambda>_. True" ts_zero ts_zero "CancelTimerF cb" s s'] that by simp
  have e: "?e \<in> set (fst (GetExpiredTimer (Timestamp 100) ?q))"
    by (simp add: GetExpiredTimer_def)
  have "holds_entry 7 (Timestamp 110) q'"
    using cancel_in_callback_is_lost [OF quiet run q' e] by (simp add: ts_plus_int_def)
  with q' show ?thesis by auto
qed

end
