(* ===== verification/Event_Loop.thy ===== *)
theory Event_Loop
  imports Pollers Timer_Queue
begin

text \<open>
  \<^verbatim>\<open>EventLoop\<close> of include/net/EventLoop.h and src/net/EventLoop.cpp: the functor queue and
  its wake-up descriptor, the loop itself, and the timer requests. The state extends that of
  the timer queue and holds the poller. A thread is seen through the answer of
  \<^verbatim>\<open>IsInLoopThread()\<close>, the argument \<open>in_loop\<close>; how the threads interleave is the step
  relation of the second half.

  Functors, channel callbacks and timer callbacks are values; running them is a parameter.
  The kernel (epoll, eventfd, timerfd) is a record of parameters; what the code relies on is
  \<^const>\<open>epoll_laws\<close> and the \<open>eventfd_laws\<close> below.
\<close>

section \<open>State\<close>

datatype ('t, 'u) loop_functor = TimerF "'t tq_functor" | UserF 'u

text \<open>The callbacks on channels: the loop's own two read callbacks and those of its users.\<close>

datatype 'c handler = EventLoopRead | TimerQueueRead | Handler 'c

record ('k, 'e) loop_sys =
  sys_ctl :: "'k epoll_ctl"
  eventfd_write :: "'e \<Rightarrow> bool \<times> 'e"
  eventfd_read :: "'e \<Rightarrow> bool \<times> 'e"
  settime_ok :: "int \<times> int \<Rightarrow> bool"

record ('t, 'c, 'k, 'e, 'u) event_loop = "'t timer_queue" +
  isLooping :: bool
  quit_flag :: bool
  callable :: bool
  PollreturnTime :: timestamp
  poller_of :: "('c handler, 'k) poller"
  wakeupFd :: 'e
  WakeupChannel :: nat
  ActiveChannels :: "nat list"
  functors :: "('t, 'u) loop_functor list"
  TotalNum :: "64 word"
  clock :: "nat \<Rightarrow> timestamp"

type_synonym ('t, 'c, 'k, 'e, 'u, 'z) eloop = "('t, 'c, 'k, 'e, 'u, 'z) event_loop_scheme"

definition PollTimeMs :: int where "PollTimeMs = 5000"

text \<open>\<^verbatim>\<open>Timestamp::now()\<close> takes the next of the readings the clock will give.\<close>

definition read_clock :: "('t, 'c, 'k, 'e, 'u, 'z) eloop \<Rightarrow>
    timestamp \<times> ('t, 'c, 'k, 'e, 'u, 'z) eloop" where
  "read_clock l = (clock l 0, l\<lparr>clock := (\<lambda>n. clock l (Suc n))\<rparr>)"

section \<open>Channels of the loop\<close>

definition with_poller ::
  "(('c handler, 'k) poller \<Rightarrow> ('c handler, 'k) poller res) \<Rightarrow>
     ('t, 'c, 'k, 'e, 'u, 'z) eloop \<Rightarrow> ('t, 'c, 'k, 'e, 'u, 'z) eloop res" where
  "with_poller f l = bindR (f (poller_of l)) (\<lambda>p. Inr (l\<lparr>poller_of := p\<rparr>))"

definition loop_UpdateChannel :: "('k, 'e) loop_sys \<Rightarrow> nat \<Rightarrow>
    ('t, 'c, 'k, 'e, 'u, 'z) eloop \<Rightarrow> ('t, 'c, 'k, 'e, 'u, 'z) eloop res" where
  "loop_UpdateChannel sys r = with_poller (UpdateChannel (sys_ctl sys) r)"

definition loop_RemoveChannel :: "('k, 'e) loop_sys \<Rightarrow> nat \<Rightarrow>
    ('t, 'c, 'k, 'e, 'u, 'z) eloop \<Rightarrow> ('t, 'c, 'k, 'e, 'u, 'z) eloop res" where
  "loop_RemoveChannel sys r = with_poller (RemoveChannel (sys_ctl sys) r)"

definition loop_HasChannel :: "nat \<Rightarrow> ('t, 'c, 'k, 'e, 'u, 'z) eloop \<Rightarrow> bool" where
  "loop_HasChannel r l = hasChannel r (poller_of l)"

section \<open>Functors and waking up\<close>

text \<open>A short write or read of the eventfd is only logged.\<close>

definition wakeup :: "('k, 'e) loop_sys \<Rightarrow>
    ('t, 'c, 'k, 'e, 'u, 'z) eloop \<Rightarrow> ('t, 'c, 'k, 'e, 'u, 'z) eloop" where
  "wakeup sys l = l\<lparr>wakeupFd := snd (eventfd_write sys (wakeupFd l))\<rparr>"

definition loop_HandleRead :: "('k, 'e) loop_sys \<Rightarrow>
    ('t, 'c, 'k, 'e, 'u, 'z) eloop \<Rightarrow> ('t, 'c, 'k, 'e, 'u, 'z) eloop" where
  "loop_HandleRead sys l = l\<lparr>wakeupFd := snd (eventfd_read sys (wakeupFd l))\<rparr>"

definition QueueInLoop :: "('k, 'e) loop_sys \<Rightarrow> bool \<Rightarrow> ('t, 'u) loop_functor \<Rightarrow>
    ('t, 'c, 'k, 'e, 'u, 'z) eloop \<Rightarrow> ('t, 'c, 'k, 'e, 'u, 'z) eloop" where
  "QueueInLoop sys in_loop f l =
     (let l = l\<lparr>functors := functors l @ [f]\<rparr>
      in if \<not> in_loop \<or> callable l then wakeup sys l else l)"

definition RunInLoop ::
  "('k, 'e) loop_sys \<Rightarrow>
     (('t, 'u) loop_functor \<Rightarrow> ('t, 'c, 'k, 'e, 'u, 'z) eloop \<Rightarrow>
        ('t, 'c, 'k, 'e, 'u, 'z) eloop res) \<Rightarrow>
     bool \<Rightarrow> ('t, 'u) loop_functor \<Rightarrow>
     ('t, 'c, 'k, 'e, 'u, 'z) eloop \<Rightarrow> ('t, 'c, 'k, 'e, 'u, 'z) eloop res" where
  "RunInLoop sys run in_loop f l = (if in_loop then run f l else Inr (QueueInLoop sys in_loop f l))"

definition DoCallback ::
  "(('t, 'u) loop_functor \<Rightarrow> ('t, 'c, 'k, 'e, 'u, 'z) eloop \<Rightarrow>
      ('t, 'c, 'k, 'e, 'u, 'z) eloop res) \<Rightarrow>
   ('t, 'c, 'k, 'e, 'u, 'z) eloop \<Rightarrow> ('t, 'c, 'k, 'e, 'u, 'z) eloop res" where
  "DoCallback run l =
     (let l = l\<lparr>callable := True\<rparr>;
          fun' = functors l;
          l = l\<lparr>functors := []\<rparr>
      in bindR (foldR run fun' l) (\<lambda>l. Inr (l\<lparr>callable := False\<rparr>)))"

definition quit :: "('k, 'e) loop_sys \<Rightarrow> bool \<Rightarrow>
    ('t, 'c, 'k, 'e, 'u, 'z) eloop \<Rightarrow> ('t, 'c, 'k, 'e, 'u, 'z) eloop" where
  "quit sys in_loop l = (let l = l\<lparr>quit_flag := True\<rparr> in if \<not> in_loop then wakeup sys l else l)"

text \<open>Running the functors the timer queue hands to the loop, and those of the other users.\<close>

fun run_functor ::
  "('k, 'e) loop_sys \<Rightarrow>
     ('u \<Rightarrow> ('t, 'c, 'k, 'e, 'u, 'z) eloop \<Rightarrow> ('t, 'c, 'k, 'e, 'u, 'z) eloop res) \<Rightarrow>
     ('t, 'u) loop_functor \<Rightarrow>
     ('t, 'c, 'k, 'e, 'u, 'z) eloop \<Rightarrow> ('t, 'c, 'k, 'e, 'u, 'z) eloop res" where
  "run_functor sys run_user (TimerF g) l =
     (let (n1, l) = read_clock l; (n2, l) = read_clock l in run_tq_functor (settime_ok sys) n1 n2 g l)"
| "run_functor sys run_user (UserF u) l = run_user u l"

section \<open>The loop\<close>

text \<open>The timer descriptor is readable: \<^verbatim>\<open>TimerQueue::HandleRead\<close> with its readings of the clock.\<close>

definition timer_HandleRead ::
  "('k, 'e) loop_sys \<Rightarrow>
     ('t \<Rightarrow> ('t, 'c, 'k, 'e, 'u, 'z) eloop \<Rightarrow> ('t, 'c, 'k, 'e, 'u, 'z) eloop res) \<Rightarrow>
     ('t, 'c, 'k, 'e, 'u, 'z) eloop \<Rightarrow> ('t, 'c, 'k, 'e, 'u, 'z) eloop res" where
  "timer_HandleRead sys run_timer l =
     (let (now, l) = read_clock l; (n1, l) = read_clock l; (n2, l) = read_clock l
      in HandleRead (settime_ok sys) n1 n2 run_timer now l)"

fun run_handler ::
  "('k, 'e) loop_sys \<Rightarrow>
     ('t \<Rightarrow> ('t, 'c, 'k, 'e, 'u, 'z) eloop \<Rightarrow> ('t, 'c, 'k, 'e, 'u, 'z) eloop res) \<Rightarrow>
     ('c \<Rightarrow> timestamp \<Rightarrow> ('t, 'c, 'k, 'e, 'u, 'z) eloop \<Rightarrow>
        ('t, 'c, 'k, 'e, 'u, 'z) eloop res) \<Rightarrow>
     'c handler \<Rightarrow> timestamp \<Rightarrow>
     ('t, 'c, 'k, 'e, 'u, 'z) eloop \<Rightarrow> ('t, 'c, 'k, 'e, 'u, 'z) eloop res" where
  "run_handler sys run_timer run_chan EventLoopRead t l = Inr (loop_HandleRead sys l)"
| "run_handler sys run_timer run_chan TimerQueueRead t l = timer_HandleRead sys run_timer l"
| "run_handler sys run_timer run_chan (Handler c) t l = run_chan c t l"

text \<open>
  One round: wait, dispatch the active channels, run the functors. \<open>handle\<close> is
  \<^verbatim>\<open>channel->HandleEvent(PollreturnTime_)\<close> and \<open>w\<close>, \<open>now\<close> are what \<^verbatim>\<open>epoll_wait\<close> and the
  clock answer.
\<close>

definition handle_channel ::
  "(('t, 'c, 'k, 'e, 'u, 'z) eloop \<Rightarrow> nat \<Rightarrow> bool) \<Rightarrow> ('c handler \<Rightarrow> timestamp \<Rightarrow>
     ('t, 'c, 'k, 'e, 'u, 'z) eloop \<Rightarrow> ('t, 'c, 'k, 'e, 'u, 'z) eloop res) \<Rightarrow> nat \<Rightarrow> timestamp \<Rightarrow>
     ('t, 'c, 'k, 'e, 'u, 'z) eloop \<Rightarrow> ('t, 'c, 'k, 'e, 'u, 'z) eloop res" where
  "handle_channel alive run r t l =
     HandleEvent (alive l) (\<lambda>l. chans (poller_of l) r) run (\<lambda>h. run h t) t l"

definition loop_round ::
  "(nat \<Rightarrow> timestamp \<Rightarrow> ('t, 'c, 'k, 'e, 'u, 'z) eloop \<Rightarrow> ('t, 'c, 'k, 'e, 'u, 'z) eloop res) \<Rightarrow>
     (('t, 'u) loop_functor \<Rightarrow> ('t, 'c, 'k, 'e, 'u, 'z) eloop \<Rightarrow> ('t, 'c, 'k, 'e, 'u, 'z) eloop res) \<Rightarrow>
     wait_result \<times> timestamp \<Rightarrow> ('t, 'c, 'k, 'e, 'u, 'z) eloop \<Rightarrow> ('t, 'c, 'k, 'e, 'u, 'z) eloop res" where
  "loop_round handle run answer l =
     (let ((p, active), t) = poll (fst answer) (snd answer) (poller_of l, []);
          l = l\<lparr>poller_of := p, ActiveChannels := active, PollreturnTime := t\<rparr>
      in bindR (foldR (\<lambda>r l. handle r (PollreturnTime l) l) active l)
           (\<lambda>l. if functors l \<noteq> [] then DoCallback run l else Inr l))"

text \<open>
  \<^verbatim>\<open>while (!quit_)\<close>: the answers of the waits still to come bound the number of rounds; the
  first component tells whether the loop has ended, or the answers ran out first.
\<close>

fun loop_rounds ::
  "(nat \<Rightarrow> timestamp \<Rightarrow> ('t, 'c, 'k, 'e, 'u, 'z) eloop \<Rightarrow> ('t, 'c, 'k, 'e, 'u, 'z) eloop res) \<Rightarrow>
     (('t, 'u) loop_functor \<Rightarrow> ('t, 'c, 'k, 'e, 'u, 'z) eloop \<Rightarrow> ('t, 'c, 'k, 'e, 'u, 'z) eloop res) \<Rightarrow>
     (wait_result \<times> timestamp) list \<Rightarrow> ('t, 'c, 'k, 'e, 'u, 'z) eloop \<Rightarrow>
     (bool \<times> ('t, 'c, 'k, 'e, 'u, 'z) eloop) res" where
  "loop_rounds handle run [] l = Inr (quit_flag l, l)"
| "loop_rounds handle run (answer # answers) l =
     (if quit_flag l then Inr (True, l)
      else bindR (loop_round handle run answer l) (loop_rounds handle run answers))"

definition start ::
  "(nat \<Rightarrow> timestamp \<Rightarrow> ('t, 'c, 'k, 'e, 'u, 'z) eloop \<Rightarrow> ('t, 'c, 'k, 'e, 'u, 'z) eloop res) \<Rightarrow>
     (('t, 'u) loop_functor \<Rightarrow> ('t, 'c, 'k, 'e, 'u, 'z) eloop \<Rightarrow> ('t, 'c, 'k, 'e, 'u, 'z) eloop res) \<Rightarrow>
     (wait_result \<times> timestamp) list \<Rightarrow> ('t, 'c, 'k, 'e, 'u, 'z) eloop \<Rightarrow>
     (bool \<times> ('t, 'c, 'k, 'e, 'u, 'z) eloop) res" where
  "start handle run answers l =
     bindR (loop_rounds handle run answers (l\<lparr>isLooping := True, quit_flag := False\<rparr>))
       (\<lambda>(ended, l). Inr (ended, if ended then l\<lparr>isLooping := False\<rparr> else l))"

section \<open>Timer requests\<close>

text \<open>\<open>int\<close> is 32 bits wide; a product out of its range is undefined.\<close>

definition int_mul :: "32 word \<Rightarrow> 32 word \<Rightarrow> 32 word res" where
  "int_mul a b = (if sint a * sint b = sint (a * b) then Inr (a * b) else Inl SignedOverflow)"

definition loop_AddTimer ::
  "('k, 'e) loop_sys \<Rightarrow> (('t, 'u) loop_functor \<Rightarrow> ('t, 'c, 'k, 'e, 'u, 'z) eloop \<Rightarrow>
     ('t, 'c, 'k, 'e, 'u, 'z) eloop res) \<Rightarrow> bool \<Rightarrow>
     't \<Rightarrow> timestamp \<Rightarrow> 32 word \<Rightarrow> ('t, 'c, 'k, 'e, 'u, 'z) eloop \<Rightarrow> (64 word \<times> ('t, 'c, 'k, 'e, 'u, 'z) eloop) res" where
  "loop_AddTimer sys run in_loop f time intv l =
     (case AddTimer f time intv (TotalNum l) of
        (timerid, g, num) \<Rightarrow>
          bindR (RunInLoop sys run in_loop (TimerF g) (l\<lparr>TotalNum := num\<rparr>)) (\<lambda>l. Inr (timerid, l)))"

definition RunAt ::
  "('k, 'e) loop_sys \<Rightarrow> (('t, 'u) loop_functor \<Rightarrow> ('t, 'c, 'k, 'e, 'u, 'z) eloop \<Rightarrow>
     ('t, 'c, 'k, 'e, 'u, 'z) eloop res) \<Rightarrow> bool \<Rightarrow>
     timestamp \<Rightarrow> 't \<Rightarrow> ('t, 'c, 'k, 'e, 'u, 'z) eloop \<Rightarrow> (64 word \<times> ('t, 'c, 'k, 'e, 'u, 'z) eloop) res" where
  "RunAt sys run in_loop time f l = loop_AddTimer sys run in_loop f time 0 l"

definition RunAfterS ::
  "('k, 'e) loop_sys \<Rightarrow> (('t, 'u) loop_functor \<Rightarrow> ('t, 'c, 'k, 'e, 'u, 'z) eloop \<Rightarrow>
     ('t, 'c, 'k, 'e, 'u, 'z) eloop res) \<Rightarrow> bool \<Rightarrow>
     32 word \<Rightarrow> 't \<Rightarrow> ('t, 'c, 'k, 'e, 'u, 'z) eloop \<Rightarrow> (64 word \<times> ('t, 'c, 'k, 'e, 'u, 'z) eloop) res" where
  "RunAfterS sys run in_loop delay f l =
     (let (now, l) = read_clock l
      in bindR (int_mul delay 1000) (\<lambda>ms. RunAt sys run in_loop (ts_plus_int now ms) f l))"

definition RunAfterMs ::
  "('k, 'e) loop_sys \<Rightarrow> (('t, 'u) loop_functor \<Rightarrow> ('t, 'c, 'k, 'e, 'u, 'z) eloop \<Rightarrow>
     ('t, 'c, 'k, 'e, 'u, 'z) eloop res) \<Rightarrow> bool \<Rightarrow>
     32 word \<Rightarrow> 't \<Rightarrow> ('t, 'c, 'k, 'e, 'u, 'z) eloop \<Rightarrow> (64 word \<times> ('t, 'c, 'k, 'e, 'u, 'z) eloop) res" where
  "RunAfterMs sys run in_loop delay f l =
     (let (now, l) = read_clock l in RunAt sys run in_loop (ts_plus_int now delay) f l)"

definition RunEveryS ::
  "('k, 'e) loop_sys \<Rightarrow> (('t, 'u) loop_functor \<Rightarrow> ('t, 'c, 'k, 'e, 'u, 'z) eloop \<Rightarrow>
     ('t, 'c, 'k, 'e, 'u, 'z) eloop res) \<Rightarrow> bool \<Rightarrow>
     32 word \<Rightarrow> 't \<Rightarrow> ('t, 'c, 'k, 'e, 'u, 'z) eloop \<Rightarrow> (64 word \<times> ('t, 'c, 'k, 'e, 'u, 'z) eloop) res" where
  "RunEveryS sys run in_loop delay f l =
     (let (now, l) = read_clock l
      in bindR (int_mul delay 1000)
           (\<lambda>ms. loop_AddTimer sys run in_loop f (ts_plus_int now ms) ms l))"

definition RunEveryMs ::
  "('k, 'e) loop_sys \<Rightarrow> (('t, 'u) loop_functor \<Rightarrow> ('t, 'c, 'k, 'e, 'u, 'z) eloop \<Rightarrow>
     ('t, 'c, 'k, 'e, 'u, 'z) eloop res) \<Rightarrow> bool \<Rightarrow>
     32 word \<Rightarrow> 't \<Rightarrow> ('t, 'c, 'k, 'e, 'u, 'z) eloop \<Rightarrow> (64 word \<times> ('t, 'c, 'k, 'e, 'u, 'z) eloop) res" where
  "RunEveryMs sys run in_loop delay f l =
     (let (now, l) = read_clock l
      in bindR (int_mul delay 1000)
           (\<lambda>ms. loop_AddTimer sys run in_loop f (ts_plus_int now ms) delay l))"

definition CancelTimer ::
  "('k, 'e) loop_sys \<Rightarrow> (('t, 'u) loop_functor \<Rightarrow> ('t, 'c, 'k, 'e, 'u, 'z) eloop \<Rightarrow>
     ('t, 'c, 'k, 'e, 'u, 'z) eloop res) \<Rightarrow> bool \<Rightarrow>
     64 word \<Rightarrow> ('t, 'c, 'k, 'e, 'u, 'z) eloop \<Rightarrow> ('t, 'c, 'k, 'e, 'u, 'z) eloop res" where
  "CancelTimer sys run in_loop timerid l = RunInLoop sys run in_loop (TimerF (cancel timerid)) l"

section \<open>Creating and destroying a loop\<close>

text \<open>
  \<^verbatim>\<open>timerfd_create\<close> and \<^verbatim>\<open>eventfd\<close> answer with a descriptor, or a negative number,
  which is a \<^verbatim>\<open>LOG_FATAL\<close>.
\<close>

definition CreateTimerfd :: "int \<Rightarrow> int res" where
  "CreateTimerfd timerfd = (if timerfd < 0 then Inl Abort else Inr timerfd)"

definition CreateEventfd :: "int \<Rightarrow> int res" where
  "CreateEventfd evtfd = (if evtfd < 0 then Inl Abort else Inr evtfd)"

text \<open>
  The timer queue as a member of the loop: its channel is made at the address \<open>r\<close> and is
  read for ever; the destructor takes it out of the poller and closes the descriptor (the
  closed descriptor is the first component).
\<close>

definition new_TimerQueue_in :: "('k, 'e) loop_sys \<Rightarrow> int \<Rightarrow> nat \<Rightarrow> ('c handler, 'k) poller \<Rightarrow>
    ('t timer_queue \<times> ('c handler, 'k) poller) res" where
  "new_TimerQueue_in sys tfd r p =
     bindR (CreateTimerfd tfd) (\<lambda>timerfd.
     bindR (EnableReading (sys_ctl sys) r
              (upd_chan r (\<lambda>_. SetReadCallback TimerQueueRead (new_Channel timerfd)) p)) (\<lambda>p.
     Inr (new_TimerQueue, p)))"

definition delete_TimerQueue :: "('k, 'e) loop_sys \<Rightarrow> nat \<Rightarrow> ('t, 'c, 'k, 'e, 'u, 'z) eloop \<Rightarrow>
    (int list \<times> ('t, 'c, 'k, 'e, 'u, 'z) eloop) res" where
  "delete_TimerQueue sys r l =
     bindR (with_poller (DisableAll (sys_ctl sys) r) l) (\<lambda>l.
     bindR (loop_RemoveChannel sys r l) (\<lambda>l. Inr ([fd (chans (poller_of l) r)], l)))"

text \<open>
  The constructor of the loop: the members in the order of their declaration (the poller, the
  timer queue with its channel at \<open>tr\<close>, the eventfd with its channel at \<open>wr\<close>), then the
  body. \<open>LoopInThread\<close> tells whether the thread has a loop already, which ends the process.
  \<open>num\<close> is \<^verbatim>\<open>Timer::TotalNum_\<close>.
\<close>

definition new_EventLoop ::
  "('k, 'e) loop_sys \<Rightarrow> bool \<Rightarrow> (nat \<Rightarrow> 'c handler channel) \<Rightarrow> 'k \<Rightarrow> 'e \<Rightarrow> int \<times> int \<times> int \<Rightarrow> nat \<times> nat \<Rightarrow>
     64 word \<Rightarrow> (nat \<Rightarrow> timestamp) \<Rightarrow> ('t, 'c, 'k, 'e, 'u) event_loop res" where
  "new_EventLoop sys LoopInThread heap k e fds refs num clk =
     (case (fds, refs) of ((epfd, tfd, evfd), (tr, wr)) \<Rightarrow>
        bindR (new_Poller heap k epfd) (\<lambda>p.
        bindR (new_TimerQueue_in sys tfd tr p) (\<lambda>(tq, p).
        bindR (CreateEventfd evfd) (\<lambda>wfd.
        let p = upd_chan wr (\<lambda>_. new_Channel wfd) p in
        if LoopInThread then Inl Abort
        else bindR (EnableReading (sys_ctl sys) wr (upd_chan wr (SetReadCallback EventLoopRead) p)) (\<lambda>p.
        Inr (timer_queue.extend tq
               \<lparr>isLooping = False, quit_flag = False, callable = False, PollreturnTime = ts_zero,
                poller_of = p, wakeupFd = e, WakeupChannel = wr, ActiveChannels = [],
                functors = [], TotalNum = num, clock = clk\<rparr>))))))"

text \<open>
  The destructor: its body takes the wake-up channel out of the poller, then the members go in
  reverse order, the timer queue with its channel at \<open>tr\<close> before the poller with its
  descriptor \<open>epfd\<close>. The first component is the closed descriptors in order.
\<close>

definition destroy_EventLoop :: "('k, 'e) loop_sys \<Rightarrow> nat \<Rightarrow> int \<Rightarrow> ('t, 'c, 'k, 'e, 'u, 'z) eloop \<Rightarrow>
    (int list \<times> ('t, 'c, 'k, 'e, 'u, 'z) eloop) res" where
  "destroy_EventLoop sys tr epfd l =
     bindR (with_poller (DisableAll (sys_ctl sys) (WakeupChannel l)) l) (\<lambda>l.
     bindR (loop_RemoveChannel sys (WakeupChannel l) l) (\<lambda>l.
     let closed = [fd (chans (poller_of l) (WakeupChannel l))] in
     bindR (delete_TimerQueue sys tr l) (\<lambda>(more_closed, l).
     Inr (closed @ more_closed @ [epfd], l))))"

section \<open>Starting, quitting and waking\<close>

text \<open>
  A quit that comes before \<^verbatim>\<open>start\<close> is lost: \<^verbatim>\<open>start\<close> clears \<^verbatim>\<open>quit_\<close>, so
  starting a loop that has been told to quit is starting it untold (with the eventfd signalled
  when another thread said so).
\<close>

theorem quit_before_start_is_lost:
  "start handle run answers (quit sys in_loop l) =
     start handle run answers (if in_loop then l else wakeup sys l)"
  by (simp add: start_def quit_def wakeup_def)

lemma loop_rounds_quit: "quit_flag l \<Longrightarrow> loop_rounds handle run answers l = Inr (True, l)"
  by (cases answers) simp_all

text \<open>
  One round after a wake-up: if the wake-up channel is all that is ready, the round reads
  the eventfd and then runs the functors of the queue through \<^verbatim>\<open>DoCallback\<close>; if there are
  none it only reads.
\<close>

theorem wakeup_round:
  assumes "ReadCallback (chans (poller_of l) (WakeupChannel l)) = Some EventLoopRead"
    and "\<not> tied (chans (poller_of l) (WakeupChannel l))"
    and "1 < events_size (poller_of l)"
  shows "loop_round (handle_channel alive (run_handler sys run_timer run_chan)) run
      (WaitOk [\<lparr>ev_events = POLLIN, ev_ptr = WakeupChannel l\<rparr>], now) l =
    (let l' = loop_HandleRead sys (l\<lparr>
           poller_of := upd_chan (WakeupChannel l) (SetRevents POLLIN) (poller_of l),
           ActiveChannels := [WakeupChannel l], PollreturnTime := now\<rparr>)
     in if functors l = [] then Inr l' else DoCallback run l')"
proof -
  let ?r = "WakeupChannel l"
  let ?p = "upd_chan ?r (SetRevents POLLIN) (poller_of l)"
  let ?l = "l\<lparr>poller_of := ?p, ActiveChannels := [?r], PollreturnTime := now\<rparr>"
  have poll: "poll (WaitOk [\<lparr>ev_events = POLLIN, ev_ptr = ?r\<rparr>]) now (poller_of l, []) = ((?p, [?r]), now)"
    using assms(3) by (simp add: poll_def upd_chan_def)
  have handle: "handle_channel alive (run_handler sys run_timer run_chan) ?r now ?l =
      Inr (loop_HandleRead sys ?l)"
    using assms(1,2)
    by (simp add: handle_channel_def HandleEvent_def HandleEventWithGuard_def fire_def upd_chan_def
        SetRevents_def poll_bits loop_HandleRead_def)
  then show ?thesis by (simp add: loop_round_def poll Let_def loop_HandleRead_def)
qed

section \<open>When the timers are due\<close>

lemma int_mul_Inr: "int_mul a b = Inr c \<longleftrightarrow> sint a * sint b = sint c \<and> c = a * b"
  by (auto simp: int_mul_def)

text \<open>
  A repeating timer asked for in milliseconds is late the first time: \<^verbatim>\<open>RunEveryMs(d)\<close>
  queues a timer with interval \<open>d\<close> milliseconds that is due for the first time after
  \<open>1000 * d\<close> milliseconds, where \<^verbatim>\<open>RunAfterMs(d)\<close> queues one due after \<open>d\<close>.
\<close>

theorem RunEveryMs_first_due:
  assumes "int_mul delay 1000 = Inr ms" and "GetTime (clock l 0) \<in> {- (2 ^ 62) .. 2 ^ 62}"
  shows "\<exists>t l' t' l''.
     RunEveryMs sys run False delay f l = Inr (timer_id t, l') \<and>
     functors l' = functors l @ [TimerF (AddTimerF t)] \<and> interval t = delay \<and>
     GetTime (expiration t) = GetTime (clock l 0) + 1000 * sint delay \<and>
     RunAfterMs sys run False delay f l = Inr (timer_id t', l'') \<and>
     functors l'' = functors l @ [TimerF (AddTimerF t')] \<and>
     GetTime (expiration t') = GetTime (clock l 0) + sint delay"
proof -
  have "sint delay * sint (1000 :: 32 word) = sint ms" using assms(1) by (simp only: int_mul_Inr)
  then have ms: "sint ms = 1000 * sint delay" by simp
  have small: "- (2 ^ 31) \<le> sint w \<and> sint w < 2 ^ 31" for w :: "32 word"
    using sint_ge [of w] sint_lt [of w] by simp
  have "int64 (GetTime (clock l 0) + sint w)" for w :: "32 word"
    using assms(2) small [of w] by (simp add: int64_def)
  from GetTime_plus_int [OF this] ms show ?thesis
    by (simp add: RunEveryMs_def RunAfterMs_def RunAt_def loop_AddTimer_def AddTimer_def new_Timer_def
        read_clock_def assms(1) RunInLoop_def QueueInLoop_def wakeup_def Let_def)
qed

definition quiet_sys :: "(int \<Rightarrow> epoll_event option, nat) loop_sys" where
  "quiet_sys = \<lparr>sys_ctl = epoll_step, eventfd_write = (\<lambda>e. (True, Suc e)),
     eventfd_read = (\<lambda>e. (0 < e, 0)), settime_ok = (\<lambda>_. True)\<rparr>"

text \<open>A fresh loop: its wake-up channel is channel 0 on the descriptor 5, the timer's channel 1 on 4.\<close>

definition fresh_loop :: "(unit, unit, int \<Rightarrow> epoll_event option, nat, nat) event_loop res" where
  "fresh_loop = new_EventLoop quiet_sys False (\<lambda>r. new_Channel (6 + int r)) (\<lambda>_. None) 0
     (3, 4, 5) (1, 0) 0 (\<lambda>n. Timestamp (of_nat n))"

lemma fresh_loop_facts:
  obtains l where "fresh_loop = Inr l" "functors l = []" "WakeupChannel l = 0" "wakeupFd l = 0"
    "clock l 0 = Timestamp 0" "events_size (poller_of l) = 16" "callable l = False"
    "ReadCallback (chans (poller_of l) 0) = Some EventLoopRead" "\<not> tied (chans (poller_of l) 0)"
  by (rule that [of "projr fresh_loop"])
    (simp_all add: fresh_loop_def new_EventLoop_def new_Poller_def new_TimerQueue_in_def CreateTimerfd_def
      CreateEventfd_def timer_queue.defs upd_chan_def SetReadCallback_def
      new_Channel_def EnableReading_def change_events_def UpdateChannel_def SetState_def
      poller_update_def quiet_sys_def epoll_step_def Let_def InitEventListSize_def)

theorem wakeup_round_witness:
  "\<exists>l l'. fresh_loop = Inr l \<and>
     loop_round (handle_channel (\<lambda>_ _. True) (run_handler quiet_sys (\<lambda>_. Inr) (\<lambda>_ _. Inr)))
       (\<lambda>_. Inr) (WaitOk [\<lparr>ev_events = POLLIN, ev_ptr = 0\<rparr>], Timestamp 9)
       (QueueInLoop quiet_sys False (UserF 7) l) = Inr l' \<and> functors l' = [] \<and> wakeupFd l' = 0"
proof -
  obtain l where l: "fresh_loop = Inr l" "functors l = []" "WakeupChannel l = 0" "wakeupFd l = 0"
    "events_size (poller_of l) = 16" "callable l = False"
    "ReadCallback (chans (poller_of l) 0) = Some EventLoopRead" "\<not> tied (chans (poller_of l) 0)"
    by (rule fresh_loop_facts)
  let ?l = "QueueInLoop quiet_sys False (UserF 7) l"
  have q: "WakeupChannel ?l = 0" "poller_of ?l = poller_of l" "functors ?l = [UserF 7]"
    using l by (simp_all add: QueueInLoop_def wakeup_def)
  have "loop_round (handle_channel (\<lambda>_ _. True) (run_handler quiet_sys (\<lambda>_. Inr) (\<lambda>_ _. Inr)))
       (\<lambda>_. Inr) (WaitOk [\<lparr>ev_events = POLLIN, ev_ptr = WakeupChannel ?l\<rparr>], Timestamp 9) ?l =
    (let l' = loop_HandleRead quiet_sys (?l\<lparr>
           poller_of := upd_chan (WakeupChannel ?l) (SetRevents POLLIN) (poller_of ?l),
           ActiveChannels := [WakeupChannel ?l], PollreturnTime := Timestamp 9\<rparr>)
     in if functors ?l = [] then Inr l' else DoCallback (\<lambda>_. Inr) l')"
    by (rule wakeup_round) (simp_all add: q l)
  moreover have "snd (eventfd_read quiet_sys e) = 0" for e by (simp add: quiet_sys_def)
  ultimately show ?thesis
    using q by - (rule exI [of _ l], simp add: l(1) DoCallback_def loop_HandleRead_def Let_def)
qed

theorem RunEveryMs_first_due_witness:
  "\<exists>l t l'. fresh_loop = Inr l \<and>
     RunEveryMs quiet_sys (\<lambda>_. Inr) False 5 () l = Inr (timer_id t, l') \<and>
     functors l' = [TimerF (AddTimerF t)] \<and> interval t = 5 \<and> GetTime (expiration t) = 5000"
proof -
  obtain l where l: "fresh_loop = Inr l" "functors l = []" "clock l 0 = Timestamp 0"
    by (rule fresh_loop_facts)
  have m: "int_mul 5 1000 = Inr 5000" by (simp add: int_mul_def)
  have "GetTime (clock l 0) = 0" by (simp add: l GetTime_def)
  with RunEveryMs_first_due [OF m, of l quiet_sys "\<lambda>_. Inr" "()"] l show ?thesis by auto
qed

end
