(* ===== verification/Loop_Threads.thy ===== *)
theory Loop_Threads
  imports Event_Loop "HOL-Library.Sublist"
begin

text \<open>
  The threads around one \<^verbatim>\<open>EventLoop\<close>: the loop's own thread in \<^verbatim>\<open>start\<close> and
  \<^verbatim>\<open>DoCallback\<close>, and any number of other threads in \<^verbatim>\<open>QueueInLoop\<close> and
  \<^verbatim>\<open>quit\<close> (src/net/EventLoop.cpp). One step is one access to the shared state: the locked
  push, the write to the eventfd, the test of a flag, the locked swap. The eventfd is whether
  it is signalled.
\<close>

section \<open>States\<close>

text \<open>
  Where the loop's thread is: before \<^verbatim>\<open>start\<close>, at the test of \<^verbatim>\<open>quit_\<close>, in
  \<^verbatim>\<open>epoll_wait\<close>, dispatching the active channels (\<open>True\<close> while the wake-up channel is
  still to be read), at the unlocked \<^verbatim>\<open>functors_.empty()\<close>, in the three parts of
  \<^verbatim>\<open>DoCallback\<close>, in its own \<^verbatim>\<open>QueueInLoop\<close> between the push and the test of
  \<^verbatim>\<open>callable_\<close>, or after \<^verbatim>\<open>start\<close>.
\<close>

datatype 'f loop_pc =
    NotStarted | AtWhile | Polling | Handling bool | AtEmptyTest | AtSetCallable | AtSwap
  | Running "'f list" | WakeTest "'f loop_pc" | Stopped

text \<open>
  \<open>wakers\<close> counts the threads between their push (or their \<^verbatim>\<open>quit_ = true\<close>) and the write
  to the eventfd; \<open>submitted\<close> and \<open>executed\<close> record what was queued and what has run.
\<close>

record 'f threads =
  sh_functors :: "'f list"
  sh_callable :: bool
  sh_quit :: bool
  signalled :: bool
  wakers :: nat
  pc :: "'f loop_pc"
  executed :: "'f list"
  submitted :: "'f list"

definition initial_threads :: "'f threads" where
  "initial_threads = \<lparr>sh_functors = [], sh_callable = False, sh_quit = False, signalled = False,
     wakers = 0, pc = NotStarted, executed = [], submitted = []\<rparr>"

text \<open>The locked part of \<^verbatim>\<open>QueueInLoop\<close>.\<close>

definition push :: "'f \<Rightarrow> 'f threads \<Rightarrow> 'f threads" where
  "push f s = s\<lparr>sh_functors := sh_functors s @ [f], submitted := submitted s @ [f]\<rparr>"

section \<open>Steps\<close>

text \<open>
  Who moves: another thread; the loop's thread in the code of \<^verbatim>\<open>start\<close>; the loop's
  thread within a call that a callback makes, or before \<^verbatim>\<open>start\<close>; or the wait ends without
  the wake-up, by its timeout or other events.
\<close>

datatype actor = OtherThread | LoopThread | Callback | WaitEnds

text \<open>
  With \<open>early\<close> the loop's own thread may queue functors before it calls \<^verbatim>\<open>start\<close>.
\<close>

inductive loop_step :: "bool \<Rightarrow> actor \<Rightarrow> 'f threads \<Rightarrow> 'f threads \<Rightarrow> bool" for early where
  other_push: "loop_step early OtherThread s (push f s\<lparr>wakers := Suc (wakers s)\<rparr>)"
| other_quit: "loop_step early OtherThread s (s\<lparr>sh_quit := True, wakers := Suc (wakers s)\<rparr>)"
| other_wake: "wakers s = Suc n \<Longrightarrow> loop_step early OtherThread s (s\<lparr>wakers := n, signalled := True\<rparr>)"
| early_push: "early \<Longrightarrow> pc s = NotStarted \<Longrightarrow>
    loop_step early Callback s (push f s\<lparr>pc := WakeTest NotStarted\<rparr>)"
| starts: "pc s = NotStarted \<Longrightarrow> loop_step early LoopThread s (s\<lparr>sh_quit := False, pc := AtWhile\<rparr>)"
| while_test: "pc s = AtWhile \<Longrightarrow>
    loop_step early LoopThread s (s\<lparr>pc := (if sh_quit s then Stopped else Polling)\<rparr>)"
| wait_woken: "pc s = Polling \<Longrightarrow> signalled s \<Longrightarrow> loop_step early LoopThread s (s\<lparr>pc := Handling True\<rparr>)"
| wait_ends: "pc s = Polling \<Longrightarrow> loop_step early WaitEnds s (s\<lparr>pc := Handling False\<rparr>)"
| read_wakeup: "pc s = Handling True \<Longrightarrow>
    loop_step early LoopThread s (s\<lparr>signalled := False, pc := Handling False\<rparr>)"
| handler_push: "pc s = Handling r \<Longrightarrow>
    loop_step early Callback s (push f s\<lparr>pc := WakeTest (Handling r)\<rparr>)"
| handler_quit: "pc s = Handling r \<Longrightarrow> loop_step early Callback s (s\<lparr>sh_quit := True\<rparr>)"
| handled: "pc s = Handling False \<Longrightarrow> loop_step early LoopThread s (s\<lparr>pc := AtEmptyTest\<rparr>)"
| empty_test: "pc s = AtEmptyTest \<Longrightarrow>
    loop_step early LoopThread s (s\<lparr>pc := (if sh_functors s = [] then AtWhile else AtSetCallable)\<rparr>)"
| set_callable: "pc s = AtSetCallable \<Longrightarrow>
    loop_step early LoopThread s (s\<lparr>sh_callable := True, pc := AtSwap\<rparr>)"
| swap_functors: "pc s = AtSwap \<Longrightarrow>
    loop_step early LoopThread s (s\<lparr>sh_functors := [], pc := Running (sh_functors s)\<rparr>)"
| run_one: "pc s = Running (f # fs) \<Longrightarrow>
    loop_step early LoopThread s (s\<lparr>executed := executed s @ [f], pc := Running fs\<rparr>)"
| functor_push: "pc s = Running fs \<Longrightarrow>
    loop_step early Callback s (push f s\<lparr>pc := WakeTest (Running fs)\<rparr>)"
| functor_quit: "pc s = Running fs \<Longrightarrow> loop_step early Callback s (s\<lparr>sh_quit := True\<rparr>)"
| wake_test: "pc s = WakeTest p \<Longrightarrow>
    loop_step early Callback s (s\<lparr>signalled := (signalled s \<or> sh_callable s), pc := p\<rparr>)"
| run_done: "pc s = Running [] \<Longrightarrow> loop_step early LoopThread s (s\<lparr>sh_callable := False, pc := AtWhile\<rparr>)"

abbreviation any_step :: "bool \<Rightarrow> 'f threads \<Rightarrow> 'f threads \<Rightarrow> bool" where
  "any_step early s s' \<equiv> \<exists>a. loop_step early a s s'"

definition reachable_threads :: "bool \<Rightarrow> 'f threads \<Rightarrow> bool" where
  "reachable_threads early s \<longleftrightarrow> (any_step early)\<^sup>*\<^sup>* initial_threads s"

lemma reachable_threads_induct [consumes 1, case_names initial step]:
  assumes "reachable_threads early s" and "P initial_threads"
    and "\<And>a s s'. P s \<Longrightarrow> loop_step early a s s' \<Longrightarrow> P s'"
  shows "P s"
  using assms(1) unfolding reachable_threads_def
  by (induction rule: rtranclp_induct) (use assms(2,3) in blast)+

lemma reachable_step: "reachable_threads early s \<Longrightarrow> loop_step early a s s' \<Longrightarrow> reachable_threads early s'"
  unfolding reachable_threads_def by (erule rtranclp.rtrancl_into_rtrancl) (rule exI)

lemma step_then: "loop_step early a s s' \<Longrightarrow> (any_step early)\<^sup>*\<^sup>* s' s'' \<Longrightarrow> (any_step early)\<^sup>*\<^sup>* s s''"
  by (rule converse_rtranclp_into_rtranclp) (rule exI)

lemma then_step: "(any_step early)\<^sup>*\<^sup>* s s' \<Longrightarrow> loop_step early a s' s'' \<Longrightarrow> (any_step early)\<^sup>*\<^sup>* s s''"
  by (erule rtranclp.rtrancl_into_rtrancl) (rule exI)

lemma push_simps [simp]:
  "sh_functors (push f s) = sh_functors s @ [f]" "submitted (push f s) = submitted s @ [f]"
  "executed (push f s) = executed s" "sh_callable (push f s) = sh_callable s"
  "sh_quit (push f s) = sh_quit s" "signalled (push f s) = signalled s"
  "wakers (push f s) = wakers s" "pc (push f s) = pc s"
  by (simp_all add: push_def)

section \<open>Order\<close>

text \<open>The functors swapped out and not run yet.\<close>

fun running :: "'f loop_pc \<Rightarrow> 'f list" where
  "running (Running fs) = fs"
| "running (WakeTest p) = running p"
| "running _ = []"

lemma running_order:
  assumes "reachable_threads early s"
  shows "submitted s = executed s @ running (pc s) @ sh_functors s"
  using assms
proof (induction rule: reachable_threads_induct)
  case initial
  then show ?case by (simp add: initial_threads_def)
next
  case (step a s s')
  from step(2,1) show ?case by cases simp_all
qed

text \<open>
  C8. Whatever the interleaving of the loop with the other threads: the functors queued so far
  are, in the order of the pushes, those that have run, those swapped out and those still in
  the queue. So every functor runs at most once, none is lost or overtaken.
\<close>

theorem functors_run_in_order:
  assumes "reachable_threads early s"
  shows "submitted s = executed s @ running (pc s) @ sh_functors s"
  by (rule running_order [OF assms])

section \<open>Waking up\<close>

text \<open>
  \<^verbatim>\<open>callable_\<close> is set from before the swap to after the last functor. While it is set,
  and while the loop is about to wait or waits, a non-empty queue has its wake-up: the eventfd
  is signalled, or a thread is about to signal it.
\<close>

fun in_callbacks :: "'f loop_pc \<Rightarrow> bool" where
  "in_callbacks AtSwap = True"
| "in_callbacks (Running _) = True"
| "in_callbacks (WakeTest p) = in_callbacks p"
| "in_callbacks _ = False"

fun waits_soon :: "'f loop_pc \<Rightarrow> bool" where
  "waits_soon (Running _) = True"
| "waits_soon AtWhile = True"
| "waits_soon Polling = True"
| "waits_soon NotStarted = True"
| "waits_soon _ = False"

fun proper_pc :: "'f loop_pc \<Rightarrow> bool" where
  "proper_pc (WakeTest (Running _)) = True"
| "proper_pc (WakeTest (Handling _)) = True"
| "proper_pc (WakeTest _) = False"
| "proper_pc _ = True"

definition wake_inv :: "'f threads \<Rightarrow> bool" where
  "wake_inv s \<longleftrightarrow> proper_pc (pc s) \<and> (sh_callable s \<longleftrightarrow> in_callbacks (pc s)) \<and>
     (waits_soon (pc s) \<longrightarrow> sh_functors s \<noteq> [] \<longrightarrow> signalled s \<or> 0 < wakers s) \<and>
     (pc s = Polling \<longrightarrow> sh_quit s \<longrightarrow> signalled s \<or> 0 < wakers s)"

lemma wake_inv_reachable: "reachable_threads False s \<Longrightarrow> wake_inv s"
proof (induction rule: reachable_threads_induct)
  case initial
  then show ?case by (simp add: initial_threads_def wake_inv_def)
next
  case (step a s s')
  from step(2,1) show ?case
  proof cases
    case (wake_test p)
    with step(1) show ?thesis by (cases p) (auto simp: wake_inv_def)
  qed (auto simp: wake_inv_def)
qed

text \<open>
  C7. No wake-up is lost. If functors are queued, or another thread has asked the loop to quit,
  while the loop waits for events, the wait does not last: the eventfd is signalled, or the
  thread that queued or quit is on its way to signal it. This holds although the queue is
  tested without the lock, provided the loop's own thread queues nothing before it calls
  \<^verbatim>\<open>start\<close>.
\<close>

theorem no_lost_wakeup:
  assumes "reachable_threads False s" and "pc s = Polling" and "sh_functors s \<noteq> [] \<or> sh_quit s"
  shows "signalled s \<or> 0 < wakers s"
  using wake_inv_reachable [OF assms(1)] assms(2,3) by (auto simp: wake_inv_def)

text \<open>The loop waits and another thread has just pushed a functor.\<close>

definition demo_waiting :: "bool \<Rightarrow> string threads" where
  "demo_waiting signal = \<lparr>sh_functors = [''f''], sh_callable = False, sh_quit = False,
     signalled = signal, wakers = (if signal then 0 else 1), pc = Polling, executed = [],
     submitted = [''f'']\<rparr>"

lemma demo_waiting_reachable: "reachable_threads False (demo_waiting signal)"
proof -
  let ?s1 = "initial_threads\<lparr>sh_quit := False, pc := AtWhile\<rparr> :: string threads"
  let ?s2 = "?s1\<lparr>pc := (if sh_quit ?s1 then Stopped else Polling)\<rparr>"
  have "reachable_threads False (initial_threads :: string threads)"
    by (simp add: reachable_threads_def)
  then have "reachable_threads False ?s1"
    by (rule reachable_step) (rule starts, simp add: initial_threads_def)
  then have "reachable_threads False ?s2" by (rule reachable_step) (rule while_test, simp)
  then have "reachable_threads False (push ''f'' ?s2\<lparr>wakers := Suc (wakers ?s2)\<rparr>)"
    by (rule reachable_step) (rule other_push)
  then have r: "reachable_threads False (demo_waiting False)"
    by (simp add: initial_threads_def demo_waiting_def push_def)
  then have "reachable_threads False ((demo_waiting False)\<lparr>wakers := 0, signalled := True\<rparr>)"
    by (rule reachable_step) (rule other_wake, simp add: demo_waiting_def)
  with r show ?thesis by (cases signal) (simp_all add: demo_waiting_def)
qed

theorem no_lost_wakeup_witness:
  "signalled (demo_waiting False) \<or> 0 < wakers (demo_waiting False)"
  by (rule no_lost_wakeup [OF demo_waiting_reachable]) (simp_all add: demo_waiting_def)

theorem functors_run_in_order_witness:
  "submitted (demo_waiting True) =
     executed (demo_waiting True) @ running (pc (demo_waiting True)) @ sh_functors (demo_waiting True)"
  by (rule functors_run_in_order [OF demo_waiting_reachable])

text \<open>
  A functor the loop's own thread queues before it calls \<^verbatim>\<open>start\<close> gets no wake-up:
  \<^verbatim>\<open>callable_\<close> is not set yet, so the loop can wait (for \<^verbatim>\<open>PollTimeMs\<close>) with the functor in the
  queue, nothing signalled and nobody about to signal.
\<close>

theorem early_functor_waits:
  "\<exists>s. reachable_threads True s \<and> pc s = Polling \<and> sh_functors s = [f] \<and>
       \<not> signalled s \<and> wakers s = 0"
proof -
  let ?s1 = "push f initial_threads\<lparr>pc := WakeTest NotStarted\<rparr>"
  let ?s2 = "?s1\<lparr>signalled := (signalled ?s1 \<or> sh_callable ?s1), pc := NotStarted\<rparr>"
  let ?s3 = "?s2\<lparr>sh_quit := False, pc := AtWhile\<rparr>"
  let ?s4 = "?s3\<lparr>pc := (if sh_quit ?s3 then Stopped else Polling)\<rparr>"
  have "reachable_threads True initial_threads" by (simp add: reachable_threads_def)
  then have "reachable_threads True ?s1"
    by (rule reachable_step) (rule early_push, simp_all add: initial_threads_def)
  then have "reachable_threads True ?s2" by (rule reachable_step) (rule wake_test, simp)
  then have "reachable_threads True ?s3" by (rule reachable_step) (rule starts, simp)
  then have "reachable_threads True ?s4" by (rule reachable_step) (rule while_test, simp)
  then show ?thesis by (intro exI [of _ ?s4]) (simp add: initial_threads_def)
qed

section \<open>Progress\<close>

text \<open>
  \<open>loop_run early s k s'\<close>: any interleaving of all threads from \<open>s\<close> to \<open>s'\<close> in which the loop's
  thread makes \<open>k\<close> steps in the code of \<^verbatim>\<open>start\<close>.
\<close>

inductive loop_run :: "bool \<Rightarrow> 'f threads \<Rightarrow> nat \<Rightarrow> 'f threads \<Rightarrow> bool" for early s where
  no_move: "loop_run early s 0 s"
| own_move: "loop_run early s k t \<Longrightarrow> loop_step early LoopThread t u \<Longrightarrow> loop_run early s (Suc k) u"
| other_move: "loop_run early s k t \<Longrightarrow> loop_step early a t u \<Longrightarrow> a \<noteq> LoopThread \<Longrightarrow> loop_run early s k u"

lemma loop_run_reachable: "loop_run early s k t \<Longrightarrow> reachable_threads early s \<Longrightarrow> reachable_threads early t"
  by (induction rule: loop_run.induct) (blast intro: reachable_step)+

text \<open>How many steps of the loop's thread the wait is away from the first functor.\<close>

fun stage :: "'f loop_pc \<Rightarrow> nat" where
  "stage Polling = 6"
| "stage (Handling reported) = (if reported then 5 else 4)"
| "stage AtEmptyTest = 3"
| "stage AtSetCallable = 2"
| "stage AtSwap = 1"
| "stage (WakeTest p) = stage p"
| "stage _ = 0"

lemma stage_running: "0 < stage p \<Longrightarrow> running p = []"
  by (induction p) simp_all

text \<open>
  Where a run from the wait in \<open>s\<close> has come to after \<open>k\<close> of these steps: not at the swap yet, or
  with the functors of \<open>s\<close> swapped out, or past them.
\<close>

definition advance :: "'f threads \<Rightarrow> nat \<Rightarrow> 'f threads \<Rightarrow> bool" where
  "advance s k t \<longleftrightarrow>
     (0 < stage (pc t) \<and> k + stage (pc t) \<le> 6 \<and> executed t = executed s \<and> prefix (sh_functors s) (sh_functors t)) \<or>
     (prefix (executed s @ sh_functors s) (executed t @ running (pc t)) \<and>
        length (executed s) + k \<le> length (executed t) + 6) \<or>
     prefix (executed s @ sh_functors s) (executed t)"

lemma executed_grows: "loop_step early a t u \<Longrightarrow> prefix (executed t) (executed u)"
  by (induction rule: loop_step.induct) simp_all

lemma advance_done:
  assumes "loop_step early a t u" and "prefix (executed s @ sh_functors s) (executed t)"
  shows "advance s k u"
  using prefix_order.trans [OF assms(2) executed_grows [OF assms(1)]] by (simp add: advance_def)

lemma advance_running:
  assumes step: "loop_step early a t u"
    and run: "prefix (executed s @ sh_functors s) (executed t @ running (pc t))"
      "length (executed s) + k \<le> length (executed t) + 6"
  shows "advance s (if a = LoopThread then Suc k else k) u"
proof (cases "running (pc t) = []")
  case True
  with run(1) show ?thesis by (intro advance_done [OF step]) simp
next
  case False
  from step run False show ?thesis by cases (simp_all add: advance_def)
qed

lemma advance_waiting:
  assumes step: "loop_step early a t u"
    and wait: "0 < stage (pc t)" "k + stage (pc t) \<le> 6" "executed t = executed s" "prefix (sh_functors s) (sh_functors t)"
  shows "advance s (if a = LoopThread then Suc k else k) u"
  using step wait by cases (auto simp: advance_def prefix_append)

lemma loop_run_advances:
  assumes "loop_run early s k t" and "pc s = Polling"
  shows "advance s k t"
  using assms(1)
proof (induction rule: loop_run.induct)
  case no_move
  show ?case using assms(2) by (simp add: advance_def)
next
  case (own_move k t u)
  then show ?case
    using advance_done [OF own_move(2)] advance_running [OF own_move(2)] advance_waiting [OF own_move(2)]
    by (auto simp: advance_def [of s k t])
next
  case (other_move k t a u)
  then show ?case
    using advance_done [OF other_move(2)] advance_running [OF other_move(2)] advance_waiting [OF other_move(2)]
    by (auto simp: advance_def [of s k t])
qed

text \<open>
  C30. Queued functors run. From a state in which the loop waits, let all threads go on in any
  interleaving. Once the loop's thread has made as many steps of its own (those of callbacks not
  counted) as there are functors in the queue, and six more, all these functors have been run,
  and until then it can always make the next one without waiting for a timeout or other events: it never
  stops, and it is held up only while it is within a \<^verbatim>\<open>QueueInLoop\<close> of a callback, or waits for a
  wake-up that another thread is about to write.
\<close>

theorem queued_functors_run:
  assumes "reachable_threads False s" and "pc s = Polling" and "loop_run False s k t"
  shows "(length (sh_functors s) + 6 \<le> k \<longrightarrow> prefix (executed s @ sh_functors s) (executed t)) \<and>
    (prefix (executed s @ sh_functors s) (executed t) \<or> (\<exists>u. loop_step False LoopThread t u) \<or>
       (\<exists>p. pc t = WakeTest p) \<or> (pc t = Polling \<and> 0 < wakers t))"
proof
  let ?goal = "prefix (executed s @ sh_functors s) (executed t)"
  from loop_run_advances [OF assms(3,2)] have adv: "advance s k t" .
  have "?goal" if "length (sh_functors s) + 6 \<le> k" "prefix (executed s @ sh_functors s) (executed t @ running (pc t))"
    "length (executed s) + k \<le> length (executed t) + 6"
    using prefix_length_prefix [OF that(2), of "executed t"] that(1,3) by simp
  with adv show "length (sh_functors s) + 6 \<le> k \<longrightarrow> ?goal" by (auto simp: advance_def)
  have inv: "wake_inv t" by (rule wake_inv_reachable [OF loop_run_reachable [OF assms(3,1)]])
  have moves: "(\<exists>u. loop_step False LoopThread t u) \<or> (\<exists>p. pc t = WakeTest p) \<or> (pc t = Polling \<and> 0 < wakers t)"
    if "\<not> ?goal"
  proof (cases "0 < stage (pc t)")
    case True
    with that adv stage_running [of "pc t"] have "sh_functors t \<noteq> []" by (auto simp: advance_def)
    with True inv show ?thesis by (cases "pc t") (auto simp: wake_inv_def intro: loop_step.intros split: if_splits)
  next
    case False
    with that adv obtain f fs where "running (pc t) = f # fs" by (cases "running (pc t)") (auto simp: advance_def)
    then show ?thesis by (cases "pc t") (auto intro: run_one)
  qed
  then show "?goal \<or> (\<exists>u. loop_step False LoopThread t u) \<or> (\<exists>p. pc t = WakeTest p) \<or> (pc t = Polling \<and> 0 < wakers t)"
    by blast
qed

text \<open>Seven steps from the wait with one functor.\<close>

lemma demo_waiting_run:
  "loop_run False (demo_waiting True) 7 ((demo_waiting True)\<lparr>signalled := False, sh_callable := True,
     sh_functors := [], executed := [''f''], pc := Running []\<rparr>)"
proof -
  let ?s = "demo_waiting True" and ?R = "loop_run False (demo_waiting True)"
  have pc: "pc ?s = Polling" "signalled ?s" "sh_functors ?s = [''f'']" "executed ?s = []" by (simp_all add: demo_waiting_def)
  note r1 = own_move [OF no_move wait_woken [OF pc(1,2)]]
  note r2 = own_move [OF r1 read_wakeup, simplified pc, simplified]
  note r3 = own_move [OF r2 handled, simplified pc, simplified]
  note r4 = own_move [OF r3 empty_test, simplified pc, simplified]
  note r5 = own_move [OF r4 set_callable, simplified pc, simplified]
  note r6 = own_move [OF r5 swap_functors, simplified pc, simplified]
  note r7 = own_move [OF r6 run_one, simplified pc, simplified]
  show ?thesis using r7 by (simp add: eval_nat_numeral pc)
qed

theorem queued_functors_run_witness:
  "(\<exists>t. loop_run False (demo_waiting True) 7 t \<and> prefix [''f''] (executed t)) \<and>
   (\<exists>u. loop_step False LoopThread (demo_waiting True) u)"
proof
  have pc: "pc (demo_waiting b) = Polling" "sh_functors (demo_waiting b) = [''f'']" "executed (demo_waiting b) = []" for b
    by (simp_all add: demo_waiting_def)
  from queued_functors_run [OF demo_waiting_reachable pc(1) demo_waiting_run]
  show "\<exists>t. loop_run False (demo_waiting True) 7 t \<and> prefix [''f''] (executed t)"
    using demo_waiting_run unfolding pc by fastforce
  from queued_functors_run [OF demo_waiting_reachable pc(1) no_move, of True]
  show "\<exists>u. loop_step False LoopThread (demo_waiting True) u" by (simp add: demo_waiting_def)
qed

section \<open>The loop's own operations are runs of the steps\<close>

text \<open>
  What the code relies on of the eventfd: after a write it is signalled (also when the write
  fails because the counter is full), after a read it is not.
\<close>

definition eventfd_laws :: "('k, 'e) loop_sys \<Rightarrow> ('e \<Rightarrow> bool) \<Rightarrow> bool" where
  "eventfd_laws sys pending \<longleftrightarrow>
     (\<forall>e. pending (snd (eventfd_write sys e))) \<and> (\<forall>e. \<not> pending (snd (eventfd_read sys e)))"

text \<open>
  A loop that remembers the calls of its functors: \<open>called\<close> are those called so far, in order.
\<close>

record ('t, 'c, 'k, 'e, 'u) traced_loop = "('t, 'c, 'k, 'e, 'u) event_loop" +
  called :: "('t, 'u) loop_functor list"

type_synonym ('t, 'c, 'k, 'e, 'u, 'z) tloop = "('t, 'c, 'k, 'e, 'u, 'z) traced_loop_scheme"

definition traced :: "(('t, 'u) loop_functor \<Rightarrow> ('t, 'c, 'k, 'e, 'u, 'z) tloop \<Rightarrow> ('t, 'c, 'k, 'e, 'u, 'z) tloop res) \<Rightarrow>
    ('t, 'u) loop_functor \<Rightarrow> ('t, 'c, 'k, 'e, 'u, 'z) tloop \<Rightarrow> ('t, 'c, 'k, 'e, 'u, 'z) tloop res" where
  "traced run f l = run f (l\<lparr>called := called l @ [f]\<rparr>)"

text \<open>
  The shared state of a loop whose own thread is at \<open>p\<close>, read off its fields and its trace; what
  was submitted so far is what has been called, is swapped out, or is in the queue.
\<close>

definition shared_view :: "('e \<Rightarrow> bool) \<Rightarrow> ('t, 'c, 'k, 'e, 'u, 'z) tloop \<Rightarrow>
    ('t, 'u) loop_functor loop_pc \<Rightarrow> ('t, 'u) loop_functor threads" where
  "shared_view pending l p =
     \<lparr>sh_functors = functors l, sh_callable = callable l, sh_quit = quit_flag l,
      signalled = pending (wakeupFd l), wakers = 0, pc = p, executed = called l,
      submitted = called l @ running p @ functors l\<rparr>"

text \<open>What a functor does to the queue: it queues functors and it may ask the loop to quit.\<close>

datatype 'f loop_call = CallQueue 'f | CallQuit

fun do_call :: "('k, 'e) loop_sys \<Rightarrow> ('t, 'u) loop_functor loop_call \<Rightarrow>
    ('t, 'c, 'k, 'e, 'u, 'z) eloop \<Rightarrow> ('t, 'c, 'k, 'e, 'u, 'z) eloop" where
  "do_call sys (CallQueue f) l = QueueInLoop sys True f l"
| "do_call sys CallQuit l = quit sys True l"

lemma shared_view_eq:
  "shared_view pending l p = shared_view pending l' p \<longleftrightarrow>
     functors l = functors l' \<and> callable l = callable l' \<and> quit_flag l = quit_flag l' \<and>
     pending (wakeupFd l) = pending (wakeupFd l') \<and> called l = called l'"
  by (auto simp: shared_view_def)

lemma shared_view_cong:
  assumes "shared_view pending l p = shared_view pending l' p"
  shows "shared_view pending l p' = shared_view pending l' p'"
  using assms unfolding shared_view_eq .

lemma do_call_fields [simp]:
  "callable (do_call sys c l) = callable l" "called (do_call sys c l') = called l'"
  by (cases c; simp add: QueueInLoop_def wakeup_def quit_def Let_def)+

lemma do_calls_fields [simp]:
  "callable (fold (do_call sys) cs l) = callable l" "called (fold (do_call sys) cs l') = called l'"
  by (induction cs arbitrary: l l') simp_all

lemma do_call_steps:
  assumes "eventfd_laws sys pending" and "callable l"
  shows "(any_step early)\<^sup>*\<^sup>* (shared_view pending l (Running fs))
      (shared_view pending (do_call sys c l) (Running fs))"
proof (cases c)
  case (CallQueue f)
  let ?s = "shared_view pending l (Running fs)"
  let ?s1 = "push f ?s\<lparr>pc := WakeTest (Running fs)\<rparr>"
  let ?s2 = "?s1\<lparr>signalled := (signalled ?s1 \<or> sh_callable ?s1), pc := Running fs\<rparr>"
  have "loop_step early Callback ?s ?s1" by (rule functor_push) (simp add: shared_view_def)
  moreover have "loop_step early Callback ?s1 ?s2" by (rule wake_test) simp
  moreover have "?s2 = shared_view pending (do_call sys c l) (Running fs)"
    using assms by (simp add: CallQueue shared_view_def push_def QueueInLoop_def wakeup_def eventfd_laws_def)
  ultimately show ?thesis using step_then [OF _ step_then [OF _ rtranclp.rtrancl_refl]] by simp
next
  case CallQuit
  let ?s = "shared_view pending l (Running fs)"
  have "loop_step early Callback ?s (?s\<lparr>sh_quit := True\<rparr>)"
    by (rule functor_quit [where fs = fs]) (simp add: shared_view_def)
  moreover have "?s\<lparr>sh_quit := True\<rparr> = shared_view pending (do_call sys c l) (Running fs)"
    by (simp add: CallQuit shared_view_def quit_def)
  ultimately show ?thesis using step_then [OF _ rtranclp.rtrancl_refl] by simp
qed

lemma do_calls_steps:
  assumes "eventfd_laws sys pending" and "callable l"
  shows "(any_step early)\<^sup>*\<^sup>* (shared_view pending l (Running fs))
      (shared_view pending (fold (do_call sys) cs l) (Running fs))"
  using assms(2)
proof (induction cs arbitrary: l)
  case (Cons c cs)
  have "(any_step early)\<^sup>*\<^sup>* (shared_view pending (do_call sys c l) (Running fs))
      (shared_view pending (fold (do_call sys) cs (do_call sys c l)) (Running fs))"
    by (rule Cons.IH) (simp add: Cons.prems)
  from rtranclp_trans [OF do_call_steps [OF assms(1) Cons.prems] this] show ?case by simp
qed simp

text \<open>
  Functors that return, and touch the queue only through the loop's operations; the trace is not
  theirs to change.
\<close>

definition only_calls :: "('k, 'e) loop_sys \<Rightarrow> ('e \<Rightarrow> bool) \<Rightarrow>
    (('t, 'u) loop_functor \<Rightarrow> ('t, 'c, 'k, 'e, 'u, 'z) tloop \<Rightarrow> ('t, 'c, 'k, 'e, 'u, 'z) tloop res) \<Rightarrow>
    bool" where
  "only_calls sys pending run \<longleftrightarrow> (\<forall>f l. \<exists>l' cs. run f l = Inr l' \<and>
     shared_view pending l' AtWhile = shared_view pending (fold (do_call sys) cs l) AtWhile)"

lemma run_functors_steps:
  assumes "eventfd_laws sys pending" and "only_calls sys pending run" and "callable l"
  shows "\<exists>l'. foldR (traced run) fs l = Inr l' \<and> called l' = called l @ fs \<and>
      (any_step early)\<^sup>*\<^sup>* (shared_view pending l (Running fs)) (shared_view pending l' (Running []))"
  using assms(3)
proof (induction fs arbitrary: l)
  case (Cons f fs)
  let ?l = "l\<lparr>called := called l @ [f]\<rparr>"
  obtain l1 cs where l1: "run f ?l = Inr l1"
    and v: "shared_view pending l1 AtWhile = shared_view pending (fold (do_call sys) cs ?l) AtWhile"
    using assms(2) unfolding only_calls_def by blast
  have eq: "callable l1" "called l1 = called l @ [f]" using v Cons.prems by (simp_all add: shared_view_eq)
  obtain l' where l': "foldR (traced run) fs l1 = Inr l'" "called l' = called l1 @ fs"
    "(any_step early)\<^sup>*\<^sup>* (shared_view pending l1 (Running fs)) (shared_view pending l' (Running []))"
    using Cons.IH [OF eq(1)] by blast
  let ?s = "shared_view pending l (Running (f # fs))"
  have "loop_step early LoopThread ?s (?s\<lparr>executed := executed ?s @ [f], pc := Running fs\<rparr>)"
    by (rule run_one) (simp add: shared_view_def)
  moreover have "?s\<lparr>executed := executed ?s @ [f], pc := Running fs\<rparr> = shared_view pending ?l (Running fs)"
    by (simp add: shared_view_def)
  moreover have "(any_step early)\<^sup>*\<^sup>* (shared_view pending ?l (Running fs)) (shared_view pending l1 (Running fs))"
    using do_calls_steps [OF assms(1), of ?l early fs cs] Cons.prems shared_view_cong [OF v] by simp
  ultimately have "(any_step early)\<^sup>*\<^sup>* ?s (shared_view pending l' (Running []))"
    using rtranclp_trans [OF _ l'(3)] by (simp add: step_then)
  then show ?case using l1 l'(1,2) eq(2) by (intro exI [of _ l']) (simp add: traced_def [of run f])
qed simp

text \<open>
  C21. \<^verbatim>\<open>DoCallback\<close> implements the protocol: for functors that return and touch the queue only
  through \<^verbatim>\<open>QueueInLoop\<close> and \<^verbatim>\<open>quit\<close> (whatever else they do), a call of
  \<^verbatim>\<open>DoCallback\<close> calls exactly the functors of the queue, each once and in their order, and
  is a run of the steps from the setting of \<^verbatim>\<open>callable_\<close> to the next test of
  \<^verbatim>\<open>quit_\<close>; the queue then holds what these functors submitted.
\<close>

theorem DoCallback_refines:
  assumes "eventfd_laws sys pending" and "only_calls sys pending run"
  shows "\<exists>l'. DoCallback (traced run) l = Inr l' \<and> called l' = called l @ functors l \<and>
     (any_step early)\<^sup>*\<^sup>* (shared_view pending l AtSetCallable) (shared_view pending l' AtWhile)"
proof -
  let ?l1 = "l\<lparr>callable := True\<rparr>"
  let ?l2 = "?l1\<lparr>functors := []\<rparr>"
  obtain l3 where l3: "foldR (traced run) (functors l) ?l2 = Inr l3" "called l3 = called l @ functors l"
    and st: "(any_step early)\<^sup>*\<^sup>* (shared_view pending ?l2 (Running (functors l))) (shared_view pending l3 (Running []))"
    using run_functors_steps [OF assms, of ?l2 "functors l" early] by auto
  let ?l4 = "l3\<lparr>callable := False\<rparr>"
  let ?s = "shared_view pending l AtSetCallable" and ?s1 = "shared_view pending ?l1 AtSwap"
    and ?s3 = "shared_view pending l3 (Running [])"
  have "loop_step early LoopThread ?s (?s\<lparr>sh_callable := True, pc := AtSwap\<rparr>)"
    by (rule set_callable) (simp add: shared_view_def)
  then have 1: "loop_step early LoopThread ?s ?s1" by (simp add: shared_view_def)
  have "loop_step early LoopThread ?s1 (?s1\<lparr>sh_functors := [], pc := Running (sh_functors ?s1)\<rparr>)"
    by (rule swap_functors) (simp add: shared_view_def)
  then have 2: "loop_step early LoopThread ?s1 (shared_view pending ?l2 (Running (functors l)))"
    by (simp add: shared_view_def)
  have "loop_step early LoopThread ?s3 (?s3\<lparr>sh_callable := False, pc := AtWhile\<rparr>)"
    by (rule run_done) (simp add: shared_view_def)
  then have 3: "loop_step early LoopThread ?s3 (shared_view pending ?l4 AtWhile)" by (simp add: shared_view_def)
  have "(any_step early)\<^sup>*\<^sup>* ?s (shared_view pending ?l4 AtWhile)"
    by (rule step_then [OF 1 step_then [OF 2 then_step [OF st 3]]])
  moreover have "DoCallback (traced run) l = Inr ?l4" using l3(1) by (simp add: DoCallback_def Let_def)
  ultimately show ?thesis using l3(2) by (intro exI [of _ ?l4]) simp
qed

text \<open>The functor 0 queues the functor 1, the others nothing.\<close>

lemma quiet_sys_laws: "eventfd_laws quiet_sys (\<lambda>e. 0 < e)"
  by (simp add: eventfd_laws_def quiet_sys_def)

type_synonym demo_tloop = "(unit, unit, int \<Rightarrow> epoll_event option, nat, nat) traced_loop"

definition demo_run :: "(unit, nat) loop_functor \<Rightarrow> demo_tloop \<Rightarrow> demo_tloop res" where
  "demo_run f l = Inr (if f = UserF 0 then QueueInLoop quiet_sys True (UserF 1) l else l)"

lemma demo_run_calls: "only_calls quiet_sys (\<lambda>e. 0 < e) demo_run"
  unfolding only_calls_def
proof (intro allI)
  fix f :: "(unit, nat) loop_functor" and l
  show "\<exists>l' cs. demo_run f l = Inr l' \<and> shared_view (\<lambda>e. 0 < e) l' AtWhile =
      shared_view (\<lambda>e. 0 < e) (fold (do_call quiet_sys) cs l) AtWhile"
    by (rule exI [of _ "if f = UserF 0 then QueueInLoop quiet_sys True (UserF 1) l else l"],
        rule exI [of _ "if f = UserF 0 then [CallQueue (UserF 1)] else []"])
      (simp add: demo_run_def)
qed

definition demo_loop :: demo_tloop where
  "demo_loop = event_loop.extend (timer_queue.extend new_TimerQueue
     \<lparr>isLooping = False, quit_flag = False, callable = False, PollreturnTime = ts_zero,
      poller_of = \<lparr>chans = (\<lambda>r. new_Channel (5 + int r)), channels = Map.empty, epoll = (\<lambda>_. None),
        events_size = InitEventListSize\<rparr>,
      wakeupFd = 0, WakeupChannel = 0, ActiveChannels = [], functors = [UserF 0, UserF 2],
      TotalNum = 0, clock = (\<lambda>n. Timestamp (of_nat n))\<rparr>) \<lparr>called = []\<rparr>"

lemma demo_loop_functors: "functors demo_loop = [UserF 0, UserF 2]" "called demo_loop = []"
  by (simp_all add: demo_loop_def timer_queue.defs event_loop.defs)

theorem DoCallback_refines_witness:
  "\<exists>l'. DoCallback (traced demo_run) demo_loop = Inr l' \<and> called l' = [UserF 0, UserF 2] \<and>
     (any_step False)\<^sup>*\<^sup>* (shared_view (\<lambda>e. 0 < e) demo_loop AtSetCallable)
       (shared_view (\<lambda>e. 0 < e) l' AtWhile)"
  using DoCallback_refines [OF quiet_sys_laws demo_run_calls, of demo_loop False]
  by (simp add: demo_loop_functors)

end
