(* ===== verification/Timer_Schedule.thy ===== *)
theory Timer_Schedule
  imports Event_Loop
begin

text \<open>
  What the timers of a loop promise, and that src/net/TimerQueue.cpp keeps it. The promise is
  a schedule: the pending jobs in the order of their creation, each with the time it is due.
  Requests append to the schedule or strike out of it; when the timer descriptor is readable,
  the jobs that are due run in order, and those that repeat are due again one interval later.
  The set of entries with its comparator, the vector of expired entries and the flags of
  \<^verbatim>\<open>TimerQueue\<close> do not occur in it. The timers refine the schedule: they do what it does as
  long as its jobs are due in the order of their numbers, the case in which the comparator is
  an order.
\<close>

section \<open>Histories of a loop's timers\<close>

text \<open>
  The requests are those of \<^verbatim>\<open>EventLoop\<close> to its timer queue, made in the loop's thread; a
  callback makes the requests \<open>prog\<close> says. The loop's state gets a record of the callbacks that calls.
\<close>

datatype 't timer_request = AddReq timestamp "32 word" 't | CancelReq "64 word"

datatype 't timer_event = Request "'t timer_request" | TimerReadable

record ('t, 'c, 'k, 'e, 'u) watched_loop = "('t, 'c, 'k, 'e, 'u) event_loop" +
  fired :: "'t list"

fun do_timer_request :: "('k, 'e) loop_sys \<Rightarrow> 't timer_request \<Rightarrow>
    ('t, 'c, 'k, 'e, 'u, 'z) eloop \<Rightarrow> ('t, 'c, 'k, 'e, 'u, 'z) eloop res" where
  "do_timer_request sys (AddReq t n cb) l =
     bindR (loop_AddTimer sys (run_functor sys (\<lambda>_. Inr)) True cb t n l) (\<lambda>(_, l). Inr l)"
| "do_timer_request sys (CancelReq i) l = CancelTimer sys (run_functor sys (\<lambda>_. Inr)) True i l"

definition run_watched :: "('k, 'e) loop_sys \<Rightarrow> ('t \<Rightarrow> 't timer_request list) \<Rightarrow> 't \<Rightarrow>
    ('t, 'c, 'k, 'e, 'u) watched_loop \<Rightarrow> ('t, 'c, 'k, 'e, 'u) watched_loop res" where
  "run_watched sys prog cb l = foldR (do_timer_request sys) (prog cb) (l\<lparr>fired := fired l @ [cb]\<rparr>)"

fun do_timer_event :: "('k, 'e) loop_sys \<Rightarrow> ('t \<Rightarrow> 't timer_request list) \<Rightarrow> 't timer_event \<Rightarrow>
    ('t, 'c, 'k, 'e, 'u) watched_loop \<Rightarrow> ('t, 'c, 'k, 'e, 'u) watched_loop res" where
  "do_timer_event sys prog (Request r) l = do_timer_request sys r l"
| "do_timer_event sys prog TimerReadable l = timer_HandleRead sys (run_watched sys prog) l"

section \<open>The schedule\<close>

record 't job =
  number :: nat
  due :: timestamp
  every :: "32 word"
  what :: 't

record 't schedule =
  jobs :: "'t job list"
  created :: nat
  calls :: "'t list"
  armed :: "(int \<times> int) option"
  readings :: "nat \<Rightarrow> timestamp"

definition next_readings :: "nat \<Rightarrow> 't schedule \<Rightarrow> 't schedule" where
  "next_readings k s = s\<lparr>readings := (\<lambda>n. readings s (k + n))\<rparr>"

lemma next_readings_simps [simp]:
  "jobs (next_readings k s) = jobs s" "created (next_readings k s) = created s"
  "calls (next_readings k s) = calls s" "armed (next_readings k s) = armed s"
  "readings (next_readings k s) = (\<lambda>n. readings s (k + n))"
  by (simp_all add: next_readings_def)

text \<open>A schedule is sound as long as a job with a smaller number is not due later.\<close>

definition set_jobs :: "'t job list \<Rightarrow> 't schedule \<Rightarrow> 't schedule res" where
  "set_jobs js s = (if sorted (map due js) then Inr (s\<lparr>jobs := js\<rparr>) else Inl ComparatorUB)"

text \<open>The descriptor is armed for the first job; the kernel refuses times that have passed.\<close>

definition arm :: "(int \<times> int \<Rightarrow> bool) \<Rightarrow> timestamp \<Rightarrow> timestamp \<Rightarrow> 't schedule \<Rightarrow> 't schedule res" where
  "arm ok n1 n2 s = (case jobs s of [] \<Rightarrow> Inr s
     | b # _ \<Rightarrow>
         let v = (ts_minus (due b) n1 sdiv 1000, ts_minus (due b) n2 smod 1000 * 1000)
         in if ok v then Inr (s\<lparr>armed := Some v\<rparr>) else Inl Abort)"

fun schedule_request :: "(int \<times> int \<Rightarrow> bool) \<Rightarrow> 't timer_request \<Rightarrow> 't schedule \<Rightarrow> 't schedule res" where
  "schedule_request ok (AddReq t n cb) s =
     bindR (set_jobs (jobs s @ [\<lparr>number = Suc (created s), due = t, every = n, what = cb\<rparr>]) s)
       (\<lambda>s'. bindR (if jobs s = [] then arm ok (readings s 0) (readings s 1) s' else Inr s')
          (\<lambda>s'. Inr (next_readings 2 (s'\<lparr>created := Suc (created s)\<rparr>))))"
| "schedule_request ok (CancelReq i) s =
     Inr (next_readings 2 (s\<lparr>jobs := filter (\<lambda>j. number j \<noteq> unat i) (jobs s)\<rparr>))"

definition schedule_run :: "(int \<times> int \<Rightarrow> bool) \<Rightarrow> ('t \<Rightarrow> 't timer_request list) \<Rightarrow>
    't job \<Rightarrow> 't schedule \<Rightarrow> 't schedule res" where
  "schedule_run ok prog j s =
     foldR (schedule_request ok) (prog (what j)) (s\<lparr>calls := calls s @ [what j]\<rparr>)"

definition schedule_again :: "timestamp \<Rightarrow> 't job \<Rightarrow> 't schedule \<Rightarrow> 't schedule res" where
  "schedule_again now j s = (if 0 < sint (every j)
     then set_jobs (insort_key number (j\<lparr>due := ts_plus_int now (every j)\<rparr>) (jobs s)) s
     else Inr s)"

fun schedule_event :: "(int \<times> int \<Rightarrow> bool) \<Rightarrow> ('t \<Rightarrow> 't timer_request list) \<Rightarrow> 't timer_event \<Rightarrow>
    't schedule \<Rightarrow> 't schedule res" where
  "schedule_event ok prog (Request r) s = schedule_request ok r s"
| "schedule_event ok prog TimerReadable s =
     (let now = readings s 0;
          ready = filter (\<lambda>j. due j \<le> now) (jobs s);
          s1 = next_readings 3 (s\<lparr>jobs := filter (\<lambda>j. \<not> due j \<le> now) (jobs s)\<rparr>)
      in bindR (foldR (schedule_run ok prog) ready s1)
           (\<lambda>s2. bindR (foldR (schedule_again now) ready s2)
              (\<lambda>s3. arm ok (readings s 1) (readings s 2) s3)))"

section \<open>The timers as a schedule\<close>

definition entry_of :: "'t job \<Rightarrow> 't ExpiredTimer" where
  "entry_of j = \<lparr>et_timestamp = due j,
     et_timer = \<lparr>callback = what j, expiration = due j, interval = every j,
       repeat = (0 < sint (every j)), timer_id = of_nat (number j)\<rparr>\<rparr>"

text \<open>The numbers fit into 64 bits, and no job has a number that was not given out.\<close>

definition sound :: "'t schedule \<Rightarrow> bool" where
  "sound s \<longleftrightarrow> sorted_wrt (<) (map number (jobs s)) \<and> sorted (map due (jobs s)) \<and>
     (\<forall>j\<in>set (jobs s). number j \<le> created s)"

definition refines :: "('t, 'c, 'k, 'e, 'u) watched_loop \<Rightarrow> 't schedule \<Rightarrow> bool" where
  "refines l s \<longleftrightarrow> timers l = map entry_of (jobs s) \<and> TotalNum l = of_nat (created s) \<and>
     fired l = calls s \<and> timerfd_value l = armed s \<and> clock l = readings s \<and> quiet l"


section \<open>Schedules stay sound\<close>

lemma set_jobs_Inr [simp]: "set_jobs js s = Inr s' \<longleftrightarrow>
    sorted (map due js) \<and> s' = s\<lparr>jobs := js\<rparr>"
  by (auto simp: set_jobs_def)

lemma arm_Inr: "arm ok n1 n2 s = Inr s' \<Longrightarrow> \<exists>v. s' = s\<lparr>armed := v\<rparr>"
  by (rule exI [of _ "armed s'"]) (auto simp: arm_def Let_def split: list.splits if_splits)

text \<open>
  The numbers of a set \<open>H\<close> were given out and belong to no pending job: the jobs whose
  callbacks are running. No request takes such a number.
\<close>

definition given_out :: "nat set \<Rightarrow> 't schedule \<Rightarrow> bool" where
  "given_out H s \<longleftrightarrow> (\<forall>i\<in>H. i \<le> created s \<and> i \<notin> number ` set (jobs s))"

lemma sorted_wrt_map_filter: "sorted_wrt P (map f xs) \<Longrightarrow> sorted_wrt P (map f (filter Q xs))"
  by (simp add: sorted_wrt_map sorted_wrt_filter)

lemma sound_filter: "sound s \<Longrightarrow> sound (s\<lparr>jobs := filter P (jobs s)\<rparr>)"
  by (simp add: sound_def sorted_wrt_map_filter)

lemma schedule_request_sound:
  assumes "schedule_request ok r s = Inr s'" and "sound s"
  shows "sound s' \<and> created s \<le> created s' \<and> (given_out H s \<longrightarrow> given_out H s')"
proof (cases r)
  case (AddReq t n cb)
  let ?js = "jobs s @ [\<lparr>number = Suc (created s), due = t, every = n, what = cb\<rparr>]"
  from assms(1) AddReq have s': "jobs s' = ?js" "created s' = Suc (created s)"
    and sorted: "sorted (map due ?js)"
    by (auto dest!: arm_Inr simp: next_readings_def split: if_splits)
  have "sorted_wrt (<) (map number ?js)"
    using assms(2) by (auto simp: sound_def sorted_wrt_append less_Suc_eq_le)
  with sorted assms(2) show ?thesis
    by (auto simp: s' sound_def given_out_def)
next
  case (CancelReq i)
  with assms sound_filter [OF assms(2), of "\<lambda>j. number j \<noteq> unat i"] show ?thesis
    by (auto simp: given_out_def next_readings_def sound_def)
qed

lemma schedule_requests_sound:
  "foldR (schedule_request ok) rs s = Inr s' \<Longrightarrow> sound s \<Longrightarrow>
     sound s' \<and> created s \<le> created s' \<and> (given_out H s \<longrightarrow> given_out H s')"
proof (induction rs arbitrary: s)
  case (Cons r rs)
  then obtain s1 where s1: "schedule_request ok r s = Inr s1" "foldR (schedule_request ok) rs s1 = Inr s'"
    by auto
  from schedule_request_sound [OF s1(1) Cons.prems(2), of H] Cons.IH [OF s1(2)] show ?case by auto
qed simp

lemma schedule_runs_sound:
  "foldR (schedule_run ok prog) js s = Inr s' \<Longrightarrow> sound s \<Longrightarrow>
     sound s' \<and> created s \<le> created s' \<and> (given_out H s \<longrightarrow> given_out H s')"
proof (induction js arbitrary: s)
  case (Cons j js)
  let ?s = "s\<lparr>calls := calls s @ [what j]\<rparr>"
  from Cons.prems(1) obtain s1 where "schedule_run ok prog j s = Inr s1"
    and s1: "foldR (schedule_run ok prog) js s1 = Inr s'"
    by auto
  then have run: "foldR (schedule_request ok) (prog (what j)) ?s = Inr s1"
    by (simp add: schedule_run_def)
  have "sound ?s" "given_out H ?s = given_out H s"
    using Cons.prems(2) by (simp_all add: sound_def given_out_def)
  with schedule_requests_sound [OF run, of H] Cons.IH [OF s1] show ?case by auto
qed simp

lemma sorted_insort_number:
  assumes "sorted_wrt (<) (map number js)" and "number x \<notin> number ` set js"
  shows "sorted_wrt (<) (map number (insort_key number x js))"
  using assms
proof (induction js)
  case (Cons y ys)
  then have "number x \<noteq> number y" by auto
  moreover have "\<forall>z\<in>number ` set ys. number y < z" using Cons.prems(1) by auto
  ultimately show ?case using Cons by (auto simp: set_insort_key)
qed simp

lemma schedule_again_sound:
  assumes "foldR (schedule_again now) js s = Inr s'" and "sound s"
    and "given_out (number ` set js) s" and "distinct (map number js)"
  shows "sound s' \<and> created s' = created s"
  using assms
proof (induction js arbitrary: s)
  case (Cons j js)
  from Cons.prems(1) obtain s1 where s1: "schedule_again now j s = Inr s1" "foldR (schedule_again now) js s1 = Inr s'"
    by auto
  have "number j \<notin> number ` set (jobs s)" "number j \<le> created s" using Cons.prems(3) by (auto simp: given_out_def)
  moreover have "number i \<noteq> number j" if "i \<in> set js" for i
    using Cons.prems(4) that by (auto simp: image_iff)
  ultimately have "sound s1 \<and> created s1 = created s \<and> given_out (number ` set js) s1"
    using s1(1) Cons.prems(2-4) sorted_insort_number [of "jobs s" "j\<lparr>due := ts_plus_int now (every j)\<rparr>"]
    by (auto simp: schedule_again_def sound_def given_out_def set_insort_key split: if_splits)
  with Cons.IH [OF s1(2)] Cons.prems(4) show ?case by auto
qed simp

section \<open>One entry\<close>

lemma unat_number: "i < 2 ^ 64 \<Longrightarrow> unat (of_nat i :: 64 word) = i"
  by (simp add: unat_of_nat take_bit_nat_eq_self)

lemma number_eq: "i < 2 ^ 64 \<Longrightarrow> (of_nat i :: 64 word) = w \<longleftrightarrow> i = unat w"
  by (auto simp: unat_number)

lemma number_less: "i < 2 ^ 64 \<Longrightarrow> k < 2 ^ 64 \<Longrightarrow> (of_nat i :: 64 word) < of_nat k \<longleftrightarrow> i < k"
  by (simp add: word_less_nat_alt unat_number)

lemma entry_of_simps [simp]:
  "et_timestamp (entry_of j) = due j" "timer_id (et_timer (entry_of j)) = of_nat (number j)"
  "callback (et_timer (entry_of j)) = what j" "expiration (et_timer (entry_of j)) = due j"
  "interval (et_timer (entry_of j)) = every j" "repeat (et_timer (entry_of j)) = (0 < sint (every j))"
  by (simp_all add: entry_of_def)

lemma entry_of_timer:
  "\<lparr>et_timestamp = due j, et_timer = et_timer (entry_of j)\<rparr> = entry_of j"
  by (simp add: entry_of_def)

lemma less_entry: "number a < 2 ^ 64 \<Longrightarrow> number b < 2 ^ 64 \<Longrightarrow>
    less_ExpiredTimer (entry_of a) (entry_of b) \<longleftrightarrow> due a < due b \<or> number a < number b"
  by (simp add: less_ExpiredTimer_iff number_less)

text \<open>In a sound schedule numbers and times agree on which of two jobs comes first.\<close>

lemma sound_pair:
  assumes "sorted_wrt (<) (map number js)" and "sorted (map due js)"
    and "a \<in> set js" and "b \<in> set js" and "number a < number b"
  shows "due a \<le> due b"
  using assms by (induction js) (auto simp: less_not_sym)

lemma place_entry:
  assumes "sorted_wrt (<) (map number (insort_key number x js))"
    and "sorted (map due (insort_key number x js))"
    and "number x < 2 ^ 64" and "\<forall>j\<in>set js. number j < 2 ^ 64" and "number x \<notin> number ` set js"
  shows "place less_ExpiredTimer (entry_of x) (map entry_of js) = map entry_of (insort_key number x js)"
  using assms
proof (induction js)
  case (Cons y ys)
  from Cons.prems(5) have ne: "number x \<noteq> number y" by auto
  show ?case
  proof (cases "number x < number y")
    case True
    with Cons.prems show ?thesis by (simp add: less_entry not_less [symmetric])
  next
    case False
    with Cons ne show ?thesis by (simp add: less_entry)
  qed
qed simp

lemma insert_entry:
  assumes "timers l = map entry_of js" and "sorted_wrt (<) (map number js)"
    and "sorted (map due (insort_key number x js))"
    and "number x < 2 ^ 64" and "\<forall>j\<in>set js. number j < 2 ^ 64" and "number x \<notin> number ` set js"
  shows "insert_timer (et_timer (entry_of x)) l =
    Inr (js = [] \<or> due x < due (hd js), l\<lparr>timers := map entry_of (insort_key number x js)\<rparr>)"
proof -
  note ids = sorted_insort_number [OF assms(2,6)]
  have "timer_id (et_timer a) \<le> timer_id (et_timer b)"
    if "a \<in> set (entry_of x # map entry_of js)" "b \<in> set (entry_of x # map entry_of js)"
      "et_timestamp a < et_timestamp b" for a b
  proof -
    from that(1,2) obtain i j where ij: "a = entry_of i" "b = entry_of j" "i \<in> set (insort_key number x js)"
      "j \<in> set (insort_key number x js)" by (auto simp: set_insort_key)
    then have "number i < 2 ^ 64" "number j < 2 ^ 64" using assms(4,5) by (auto simp: set_insort_key)
    moreover have "\<not> number j < number i" using sound_pair [OF ids assms(3) ij(4,3)] that(3) ij by auto
    ultimately show ?thesis by (simp add: ij not_less [symmetric] number_less)
  qed
  then have "strict_weak_order less_ExpiredTimer (entry_of x # map entry_of js)"
    unfolding swo_ExpiredTimer_iff by blast
  with place_entry [OF ids assms(3-6)] show ?thesis
    by (cases js) (simp_all add: insert_timer_def std_set_insert_def entry_of_timer assms(1) Let_def)
qed

lemma insort_last: "\<forall>j\<in>set js. number j < number x \<Longrightarrow> insort_key number x js = js @ [x]"
  by (induction js) auto

lemma ResetTimerfd_arm:
  assumes "timers l = map entry_of (jobs s)" and "arm ok n1 n2 s = Inr s'" and "jobs s \<noteq> []"
    and "timerfd_value l = armed s"
  shows "ResetTimerfd ok n1 n2 (expiration (et_timer (hd (timers l)))) l = Inr (l\<lparr>timerfd_value := armed s'\<rparr>)"
  using assms by (cases "jobs s") (auto simp: arm_def ResetTimerfd_def Let_def split: if_splits)

section \<open>One request\<close>

lemma drop_one:
  assumes "distinct (map f xs)"
  shows "takeWhile (\<lambda>x. f x \<noteq> a) xs @ tl (dropWhile (\<lambda>x. f x \<noteq> a) xs) = filter (\<lambda>x. f x \<noteq> a) xs"
    and "dropWhile (\<lambda>x. f x \<noteq> a) xs = [] \<Longrightarrow> filter (\<lambda>x. f x \<noteq> a) xs = xs"
proof -
  show "takeWhile (\<lambda>x. f x \<noteq> a) xs @ tl (dropWhile (\<lambda>x. f x \<noteq> a) xs) = filter (\<lambda>x. f x \<noteq> a) xs"
    using assms
  proof (induction xs)
    case (Cons x xs)
    show ?case
    proof (cases "f x = a")
      case True
      with Cons.prems have "\<forall>y\<in>set xs. f y \<noteq> a" by (auto simp: image_iff)
      then show ?thesis using True by (simp add: filter_id_conv)
    qed (use Cons in simp)
  qed simp
qed (auto simp: dropWhile_eq_Nil_conv filter_id_conv)

lemma CancelTimerInLoop_entries:
  assumes "timers l = map entry_of js" and "sorted_wrt (<) (map number js)"
    and "\<forall>j\<in>set js. number j < 2 ^ 64" and "quiet l"
  shows "CancelTimerInLoop i l = l\<lparr>timers := map entry_of (filter (\<lambda>j. number j \<noteq> unat i) js)\<rparr>"
proof -
  have eq: "timer_id (et_timer (entry_of j)) \<noteq> i \<longleftrightarrow> number j \<noteq> unat i" if "j \<in> set js" for j
    using assms(3) that by (simp add: number_eq)
  have dist: "distinct (map (\<lambda>e. timer_id (et_timer e)) (timers l))"
  proof -
    have "inj_on (\<lambda>j. of_nat (number j) :: 64 word) (set js)"
      using assms(2,3) unat_number
      by (intro inj_onI) (metis sorted_wrt_map sorted_wrt_cases less_irrefl)
    moreover have "distinct js" using assms(2) by (simp add: strict_sorted_iff distinct_map)
    ultimately show ?thesis by (simp add: assms(1) distinct_map comp_def)
  qed
  have filter: "filter (\<lambda>e. timer_id (et_timer e) \<noteq> i) (timers l) =
      map entry_of (filter (\<lambda>j. number j \<noteq> unat i) js)"
    using eq by (simp add: assms(1) filter_map comp_def cong: filter_cong)
  show ?thesis
    using drop_one [OF dist, of i] assms(4) unfolding filter
    by (auto simp: CancelTimerInLoop_def Let_def quiet_def)
qed

lemma refines_numbers: "sound s \<Longrightarrow> created s < 2 ^ 64 \<Longrightarrow> j \<in> set (jobs s) \<Longrightarrow> number j < 2 ^ 64"
  by (auto simp: sound_def)

lemma request_refines:
  assumes "refines l s" and "sound s" and "schedule_request (settime_ok sys) r s = Inr s'"
    and "created s' < 2 ^ 64"
  shows "\<exists>l'. do_timer_request sys r l = Inr l' \<and> refines l' s'"
proof (cases r)
  case (AddReq t n cb)
  let ?j = "\<lparr>number = Suc (created s), due = t, every = n, what = cb\<rparr>"
  from assms(3) AddReq obtain s1 where sorted: "sorted (map due (jobs s @ [?j]))"
    and s1: "(if jobs s = [] then arm (settime_ok sys) (readings s 0) (readings s 1) (s\<lparr>jobs := jobs s @ [?j]\<rparr>)
      else Inr (s\<lparr>jobs := jobs s @ [?j]\<rparr>)) = Inr s1"
    and s': "s' = next_readings 2 (s1\<lparr>created := Suc (created s)\<rparr>)"
    by auto
  have "Suc (created s) < 2 ^ 64" using s' assms(4) by (simp add: next_readings_def)
  have last: "\<forall>j\<in>set (jobs s). number j < number ?j" using assms(2) by (auto simp: sound_def)
  define l1 where "l1 = l\<lparr>TotalNum := TotalNum l + 1, clock := (\<lambda>n. clock l (Suc (Suc n)))\<rparr>"
  have l1: "timers l1 = map entry_of (jobs s)" using assms(1) by (simp add: l1_def refines_def)
  have "insert_timer (et_timer (entry_of ?j)) l1 =
      Inr (jobs s = [] \<or> t < due (hd (jobs s)), l1\<lparr>timers := map entry_of (jobs s @ [?j])\<rparr>)"
  proof -
    have "\<forall>j\<in>set (jobs s). number j < 2 ^ 64" "number ?j \<notin> number ` set (jobs s)"
      using last \<open>Suc (created s) < 2 ^ 64\<close> by (auto intro: less_trans)
    from insert_entry [OF l1 _ _ _ this] sorted \<open>Suc (created s) < 2 ^ 64\<close> assms(2) show ?thesis
      by (simp add: sound_def insort_last [OF last])
  qed
  moreover have "(jobs s = [] \<or> t < due (hd (jobs s))) = (jobs s = [])"
    using sorted by (cases "jobs s") auto
  moreover have "do_timer_request sys r l =
      AddTimerInLoop (settime_ok sys) (readings s 0) (readings s 1) (et_timer (entry_of ?j)) l1"
    using assms(1) AddReq
    by (simp add: loop_AddTimer_def AddTimer_def new_Timer_def RunInLoop_def read_clock_def entry_of_def
        refines_def l1_def bindR_assoc add.commute)
  ultimately have step: "do_timer_request sys r l =
      (let l2 = l1\<lparr>timers := map entry_of (jobs s @ [?j])\<rparr>
       in if jobs s = [] then ResetTimerfd (settime_ok sys) (readings s 0) (readings s 1) t l2 else Inr l2)"
    by (simp add: AddTimerInLoop_def)
  show ?thesis
  proof (cases "jobs s = []")
    case True
    with s1 have "arm (settime_ok sys) (readings s 0) (readings s 1) (s\<lparr>jobs := [?j]\<rparr>) = Inr s1" by simp
    from ResetTimerfd_arm [OF _ this, of "l1\<lparr>timers := [entry_of ?j]\<rparr>"] True step assms(1) arm_Inr [OF this]
    show ?thesis by (auto simp: refines_def l1_def s' next_readings_def quiet_def)
  next
    case False
    with step s1 assms(1) show ?thesis
      by (auto simp: refines_def l1_def s' next_readings_def quiet_def)
  qed
next
  case (CancelReq i)
  let ?l = "l\<lparr>clock := (\<lambda>n. clock l (Suc (Suc n)))\<rparr>"
  from assms(3) CancelReq have s': "s' = next_readings 2 (s\<lparr>jobs := filter (\<lambda>j. number j \<noteq> unat i) (jobs s)\<rparr>)"
    by simp
  have "CancelTimerInLoop i ?l = ?l\<lparr>timers := map entry_of (filter (\<lambda>j. number j \<noteq> unat i) (jobs s))\<rparr>"
    using assms refines_numbers [OF assms(2)]
    by (intro CancelTimerInLoop_entries) (auto simp: refines_def sound_def quiet_def s' next_readings_def)
  moreover have "do_timer_request sys r l = Inr (CancelTimerInLoop i ?l)"
    by (simp add: CancelReq CancelTimer_def cancel_def RunInLoop_def read_clock_def)
  ultimately show ?thesis
    using assms(1) by (simp add: refines_def s' next_readings_def quiet_def)
qed

lemma schedule_request_keeps:
  "schedule_request ok r s = Inr s' \<Longrightarrow> sound s \<Longrightarrow> sound s' \<and> (created s' < 2 ^ 64 \<longrightarrow> created s < 2 ^ 64)"
  using schedule_request_sound [of ok r s s' "{}"] by auto

interpretation timer_requests: step_refinement "do_timer_request sys" "schedule_request (settime_ok sys)"
    refines sound "\<lambda>s. created s < 2 ^ 64" for sys
  by unfold_locales (rule request_refines schedule_request_keeps; assumption)+

section \<open>Expiry\<close>

lemma runs_refine:
  "foldR (schedule_run (settime_ok sys) prog) js s = Inr s' \<Longrightarrow> refines l s \<Longrightarrow> sound s \<Longrightarrow>
     created s' < 2 ^ 64 \<Longrightarrow>
     \<exists>l'. foldR (\<lambda>e. run_watched sys prog (callback (et_timer e))) (map entry_of js) l = Inr l' \<and> refines l' s'"
proof (induction js arbitrary: l s)
  case (Cons j js)
  let ?s = "s\<lparr>calls := calls s @ [what j]\<rparr>" and ?l = "l\<lparr>fired := fired l @ [what j]\<rparr>"
  from Cons.prems(1) obtain s1 where "schedule_run (settime_ok sys) prog j s = Inr s1"
    and s1: "foldR (schedule_run (settime_ok sys) prog) js s1 = Inr s'" by auto
  then have run: "foldR (schedule_request (settime_ok sys)) (prog (what j)) ?s = Inr s1"
    by (simp add: schedule_run_def)
  have before: "refines ?l ?s" "sound ?s"
    using Cons.prems(2,3) by (simp_all add: refines_def sound_def quiet_def)
  have sound: "sound s1" using schedule_requests_sound [OF run before(2)] by blast
  have "created s1 < 2 ^ 64"
    using schedule_runs_sound [OF s1 sound, of "{}"] Cons.prems(4) by linarith
  from timer_requests.run_simulates [OF run before this] obtain l1 where
    "foldR (do_timer_request sys) (prog (what j)) ?l = Inr l1" "refines l1 s1" by blast
  with Cons.IH [OF s1 _ sound Cons.prems(4)] show ?case by (auto simp: run_watched_def)
qed simp

lemma reinsert_entry:
  assumes "schedule_again now j s = Inr s'" and "refines l s" and "sound s" and "created s < 2 ^ 64"
    and "given_out {number j} s"
  shows "\<exists>l'. reinsert now (entry_of j) l = Inr l' \<and> refines l' s'"
proof (cases "0 < sint (every j)")
  case True
  let ?j = "j\<lparr>due := ts_plus_int now (every j)\<rparr>"
  have again: "restart now (et_timer (entry_of j)) = et_timer (entry_of ?j)"
    using True by (simp add: restart_def entry_of_def)
  have "sorted (map due (insort_key number ?j (jobs s)))" and s': "s' = s\<lparr>jobs := insort_key number ?j (jobs s)\<rparr>"
    using assms(1) True by (simp_all add: schedule_again_def)
  then have "insert_timer (et_timer (entry_of ?j)) l =
      Inr (jobs s = [] \<or> due ?j < due (hd (jobs s)), l\<lparr>timers := map entry_of (insort_key number ?j (jobs s))\<rparr>)"
    using assms(2-5) refines_numbers [OF assms(3,4)]
    by (intro insert_entry) (auto simp: refines_def sound_def given_out_def)
  with True assms(2) show ?thesis
    by (simp add: reinsert_def again refines_def s' quiet_def)
next
  case False
  with assms(1,2) show ?thesis by (auto simp: schedule_again_def reinsert_def)
qed

lemma again_refines:
  "foldR (schedule_again now) js s = Inr s' \<Longrightarrow> refines l s \<Longrightarrow> sound s \<Longrightarrow> created s < 2 ^ 64 \<Longrightarrow>
     given_out (number ` set js) s \<Longrightarrow> distinct (map number js) \<Longrightarrow>
     \<exists>l'. foldR (reinsert now) (map entry_of js) l = Inr l' \<and> refines l' s'"
proof (induction js arbitrary: l s)
  case (Cons j js)
  from Cons.prems(1) obtain s1 where s1: "schedule_again now j s = Inr s1"
    "foldR (schedule_again now) js s1 = Inr s'" by auto
  have one: "given_out {number j} s" using Cons.prems(5) by (simp add: given_out_def)
  have step: "foldR (schedule_again now) [j] s = Inr s1" using s1(1) by simp
  have sound: "sound s1 \<and> created s1 = created s"
    using schedule_again_sound [OF step Cons.prems(3)] one by simp
  have rest: "given_out (number ` set js) s1"
    using s1(1) Cons.prems(5,6)
    by (auto simp: schedule_again_def given_out_def set_insort_key image_iff split: if_splits)
  from reinsert_entry [OF s1(1) Cons.prems(2-4) one] obtain l1 where
    "reinsert now (entry_of j) l = Inr l1" "refines l1 s1" by blast
  with Cons.IH [OF s1(2) _ _ _ rest] sound Cons.prems(4,6) show ?case by auto
qed simp

lemma entries_in_order:
  "sorted_wrt (<) (map number js) \<Longrightarrow> sorted (map due js) \<Longrightarrow> \<forall>j\<in>set js. number j < 2 ^ 64 \<Longrightarrow>
     sorted_wrt entry_before (map entry_of js)"
  by (induction js) (auto simp: entry_before_def number_less)

lemma schedule_eventE:
  assumes "schedule_event ok prog TimerReadable s = Inr s'" and "sound s"
  obtains ready s1 s2 s3 where "ready = filter (\<lambda>j. due j \<le> readings s 0) (jobs s)"
    and "s1 = next_readings 3 (s\<lparr>jobs := filter (\<lambda>j. \<not> due j \<le> readings s 0) (jobs s)\<rparr>)"
    and "foldR (schedule_run ok prog) ready s1 = Inr s2"
    and "foldR (schedule_again (readings s 0)) ready s2 = Inr s3"
    and "arm ok (readings s 1) (readings s 2) s3 = Inr s'"
    and "sound s1" and "sound s2" and "created s \<le> created s2" and "sound s3" and "created s3 = created s2"
    and "created s' = created s2" and "sound s'"
    and "given_out (number ` set ready) s2" and "distinct (map number ready)"
proof -
  define ready where "ready = filter (\<lambda>j. due j \<le> readings s 0) (jobs s)"
  define s1 where "s1 = next_readings 3 (s\<lparr>jobs := filter (\<lambda>j. \<not> due j \<le> readings s 0) (jobs s)\<rparr>)"
  from assms(1) obtain s2 s3 where run: "foldR (schedule_run ok prog) ready s1 = Inr s2"
    and again: "foldR (schedule_again (readings s 0)) ready s2 = Inr s3"
    and arm: "arm ok (readings s 1) (readings s 2) s3 = Inr s'"
    by (auto simp: Let_def ready_def s1_def)
  have numbers: "distinct (map number (jobs s))" using assms(2) by (simp add: sound_def strict_sorted_iff)
  then have dist: "distinct (map number ready)" by (simp add: ready_def distinct_map_filter)
  have sound1: "sound s1" using sound_filter [OF assms(2)] by (simp add: s1_def sound_def)
  have "given_out (number ` set ready) s1"
    using assms(2) numbers
    by (auto simp: given_out_def sound_def ready_def s1_def distinct_map inj_on_def)
  with schedule_runs_sound [OF run sound1, of "number ` set ready"]
  have s2: "sound s2" "created s \<le> created s2" "given_out (number ` set ready) s2"
    by (simp_all add: s1_def)
  from schedule_again_sound [OF again s2(1,3) dist] have s3: "sound s3" "created s3 = created s2" by simp_all
  with arm_Inr [OF arm] have "created s' = created s2" "sound s'" by (auto simp: sound_def)
  with that [OF ready_def s1_def run again arm sound1 s2(1,2) s3 _ _ s2(3) dist] show thesis by blast
qed

lemma event_sound:
  assumes "schedule_event ok prog e s = Inr s'" and "sound s"
  shows "sound s' \<and> created s \<le> created s'"
proof (cases e)
  case (Request r)
  with assms schedule_request_sound [of ok r s s' "{}"] show ?thesis by simp
next
  case TimerReadable
  from assms(1) [unfolded this] assms(2) show ?thesis by (rule schedule_eventE) simp
qed

lemma HandleRead_refines:
  assumes "refines l s" and "sound s" and "schedule_event (settime_ok sys) prog TimerReadable s = Inr s'"
    and "created s' < 2 ^ 64"
  shows "\<exists>l'. timer_HandleRead sys (run_watched sys prog) l = Inr l' \<and> refines l' s'"
proof -
  from assms(3,2) obtain ready s1 s2 s3 where ready: "ready = filter (\<lambda>j. due j \<le> readings s 0) (jobs s)"
    and s1: "s1 = next_readings 3 (s\<lparr>jobs := filter (\<lambda>j. \<not> due j \<le> readings s 0) (jobs s)\<rparr>)"
    and run: "foldR (schedule_run (settime_ok sys) prog) ready s1 = Inr s2"
    and again: "foldR (schedule_again (readings s 0)) ready s2 = Inr s3"
    and arm: "arm (settime_ok sys) (readings s 1) (readings s 2) s3 = Inr s'"
    and ok: "sound s1" "sound s2" "created s \<le> created s2" "created s' = created s2"
      "given_out (number ` set ready) s2" "distinct (map number ready)"
    by (rule schedule_eventE) blast
  have fits: "created s2 < 2 ^ 64" "\<forall>j\<in>set (jobs s). number j < 2 ^ 64"
    using refines_numbers [OF assms(2)] ok(3,4) assms(4) by auto
  let ?l = "l\<lparr>clock := (\<lambda>n. clock l (Suc (Suc (Suc n))))\<rparr>"
  define l1 where "l1 = ?l\<lparr>timers := map entry_of (jobs s1), CallingExpiredTimers := False\<rparr>"
  have l1: "refines l1 s1"
    using assms(1) by (simp add: refines_def l1_def s1 quiet_def eval_nat_numeral)
  from runs_refine [OF run l1 ok(1) fits(1)] obtain l2 where
    l2: "foldR (\<lambda>e. run_watched sys prog (callback (et_timer e))) (map entry_of ready) l1 = Inr l2" "refines l2 s2"
    by blast
  then have "refines (l2\<lparr>CallingExpiredTimers := False\<rparr>) s2" by (simp add: refines_def quiet_def)
  from again_refines [OF again this ok(2) fits(1) ok(5,6)] obtain l3 where
    l3: "foldR (reinsert (readings s 0)) (map entry_of ready) (l2\<lparr>CallingExpiredTimers := False\<rparr>) = Inr l3" "refines l3 s3"
    by blast
  have "GetExpiredTimer (readings s 0) ?l = (map entry_of ready, ?l\<lparr>timers := map entry_of (jobs s1)\<rparr>)"
    using assms(1,2) expired_prefix [OF entries_in_order [OF _ _ fits(2)], of "readings s 0"]
    by (simp add: GetExpiredTimer_def refines_def sound_def ready s1 filter_map comp_def not_le)
  with l2(1) l3(1) assms(1) have handle: "timer_HandleRead sys (run_watched sys prog) l =
     (if timers l3 \<noteq> [] then ResetTimerfd (settime_ok sys) (readings s 1) (readings s 2)
         (expiration (et_timer (hd (timers l3)))) l3 else Inr l3)"
    by (simp add: timer_HandleRead_def read_clock_def HandleRead_def reset_def Let_def refines_def l1_def eval_nat_numeral)
  show ?thesis
  proof (cases "jobs s3 = []")
    case True
    with arm l3(2) handle show ?thesis by (auto simp: arm_def refines_def)
  next
    case False
    with ResetTimerfd_arm [OF _ arm False, of l3] l3(2) handle arm_Inr [OF arm]
    show ?thesis by (auto simp: refines_def quiet_def)
  qed
qed

lemma event_keeps:
  "schedule_event ok prog e s = Inr s' \<Longrightarrow> sound s \<Longrightarrow> sound s' \<and> (created s' < 2 ^ 64 \<longrightarrow> created s < 2 ^ 64)"
  using event_sound [of ok prog e s s'] by auto

lemma event_refines:
  assumes "schedule_event (settime_ok sys) prog e s = Inr s'" and "refines l s" and "sound s"
    and "created s' < 2 ^ 64"
  shows "\<exists>l'. do_timer_event sys prog e l = Inr l' \<and> refines l' s'"
  using assms request_refines HandleRead_refines by (cases e) auto

interpretation timers: step_refinement "do_timer_event sys prog"
    "schedule_event (settime_ok sys) prog" refines sound "\<lambda>s. created s < 2 ^ 64" for sys prog
  by unfold_locales (rule event_refines event_keeps; assumption)+

section \<open>Following the schedule\<close>

text \<open>
  C9. The timers of a loop follow their schedule. For any sequence of requests and expiries,
  with callbacks that make requests themselves, if the schedule stays sound (no job is due
  before one with a smaller number, and the kernel accepts the times it is armed for) and
  fewer than \<open>2 ^ 64\<close> timers are created, then the code returns: the same callbacks have run
  in the same order, the same jobs are pending with the same times, and the descriptor is
  armed for the same time.
\<close>

theorem timers_follow_schedule:
  assumes "refines l s" and "sound s"
    and "foldR (schedule_event (settime_ok sys) prog) es s = Inr s'" and "created s' < 2 ^ 64"
  shows "\<exists>l'. foldR (do_timer_event sys prog) es l = Inr l' \<and> fired l' = calls s' \<and>
    timers l' = map entry_of (jobs s') \<and> timerfd_value l' = armed s' \<and> refines l' s' \<and> sound s'"
  using timers.run_simulates [OF assms(3,1,2,4)] timers.run_keeps [OF assms(3,2)]
  by (auto simp: refines_def)

text \<open>
  Three timers: the callback of the first cancels the second before it is due; the third stays
  pending and the descriptor is armed for it.
\<close>

definition demo_watched :: "(string, unit, int \<Rightarrow> epoll_event option, nat, unit) watched_loop" where
  "demo_watched = \<lparr>timers = [], CallingExpiredTimers = False, CancelTimers = {}, timerfd_value = None,
     isLooping = True, quit_flag = False, callable = False, PollreturnTime = ts_zero,
     poller_of = \<lparr>chans = (\<lambda>r. new_Channel (5 + int r)), channels = Map.empty, epoll = (\<lambda>_. None),
       events_size = InitEventListSize\<rparr>,
     wakeupFd = 0, WakeupChannel = 0, ActiveChannels = [], functors = [], TotalNum = 0,
     clock = (\<lambda>n. Timestamp (if n < 6 then 0 else 150)), fired = []\<rparr>"

definition demo_program :: "string \<Rightarrow> string timer_request list" where
  "demo_program cb = (if cb = ''a'' then [CancelReq 2] else [])"

theorem timers_follow_schedule_witness:
  "\<exists>l'. foldR (do_timer_event quiet_sys demo_program)
      [Request (AddReq (Timestamp 100) 0 ''a''), Request (AddReq (Timestamp 200) 50 ''b''),
       Request (AddReq (Timestamp 300) 0 ''c''), TimerReadable] demo_watched = Inr l' \<and>
     fired l' = [''a''] \<and> map (\<lambda>e. timer_id (et_timer e)) (timers l') = [3] \<and>
     timerfd_value l' = Some (0, 150000)"
proof -
  let ?s = "\<lparr>jobs = [], created = 0, calls = [], armed = None, readings = clock demo_watched\<rparr> :: string schedule"
  let ?es = "[Request (AddReq (Timestamp 100) 0 ''a''), Request (AddReq (Timestamp 200) 50 ''b''),
       Request (AddReq (Timestamp 300) 0 ''c''), TimerReadable]"
  have r: "refines demo_watched ?s" "sound ?s"
    by (simp_all add: refines_def sound_def demo_watched_def quiet_def)
  obtain s' where s': "foldR (schedule_event (settime_ok (quiet_sys :: (int \<Rightarrow> epoll_event option, nat) loop_sys)) demo_program) ?es ?s = Inr s'"
    "calls s' = [''a'']" "map number (jobs s') = [3]" "armed s' = Some (0, 150000)" "created s' = 3"
    by (simp add: set_jobs_def arm_def schedule_run_def schedule_again_def demo_program_def demo_watched_def
        quiet_sys_def timestamp_le_iff GetTime_def ts_minus_def Let_def signed_divide_int_def signed_modulo_int_def)
  have "map (\<lambda>e. timer_id (et_timer e)) (map entry_of (jobs s')) = [3]"
    using s'(3) by (auto simp: map_eq_Cons_conv)
  with timers_follow_schedule [OF r s'(1)] s' show ?thesis by auto
qed

end
