(* ===== verification/Byte_Buffer.thy ===== *)
theory Byte_Buffer
  imports Prelude
begin

text \<open>
  \<^verbatim>\<open>Buffer\<close> of include/net/Buffer.h and src/net/Buffer.cpp: a byte vector with a reader
  and a writer index. Pointers into the vector are indices; copying out of the vector is the
  fault \<^const>\<open>OutOfBounds\<close>. The system calls \<^verbatim>\<open>readv\<close> and \<^verbatim>\<open>write\<close> are the
  environment: their answers are arguments. The abstract content of a buffer is its readable
  slice; the interface \<open>byte_queue\<close> states what its clients rely on.
\<close>

section \<open>State\<close>

record buffer =
  buf_bytes :: "char list"
  ReaderIndex :: nat
  WriterIndex :: nat

definition kCheapPrepend :: nat where "kCheapPrepend = 8"

definition kInitialSize :: nat where "kInitialSize = 1024"

definition kCRLF :: "char list" where "kCRLF = [CHR 0x0D, CHR 0x0A]"

definition new_Buffer :: "nat \<Rightarrow> buffer" where
  "new_Buffer InitialSize =
     \<lparr>buf_bytes = replicate (kCheapPrepend + InitialSize) (CHR 0x00),
      ReaderIndex = kCheapPrepend, WriterIndex = kCheapPrepend\<rparr>"

definition ReadableBytes :: "buffer \<Rightarrow> nat" where
  "ReadableBytes b = sz_sub (WriterIndex b) (ReaderIndex b)"

definition WriteableBytes :: "buffer \<Rightarrow> nat" where
  "WriteableBytes b = sz_sub (length (buf_bytes b)) (WriterIndex b)"

definition PrependBytes :: "buffer \<Rightarrow> nat" where
  "PrependBytes b = ReaderIndex b"

section \<open>Consuming\<close>

definition RetrieveAll :: "buffer \<Rightarrow> buffer" where
  "RetrieveAll b = b\<lparr>ReaderIndex := kCheapPrepend, WriterIndex := kCheapPrepend\<rparr>"

definition retrieve :: "nat \<Rightarrow> buffer \<Rightarrow> buffer" where
  "retrieve len b = (if len < ReadableBytes b
     then b\<lparr>ReaderIndex := sz_add (ReaderIndex b) len\<rparr>
     else RetrieveAll b)"

definition RetrieveUntil :: "nat \<Rightarrow> buffer \<Rightarrow> buffer" where
  "RetrieveUntil end_pos b = retrieve (sz_sub end_pos (ReaderIndex b)) b"

definition RetrieveToString :: "nat \<Rightarrow> buffer \<Rightarrow> (string \<times> buffer) res" where
  "RetrieveToString len b =
     (if ReaderIndex b + len \<le> length (buf_bytes b)
      then Inr (slice (buf_bytes b) (ReaderIndex b) (ReaderIndex b + len), retrieve len b)
      else Inl OutOfBounds)"

definition RetrieveAllToString :: "buffer \<Rightarrow> (string \<times> buffer) res" where
  "RetrieveAllToString b = RetrieveToString (ReadableBytes b) b"

section \<open>Growing\<close>

text \<open>
  \<^verbatim>\<open>std::vector::resize\<close> keeps a prefix and fills up with zeros; above
  \<^verbatim>\<open>max_size\<close> it throws. For \<^verbatim>\<open>std::copy\<close> a destination inside the source range is
  undefined.
\<close>

definition vec_resize :: "nat \<Rightarrow> char list \<Rightarrow> char list res" where
  "vec_resize n v = (if max_size < n then Inl LengthError
                     else Inr (take n v @ replicate (n - length v) (CHR 0x00)))"

definition copy_within :: "nat \<Rightarrow> nat \<Rightarrow> nat \<Rightarrow> char list \<Rightarrow> char list res" where
  "copy_within src_begin src_end dest v =
     (if src_begin \<le> dest \<and> dest < src_end then Inl OverlappingCopy
      else if length v < src_end then Inl OutOfBounds
      else copy_at (slice v src_begin src_end) dest v)"

definition MakeSpace :: "nat \<Rightarrow> buffer \<Rightarrow> buffer res" where
  "MakeSpace len b =
     (if sz_add (WriteableBytes b) (PrependBytes b) < sz_add len kCheapPrepend
      then bindR (vec_resize (sz_add (WriteableBytes b) len) (buf_bytes b))
             (\<lambda>v. Inr (b\<lparr>buf_bytes := v\<rparr>))
      else (let DataLen = ReadableBytes b in
            bindR (copy_within (ReaderIndex b) (WriterIndex b) kCheapPrepend (buf_bytes b))
              (\<lambda>v. Inr (b\<lparr>buf_bytes := v, ReaderIndex := kCheapPrepend,
                          WriterIndex := sz_add kCheapPrepend DataLen\<rparr>))))"

definition EnsureWriteableBytes :: "nat \<Rightarrow> buffer \<Rightarrow> buffer res" where
  "EnsureWriteableBytes len b = (if WriteableBytes b < len then MakeSpace len b else Inr b)"

definition append_buf :: "char list \<Rightarrow> buffer \<Rightarrow> buffer res" where
  "append_buf data b =
     bindR (EnsureWriteableBytes (length data) b)
       (\<lambda>b. bindR (copy_at data (WriterIndex b) (buf_bytes b))
         (\<lambda>v. Inr (b\<lparr>buf_bytes := v, WriterIndex := sz_add (WriterIndex b) (length data)\<rparr>)))"

definition append_string :: "string \<Rightarrow> buffer \<Rightarrow> buffer res" where
  "append_string data b = append_buf data b"

section \<open>Reading from and writing to a descriptor\<close>

text \<open>The answer of \<^verbatim>\<open>readv\<close> or \<^verbatim>\<open>read\<close> (the bytes), of \<^verbatim>\<open>write\<close> (a count).\<close>

datatype rd_result = RdErr int | RdOk "char list"

datatype wr_result = WrErr int | WrOk nat

definition extrabuf_size :: nat where "extrabuf_size = 65536"

text \<open>
  The bytes the two \<^verbatim>\<open>iovec\<close>s offer: the kernel stores at most that many
  (\<open>readv_answer\<close> is that documented bound).
\<close>

definition readv_capacity :: "buffer \<Rightarrow> nat" where
  "readv_capacity b = (let writeable = WriteableBytes b
     in if writeable < extrabuf_size then writeable + extrabuf_size else writeable)"

definition readv_answer :: "rd_result \<Rightarrow> buffer \<Rightarrow> bool" where
  "readv_answer r b = (case r of RdErr e \<Rightarrow> True | RdOk bs \<Rightarrow> length bs \<le> readv_capacity b)"

definition ReadFromFd :: "rd_result \<Rightarrow> buffer \<Rightarrow> (int \<times> int option \<times> buffer) res" where
  "ReadFromFd r b =
     (case r of
        RdErr errno \<Rightarrow> Inr (- 1, Some errno, b)
      | RdOk bs \<Rightarrow>
          (let writeable = WriteableBytes b; n = length bs in
           bindR (copy_at (take writeable bs) (WriterIndex b) (buf_bytes b))
             (\<lambda>v. let b = b\<lparr>buf_bytes := v\<rparr> in
               if n \<le> writeable
               then Inr (int n, None, b\<lparr>WriterIndex := sz_add (WriterIndex b) n\<rparr>)
               else bindR (append_buf (drop writeable bs) (b\<lparr>WriterIndex := length v\<rparr>))
                      (\<lambda>b. Inr (int n, None, b)))))"

definition WriteFromFd :: "wr_result \<Rightarrow> buffer \<Rightarrow> int \<times> int option" where
  "WriteFromFd r b = (case r of WrErr errno \<Rightarrow> (- 1, Some errno) | WrOk n \<Rightarrow> (int n, None))"

section \<open>Searching\<close>

text \<open>\<^verbatim>\<open>std::search\<close> for the two bytes of \<^const>\<open>kCRLF\<close> in a byte list.\<close>

fun search_crlf :: "char list \<Rightarrow> nat option" where
  "search_crlf (x # y # zs) =
     (if x = kCRLF ! 0 \<and> y = kCRLF ! 1 then Some 0 else map_option Suc (search_crlf (y # zs)))"
| "search_crlf _ = None"

definition findCRLF :: "buffer \<Rightarrow> nat option" where
  "findCRLF b = map_option (\<lambda>k. ReaderIndex b + k)
     (search_crlf (slice (buf_bytes b) (ReaderIndex b) (WriterIndex b)))"

section \<open>Well-formed buffers\<close>

text \<open>
  The picture of Buffer.h: the indices are ordered and lie inside the vector, and the
  prependable part never shrinks below \<^const>\<open>kCheapPrepend\<close>.
\<close>

definition buf_inv :: "buffer \<Rightarrow> bool" where
  "buf_inv b \<longleftrightarrow> kCheapPrepend \<le> ReaderIndex b \<and> ReaderIndex b \<le> WriterIndex b \<and>
     WriterIndex b \<le> length (buf_bytes b) \<and> length (buf_bytes b) \<le> max_size"

definition readable :: "buffer \<Rightarrow> char list" where
  "readable b = slice (buf_bytes b) (ReaderIndex b) (WriterIndex b)"

definition writeable :: "buffer \<Rightarrow> nat" where
  "writeable b = length (buf_bytes b) - WriterIndex b"

lemma buf_invD:
  assumes "buf_inv b"
  shows "8 \<le> ReaderIndex b" "ReaderIndex b \<le> WriterIndex b"
    "WriterIndex b \<le> length (buf_bytes b)" "length (buf_bytes b) \<le> max_size"
    "length (buf_bytes b) < size_mod" "WriterIndex b < size_mod" "ReaderIndex b < size_mod"
  using assms max_size_below by (auto simp: buf_inv_def kCheapPrepend_def)

lemma buf_sizes [size_arith]:
  assumes "buf_inv b"
  shows "ReadableBytes b = WriterIndex b - ReaderIndex b"
    and "WriteableBytes b = writeable b"
  using buf_invD [OF assms]
  by (simp_all add: ReadableBytes_def WriteableBytes_def writeable_def sz_sub_exact)

lemma length_readable: "buf_inv b \<Longrightarrow> length (readable b) = ReadableBytes b"
  by (simp add: readable_def length_slice buf_invD buf_sizes)

lemma new_Buffer_inv: "n + 8 \<le> max_size \<Longrightarrow> buf_inv (new_Buffer n)"
  by (simp add: buf_inv_def new_Buffer_def kCheapPrepend_def)

lemma new_Buffer_simps [simp]:
  "readable (new_Buffer n) = []" "writeable (new_Buffer n) = n"
  by (simp_all add: readable_def writeable_def new_Buffer_def)

lemma kInitialSize_inv [simp]: "buf_inv (new_Buffer kInitialSize)"
  by (rule new_Buffer_inv) (simp add: kInitialSize_def max_size_def)

subsection \<open>Consuming\<close>

lemma RetrieveAll_inv [simp]: "buf_inv b \<Longrightarrow> buf_inv (RetrieveAll b)"
  by (simp add: RetrieveAll_def buf_inv_def)

lemma readable_RetrieveAll [simp]: "readable (RetrieveAll b) = []"
  by (simp add: readable_def RetrieveAll_def)

lemma retrieve_inv [simp]:
  assumes "buf_inv b"
  shows "buf_inv (retrieve n b)"
proof (cases "n < ReadableBytes b")
  case True
  with buf_invD [OF assms] have "sz_add (ReaderIndex b) n = ReaderIndex b + n"
    by (intro sz_add_exact) (simp add: buf_sizes [OF assms])
  with True assms show ?thesis
    by (simp add: retrieve_def buf_inv_def buf_sizes [OF assms])
next
  case False
  with assms show ?thesis by (simp add: retrieve_def)
qed

lemma readable_retrieve [simp]:
  assumes "buf_inv b"
  shows "readable (retrieve n b) = drop n (readable b)"
proof (cases "n < ReadableBytes b")
  case True
  with buf_invD [OF assms] have "sz_add (ReaderIndex b) n = ReaderIndex b + n"
    by (intro sz_add_exact) (simp add: buf_sizes [OF assms])
  with True show ?thesis by (simp add: retrieve_def readable_def drop_slice)
next
  case False
  with length_readable [OF assms] show ?thesis by (simp add: retrieve_def)
qed

lemma retrieve_bytes [simp]: "buf_bytes (retrieve n b) = buf_bytes b"
  by (simp add: retrieve_def RetrieveAll_def)

lemma RetrieveUntil_eq:
  assumes "buf_inv b" and "ReaderIndex b \<le> p" and "p \<le> WriterIndex b"
  shows "RetrieveUntil p b = retrieve (p - ReaderIndex b) b"
  using buf_invD [OF assms(1)] assms(2,3) by (simp add: RetrieveUntil_def sz_sub_exact)

lemma RetrieveToString_spec:
  assumes "buf_inv b" and "len \<le> ReadableBytes b"
  shows "RetrieveToString len b = Inr (take len (readable b), retrieve len b)"
  using buf_invD [OF assms(1)] assms(2)
  by (simp add: RetrieveToString_def buf_sizes [OF assms(1)] readable_def take_slice)

lemma RetrieveAllToString_spec:
  assumes "buf_inv b"
  shows "RetrieveAllToString b = Inr (readable b, RetrieveAll b)"
  using RetrieveToString_spec [OF assms, of "ReadableBytes b"] length_readable [OF assms]
  by (simp add: RetrieveAllToString_def retrieve_def)

subsection \<open>Appending: whatever it returns is right\<close>

lemma vec_resize_Inr:
  "vec_resize n v = Inr v' \<longleftrightarrow> n \<le> max_size \<and> v' = take n v @ replicate (n - length v) (CHR 0x00)"
  by (auto simp: vec_resize_def)

lemma resize_content:
  assumes inv: "buf_inv b" and m: "m \<le> max_size" and fit: "WriterIndex b \<le> m"
    and b1: "b1 = b\<lparr>buf_bytes := take m (buf_bytes b) @ replicate (m - length (buf_bytes b)) (CHR 0x00)\<rparr>"
  shows "buf_inv b1" and "readable b1 = readable b" and "length (buf_bytes b1) = m"
proof -
  show L: "length (buf_bytes b1) = m" by (simp add: b1)
  show "buf_inv b1"
    using buf_invD [OF inv] inv m fit L by (simp add: buf_inv_def b1 del: length_append)
  show "readable b1 = readable b"
    using buf_invD [OF inv] fit by (simp add: b1 readable_def slice_append1 slice_take)
qed

lemma compact_content:
  assumes inv: "buf_inv b"
    and v: "copy_within (ReaderIndex b) (WriterIndex b) kCheapPrepend (buf_bytes b) = Inr v"
    and b1: "b1 = b\<lparr>buf_bytes := v, ReaderIndex := kCheapPrepend,
                   WriterIndex := sz_add kCheapPrepend (ReadableBytes b)\<rparr>"
  shows "buf_inv b1" and "readable b1 = readable b"
    and "length (buf_bytes b1) = length (buf_bytes b)"
    and "WriterIndex b1 = kCheapPrepend + length (readable b)"
proof -
  note I = buf_invD [OF inv]
  have len: "length (readable b) = ReadableBytes b" by (rule length_readable [OF inv])
  from v have v_eq: "v = take 8 (buf_bytes b) @ readable b @
      drop (8 + length (readable b)) (buf_bytes b)"
    by (auto simp: copy_within_def copy_at_Inr readable_def kCheapPrepend_def split: if_splits)
  have W: "sz_add kCheapPrepend (ReadableBytes b) = kCheapPrepend + length (readable b)"
    using I by (simp add: len kCheapPrepend_def sz_add_exact buf_sizes [OF inv])
  show "readable b1 = readable b"
    using I W slice_middle [of "take 8 (buf_bytes b)" "readable b"]
    by (simp add: b1 v_eq readable_def [of "b\<lparr>buf_bytes := v, ReaderIndex := r, WriterIndex := w\<rparr>" for v r w]
        kCheapPrepend_def)
  show L: "length (buf_bytes b1) = length (buf_bytes b)"
    using I by (simp add: b1 v_eq len buf_sizes [OF inv])
  have "8 + length (readable b) \<le> length (buf_bytes b)"
    using I by (simp add: len buf_sizes [OF inv])
  with L inv show "buf_inv b1" by (simp add: buf_inv_def b1 W kCheapPrepend_def [symmetric])
  show "WriterIndex b1 = kCheapPrepend + length (readable b)"
    by (simp add: b1 W)
qed

lemma EnsureWriteableBytes_content:
  assumes inv: "buf_inv b" and e: "EnsureWriteableBytes n b = Inr b1"
    and fit: "WriterIndex b1 + n \<le> length (buf_bytes b1)"
  shows "buf_inv b1 \<and> readable b1 = readable b"
proof (cases "WriteableBytes b < n")
  case False
  with e inv show ?thesis by (simp add: EnsureWriteableBytes_def)
next
  case True
  with e have m: "MakeSpace n b = Inr b1" by (simp add: EnsureWriteableBytes_def)
  show ?thesis
  proof (cases "sz_add (WriteableBytes b) (PrependBytes b) < sz_add n kCheapPrepend")
    case True
    with m obtain k where k: "k \<le> max_size"
      "b1 = b\<lparr>buf_bytes := take k (buf_bytes b) @ replicate (k - length (buf_bytes b)) (CHR 0x00)\<rparr>"
      by (auto simp: MakeSpace_def vec_resize_Inr bindR_Inr_iff)
    then have "length (buf_bytes b1) \<le> max k (length (buf_bytes b))" by simp
    have "WriterIndex b \<le> k" using fit buf_invD(3) [OF inv] by (auto simp: k(2))
    with resize_content [OF inv k(1) _ k(2)] show ?thesis by blast
  next
    case False
    with m obtain v where
      "copy_within (ReaderIndex b) (WriterIndex b) kCheapPrepend (buf_bytes b) = Inr v"
      "b1 = b\<lparr>buf_bytes := v, ReaderIndex := kCheapPrepend,
             WriterIndex := sz_add kCheapPrepend (ReadableBytes b)\<rparr>"
      by (auto simp: MakeSpace_def Let_def)
    from compact_content [OF inv this] show ?thesis by simp
  qed
qed

lemma write_content:
  assumes inv: "buf_inv b" and v: "copy_at data (WriterIndex b) (buf_bytes b) = Inr v"
    and b1: "b1 = b\<lparr>buf_bytes := v, WriterIndex := sz_add (WriterIndex b) (length data)\<rparr>"
  shows "buf_inv b1"
    and "readable b1 = readable b @ data"
    and "length v = length (buf_bytes b)"
    and "sz_add (WriterIndex b) (length data) = WriterIndex b + length data"
proof -
  note I = buf_invD [OF inv]
  from v have fit: "WriterIndex b + length data \<le> length (buf_bytes b)"
    and v_eq: "v = take (WriterIndex b) (buf_bytes b) @ data @
      drop (WriterIndex b + length data) (buf_bytes b)"
    by (auto simp: copy_at_Inr)
  show W: "sz_add (WriterIndex b) (length data) = WriterIndex b + length data"
    using fit I by (intro sz_add_exact) simp
  show L: "length v = length (buf_bytes b)" using fit by (simp add: v_eq)
  show "buf_inv b1" using I fit inv by (simp add: buf_inv_def b1 W L)
  have "slice v (ReaderIndex b) (WriterIndex b) = readable b"
    using I by (simp add: v_eq slice_append1 slice_take readable_def)
  moreover have "slice v (WriterIndex b) (WriterIndex b + length data) = data"
    using slice_middle [of "take (WriterIndex b) (buf_bytes b)" data] I by (simp add: v_eq)
  ultimately show "readable b1 = readable b @ data"
    using slice_join [of "ReaderIndex b" "WriterIndex b" "WriterIndex b + length data" v] I
    by (simp add: readable_def b1 W)
qed

lemma append_buf_content:
  assumes inv: "buf_inv b" and a: "append_buf data b = Inr b'"
  shows "buf_inv b'" and "readable b' = readable b @ data"
proof -
  from a obtain b1 v where e: "EnsureWriteableBytes (length data) b = Inr b1"
    and v: "copy_at data (WriterIndex b1) (buf_bytes b1) = Inr v"
    and b': "b' = b1\<lparr>buf_bytes := v, WriterIndex := sz_add (WriterIndex b1) (length data)\<rparr>"
    by (auto simp: append_buf_def)
  from v have "WriterIndex b1 + length data \<le> length (buf_bytes b1)" by (simp add: copy_at_Inr)
  from EnsureWriteableBytes_content [OF inv e this]
  have inv1: "buf_inv b1" and r: "readable b1 = readable b" by simp_all
  show "buf_inv b'" "readable b' = readable b @ data"
    using write_content [OF inv1 v b'] by (simp_all add: r)
qed

subsection \<open>Appending: when it returns\<close>

text \<open>
  The three ways an append of \<open>n\<close> bytes finds its room: behind the writer index; after the
  content is moved to the front; in a vector resized to \<open>writeable + n\<close> bytes, which is
  enough only if the writer index is not above the writeable count
  (\<^verbatim>\<open>MakeSpace\<close> resizes to \<^verbatim>\<open>WriteableBytes() + len\<close>, not to
  \<^verbatim>\<open>WriterIndex_ + len\<close>).
\<close>

definition append_fits :: "nat \<Rightarrow> buffer \<Rightarrow> bool" where
  "append_fits n b \<longleftrightarrow> n \<le> writeable b \<or> n + kCheapPrepend \<le> writeable b + ReaderIndex b \<or>
     WriterIndex b \<le> writeable b"

lemma append_in_place:
  assumes inv: "buf_inv b" and n: "length data \<le> writeable b"
  obtains b' where "append_buf data b = Inr b'" and "writeable b' = writeable b - length data"
proof -
  note I = buf_invD [OF inv]
  have "WriterIndex b + length data \<le> length (buf_bytes b)" using n I by (simp add: writeable_def)
  then obtain v where v: "copy_at data (WriterIndex b) (buf_bytes b) = Inr v"
    using copy_at_returns by blast
  note w = write_content [OF inv v refl]
  show thesis
  proof (rule that)
    show "append_buf data b = Inr (b\<lparr>buf_bytes := v, WriterIndex := sz_add (WriterIndex b) (length data)\<rparr>)"
      using n v by (simp add: append_buf_def EnsureWriteableBytes_def buf_sizes [OF inv])
  qed (simp add: writeable_def w)
qed

lemma space_test:
  assumes inv: "buf_inv b" and n: "writeable b + n \<le> max_size"
  shows "sz_add (WriteableBytes b) (PrependBytes b) < sz_add n kCheapPrepend \<longleftrightarrow>
    writeable b + ReaderIndex b < n + kCheapPrepend"
proof -
  note I = buf_invD [OF inv]
  have "sz_add (writeable b) (ReaderIndex b) = writeable b + ReaderIndex b"
    using I by (intro sz_add_exact) (simp add: writeable_def)
  moreover have "sz_add n kCheapPrepend = n + kCheapPrepend"
    using n by (intro sz_add_exact) (simp add: max_size_def size_mod_def kCheapPrepend_def)
  ultimately show ?thesis by (simp add: buf_sizes [OF inv] PrependBytes_def)
qed

lemma MakeSpace_moves:
  assumes inv: "buf_inv b" and big: "writeable b < n" and room: "writeable b + n \<le> max_size"
    and fit: "n + kCheapPrepend \<le> writeable b + ReaderIndex b"
  obtains b1 where "MakeSpace n b = Inr b1" and "WriterIndex b1 + n \<le> length (buf_bytes b1)"
proof -
  note I = buf_invD [OF inv]
  have len: "length (readable b) = WriterIndex b - ReaderIndex b"
    by (simp add: length_readable [OF inv] buf_sizes [OF inv])
  have R: "kCheapPrepend < ReaderIndex b" using big fit by simp
  then have "kCheapPrepend + length (readable b) \<le> length (buf_bytes b)" using I len by simp
  from copy_at_returns [OF this] R obtain v where
    v: "copy_within (ReaderIndex b) (WriterIndex b) kCheapPrepend (buf_bytes b) = Inr v"
    using I by (auto simp: copy_within_def readable_def)
  note c = compact_content [OF inv v refl]
  show thesis
  proof (rule that)
    show "MakeSpace n b = Inr (b\<lparr>buf_bytes := v, ReaderIndex := kCheapPrepend,
        WriterIndex := sz_add kCheapPrepend (ReadableBytes b)\<rparr>)"
      using fit v by (simp add: MakeSpace_def space_test [OF inv room] Let_def)
  next
    have "kCheapPrepend + length (readable b) + n \<le> length (buf_bytes b)"
      using fit I by (simp add: len writeable_def)
    then show "WriterIndex (b\<lparr>buf_bytes := v, ReaderIndex := kCheapPrepend,
        WriterIndex := sz_add kCheapPrepend (ReadableBytes b)\<rparr>) + n \<le>
        length (buf_bytes (b\<lparr>buf_bytes := v, ReaderIndex := kCheapPrepend,
        WriterIndex := sz_add kCheapPrepend (ReadableBytes b)\<rparr>))"
      by (simp only: c)
  qed
qed

lemma MakeSpace_resizes:
  assumes inv: "buf_inv b" and room: "writeable b + n \<le> max_size"
    and nofit: "writeable b + ReaderIndex b < n + kCheapPrepend"
  shows "MakeSpace n b = Inr (b\<lparr>buf_bytes := take (writeable b + n) (buf_bytes b) @
    replicate (writeable b + n - length (buf_bytes b)) (CHR 0x00)\<rparr>)"
proof -
  have "sz_add (WriteableBytes b) n = writeable b + n"
    using room max_size_below by (simp add: buf_sizes [OF inv] sz_add_exact)
  with nofit room show ?thesis
    by (simp add: MakeSpace_def space_test [OF inv room] vec_resize_def)
qed

lemma append_buf_cases:
  assumes inv: "buf_inv b" and room: "writeable b + length data \<le> max_size"
  shows "if append_fits (length data) b then \<exists>b'. append_buf data b = Inr b'
         else append_buf data b = Inl OutOfBounds"
proof (cases "length data \<le> writeable b")
  case True
  then have "append_fits (length data) b" by (simp add: append_fits_def)
  with append_in_place [OF inv True] show ?thesis by (metis (full_types))
next
  case big: False
  then have E: "EnsureWriteableBytes (length data) b = MakeSpace (length data) b"
    by (simp add: EnsureWriteableBytes_def buf_sizes [OF inv])
  show ?thesis
  proof (cases "length data + kCheapPrepend \<le> writeable b + ReaderIndex b")
    case True
    from big have "writeable b < length data" by simp
    from MakeSpace_moves [OF inv this room True] obtain b1 where
      "MakeSpace (length data) b = Inr b1" "WriterIndex b1 + length data \<le> length (buf_bytes b1)" .
    with True show ?thesis by (simp add: append_fits_def append_buf_def E copy_at_def)
  next
    case False
    then have "writeable b + ReaderIndex b < length data + kCheapPrepend" by simp
    from MakeSpace_resizes [OF inv room this] big False show ?thesis
      by (auto simp: append_fits_def append_buf_def E copy_at_def)
  qed
qed

text \<open>
  C15. Appending is exact: on a well-formed buffer the bytes are added behind the content and
  the buffer stays well formed, or the write leaves the vector, and it leaves the vector
  exactly when none of the three ways of \<^const>\<open>append_fits\<close> applies: the space behind
  the writer and in front of the reader is too small and the writer index is above the
  writeable count, so that the vector \<^verbatim>\<open>MakeSpace\<close> resizes is too short.
\<close>

theorem append_buf_exact:
  assumes "buf_inv b" and "writeable b + length data \<le> max_size"
  shows "if append_fits (length data) b
         then \<exists>b'. append_buf data b = Inr b' \<and> buf_inv b' \<and> readable b' = readable b @ data
         else append_buf data b = Inl OutOfBounds"
  using append_buf_cases [OF assms] append_buf_content [OF assms(1)] by (auto split: if_splits)

lemma max_size_big: "1000000 \<le> max_size"
  by (simp add: max_size_def)

text \<open>
  At a full buffer of 1024 bytes one more byte is already written out of the vector; an empty
  one takes a block of 2000.
\<close>

theorem append_buf_exact_witness:
  "append_buf ''x'' \<lparr>buf_bytes = replicate 1032 (CHR ''a''), ReaderIndex = 8, WriterIndex = 1032\<rparr>
     = Inl OutOfBounds \<and>
   (\<exists>b'. append_buf (replicate 2000 (CHR ''b'')) (new_Buffer 1024) = Inr b' \<and>
      readable b' = replicate 2000 (CHR ''b''))"
proof
  let ?full = "\<lparr>buf_bytes = replicate 1032 (CHR ''a''), ReaderIndex = 8, WriterIndex = 1032\<rparr>"
  have w: "writeable ?full = 0" by (simp add: writeable_def)
  have "buf_inv ?full" using max_size_big by (simp add: buf_inv_def kCheapPrepend_def)
  moreover have "writeable ?full + length ''x'' \<le> max_size"
    using max_size_big by (simp add: w)
  moreover have "\<not> append_fits (length ''x'') ?full"
    by (simp add: append_fits_def w kCheapPrepend_def)
  ultimately show "append_buf ''x'' ?full = Inl OutOfBounds"
    using append_buf_exact [of ?full "''x''"] by simp
next
  let ?data = "replicate 2000 (CHR ''b'')" and ?b = "new_Buffer 1024"
  have "buf_inv ?b" using max_size_big by (intro new_Buffer_inv) simp
  moreover have "writeable ?b + length ?data \<le> max_size"
    using max_size_big by simp
  moreover have "append_fits (length ?data) ?b"
    by (simp add: append_fits_def new_Buffer_def writeable_def kCheapPrepend_def)
  ultimately show "\<exists>b'. append_buf ?data ?b = Inr b' \<and> readable b' = ?data"
    using append_buf_exact [of ?b ?data] by auto
qed

section \<open>The interface of the clients\<close>

text \<open>
  What \<^verbatim>\<open>TcpConnection\<close>, \<^verbatim>\<open>HttpRequest\<close> and \<^verbatim>\<open>HttpResponse\<close> rely on: a
  buffer is a queue of bytes. Putting adds behind the content if it returns, it does return
  while the free room lasts, and skipping removes from the front.
\<close>

locale byte_queue =
  fixes inv :: "'b \<Rightarrow> bool"
    and content :: "'b \<Rightarrow> char list"
    and room :: "'b \<Rightarrow> nat"
    and put :: "char list \<Rightarrow> 'b \<Rightarrow> 'b res"
    and skip :: "nat \<Rightarrow> 'b \<Rightarrow> 'b"
  assumes put_sound: "inv b \<Longrightarrow> put xs b = Inr b' \<Longrightarrow> inv b' \<and> content b' = content b @ xs"
    and put_room: "inv b \<Longrightarrow> length xs \<le> room b \<Longrightarrow>
      \<exists>b'. put xs b = Inr b' \<and> room b' = room b - length xs"
    and skip_sound: "inv b \<Longrightarrow> inv (skip n b) \<and> content (skip n b) = drop n (content b)"
begin

lemma put_all_sound:
  "inv b \<Longrightarrow> foldR put xss b = Inr b' \<Longrightarrow> inv b' \<and> content b' = content b @ concat xss"
proof (induction xss arbitrary: b)
  case Nil
  then show ?case by simp
next
  case (Cons xs xss)
  from Cons.prems(2) obtain c where c: "put xs b = Inr c" "foldR put xss c = Inr b'" by auto
  from put_sound [OF Cons.prems(1) c(1)] Cons.IH [OF _ c(2)] show ?case by auto
qed

lemma put_all_returns:
  "inv b \<Longrightarrow> length (concat xss) \<le> room b \<Longrightarrow>
     \<exists>b'. foldR put xss b = Inr b' \<and> room b' = room b - length (concat xss)"
proof (induction xss arbitrary: b)
  case Nil
  then show ?case by simp
next
  case (Cons xs xss)
  from Cons.prems put_room [of b xs] obtain c
    where c: "put xs b = Inr c" "room c = room b - length xs" by auto
  moreover have "inv c" using put_sound [OF Cons.prems(1) c(1)] by blast
  ultimately have "\<exists>b'. foldR put xss c = Inr b' \<and> room b' = room c - length (concat xss)"
    using Cons.prems(2) by (intro Cons.IH) auto
  with c show ?case by auto
qed

lemma put_skip: "inv b \<Longrightarrow> put xs b = Inr b' \<Longrightarrow> content (skip (length (content b)) b') = xs"
  using put_sound skip_sound by fastforce

lemma skip_put:
  "inv b \<Longrightarrow> n \<le> length (content b) \<Longrightarrow> put xs b = Inr b' \<Longrightarrow> put xs (skip n b) = Inr c \<Longrightarrow>
     content c = content (skip n b')"
  using put_sound [of b xs b'] put_sound [of "skip n b" xs c] skip_sound [of b n] skip_sound [of b' n]
  by simp

end

interpretation buf: byte_queue buf_inv readable writeable append_buf retrieve
proof
  show "buf_inv b \<Longrightarrow> append_buf xs b = Inr b' \<Longrightarrow> buf_inv b' \<and> readable b' = readable b @ xs"
    for b xs b'
    using append_buf_content by blast
  show "buf_inv b \<Longrightarrow> length xs \<le> writeable b \<Longrightarrow>
      \<exists>b'. append_buf xs b = Inr b' \<and> writeable b' = writeable b - length xs" for b xs
    by (metis append_in_place)
qed simp

lemmas buffer_facts = buf.put_sound buf.put_room buf.put_all_sound buf.put_all_returns

section \<open>Reading from the descriptor\<close>

lemma ReadFromFd_cases:
  assumes "buf_inv b" and "readv_answer (RdOk bs) b"
  shows "if length bs \<le> writeable b + (ReaderIndex b - kCheapPrepend)
         then \<exists>b'. ReadFromFd (RdOk bs) b = Inr (int (length bs), None, b') \<and>
                buf_inv b' \<and> readable b' = readable b @ bs
         else ReadFromFd (RdOk bs) b = Inl OutOfBounds"
proof (cases "length bs \<le> writeable b")
  case True
  note I = buf_invD [OF assms(1)]
  have "WriterIndex b + length bs \<le> length (buf_bytes b)" using True I by (simp add: writeable_def)
  from copy_at_returns [OF this] obtain v where v: "copy_at bs (WriterIndex b) (buf_bytes b) = Inr v"
    by blast
  with True write_content [OF assms(1) v refl] show ?thesis
    by (simp add: ReadFromFd_def buf_sizes [OF assms(1)] Let_def)
next
  case False
  note I = buf_invD [OF assms(1)]
  let ?w = "writeable b" and ?rest = "drop (writeable b) bs"
  have len: "length (take ?w bs) = ?w" using False by simp
  have "WriterIndex b + length (take ?w bs) \<le> length (buf_bytes b)"
    using I by (simp add: len writeable_def)
  from copy_at_returns [OF this] obtain v
    where v: "copy_at (take ?w bs) (WriterIndex b) (buf_bytes b) = Inr v" by blast
  define c where "c = b\<lparr>buf_bytes := v, WriterIndex := length v\<rparr>"
  from write_content [OF assms(1) v refl] len I(3)
  have lv: "length v = WriterIndex b + ?w"
    and c: "buf_inv c" "readable c = readable b @ take ?w bs"
    by (auto simp: c_def writeable_def)
  have room: "length ?rest \<le> extrabuf_size"
    using assms False by (auto simp: readv_answer_def readv_capacity_def buf_sizes [OF assms(1)]
        Let_def split: if_splits)
  have w0: "writeable c = 0" by (simp add: c_def writeable_def)
  have idx: "ReaderIndex c = ReaderIndex b" "WriterIndex c = length v" by (simp_all add: c_def)
  have fits: "append_fits (length ?rest) c \<longleftrightarrow> length bs \<le> ?w + (ReaderIndex b - kCheapPrepend)"
    using False I lv by (auto simp: append_fits_def w0 idx kCheapPrepend_def)
  have "writeable c + length ?rest \<le> max_size"
    using room max_size_big by (simp add: w0 extrabuf_size_def)
  from append_buf_cases [OF c(1) this] append_buf_content [OF c(1), of ?rest] c(2) fits
  have "if length bs \<le> ?w + (ReaderIndex b - kCheapPrepend)
        then \<exists>b'. append_buf ?rest c = Inr b' \<and> buf_inv b' \<and> readable b' = readable b @ bs
        else append_buf ?rest c = Inl OutOfBounds"
    by (auto split: if_splits)
  moreover have "ReadFromFd (RdOk bs) b =
      bindR (append_buf ?rest c) (\<lambda>b. Inr (int (length bs), None, b))"
    using False v by (simp add: ReadFromFd_def buf_sizes [OF assms(1)] c_def)
  ultimately show ?thesis by (auto split: if_splits)
qed

text \<open>
  C23. \<^verbatim>\<open>ReadFromFd\<close> on the bytes \<open>bs\<close> that \<^verbatim>\<open>readv\<close> delivered: the bytes
  are added behind the content, and the number of bytes is returned, exactly when they fit
  behind the writer and into the gap in front of the reader. Every larger read, which the
  65536 bytes of \<^verbatim>\<open>extrabuf\<close> are there to allow, is written out of the vector.
\<close>

theorem ReadFromFd_exact:
  assumes "buf_inv b" and "readv_answer (RdOk bs) b"
  shows "if length bs \<le> writeable b + (ReaderIndex b - kCheapPrepend)
         then \<exists>b'. ReadFromFd (RdOk bs) b = Inr (int (length bs), None, b') \<and>
                buf_inv b' \<and> readable b' = readable b @ bs
         else ReadFromFd (RdOk bs) b = Inl OutOfBounds"
  by (rule ReadFromFd_cases [OF assms])

theorem ReadFromFd_exact_witness:
  "ReadFromFd (RdOk (replicate 1025 (CHR ''a''))) (new_Buffer 1024) = Inl OutOfBounds"
proof -
  let ?b = "new_Buffer 1024" and ?bs = "replicate 1025 (CHR ''a'')"
  have inv: "buf_inv ?b" using max_size_big by (intro new_Buffer_inv) simp
  moreover have "readv_answer (RdOk ?bs) ?b"
    by (simp add: readv_answer_def readv_capacity_def buf_sizes [OF inv] extrabuf_size_def)
  moreover have "ReaderIndex ?b = kCheapPrepend" by (simp add: new_Buffer_def)
  ultimately show ?thesis using ReadFromFd_exact [of ?b ?bs] by simp
qed

section \<open>Round trip\<close>

text \<open>
  What was appended is what is read back: after any sequence of appends that returned,
  \<^verbatim>\<open>RetrieveAllToString\<close> answers with the earlier content followed by the appended
  blocks in order, and leaves an empty buffer; while the blocks fit into the free room the
  sequence of appends does return.
\<close>

theorem append_retrieve_roundtrip:
  assumes "buf_inv b"
  shows "(\<forall>b'. foldR append_buf xss b = Inr b' \<longrightarrow>
           RetrieveAllToString b' = Inr (readable b @ concat xss, RetrieveAll b')) \<and>
         (length (concat xss) \<le> writeable b \<longrightarrow> (\<exists>b'. foldR append_buf xss b = Inr b'))"
proof (intro conjI allI impI)
  fix b'
  assume "foldR append_buf xss b = Inr b'"
  from buf.put_all_sound [OF assms this]
  show "RetrieveAllToString b' = Inr (readable b @ concat xss, RetrieveAll b')"
    using RetrieveAllToString_spec [of b'] by simp
next
  assume "length (concat xss) \<le> writeable b"
  with buf.put_all_returns [OF assms] show "\<exists>b'. foldR append_buf xss b = Inr b'" by blast
qed

theorem append_retrieve_roundtrip_witness:
  "\<exists>b'. foldR append_buf [''GET '', ''/''] (new_Buffer 1024) = Inr b' \<and>
     RetrieveAllToString b' = Inr (''GET /'', RetrieveAll b')"
proof -
  have "buf_inv (new_Buffer 1024)" using max_size_big by (intro new_Buffer_inv) simp
  from append_retrieve_roundtrip [OF this, of "[''GET '', ''/'']"] show ?thesis by auto
qed

section \<open>Searching\<close>

definition crlf_at :: "char list \<Rightarrow> nat \<Rightarrow> bool" where
  "crlf_at xs i \<longleftrightarrow> Suc i < length xs \<and> xs ! i = CHR 0x0D \<and> xs ! Suc i = CHR 0x0A"

lemma crlf_at_Cons_Suc: "crlf_at (x # xs) (Suc i) \<longleftrightarrow> crlf_at xs i"
  by (simp add: crlf_at_def)

lemma search_crlf_Some:
  "search_crlf xs = Some k \<longleftrightarrow> crlf_at xs k \<and> (\<forall>j<k. \<not> crlf_at xs j)"
proof (induction xs arbitrary: k rule: search_crlf.induct)
  case (1 x y zs)
  have hd: "crlf_at (x # y # zs) 0 \<longleftrightarrow> x = CHR 0x0D \<and> y = CHR 0x0A" by (simp add: crlf_at_def)
  show ?case
  proof (cases "crlf_at (x # y # zs) 0")
    case True
    then have "search_crlf (x # y # zs) = Some 0" by (simp add: hd kCRLF_def)
    with True show ?thesis by (metis less_nat_zero_code linorder_neqE_nat option.inject)
  next
    case False
    then have "search_crlf (x # y # zs) = Some k \<longleftrightarrow> (\<exists>j. k = Suc j \<and> search_crlf (y # zs) = Some j)"
      by (auto simp: hd kCRLF_def)
    with False 1 show ?thesis
      by (cases k) (auto simp: hd kCRLF_def crlf_at_Cons_Suc All_less_Suc2)
  qed
qed (auto simp: crlf_at_def)

lemma search_crlf_None: "search_crlf xs = None \<longleftrightarrow> (\<forall>j. \<not> crlf_at xs j)"
proof
  assume none: "search_crlf xs = None"
  show "\<forall>j. \<not> crlf_at xs j"
  proof (rule ccontr)
    assume "\<not> (\<forall>j. \<not> crlf_at xs j)"
    then obtain j where "crlf_at xs j" by blast
    then obtain k where "crlf_at xs k" "\<forall>i<k. \<not> crlf_at xs i"
      using exists_least_iff [of "crlf_at xs"] by blast
    then have "search_crlf xs = Some k" by (simp add: search_crlf_Some)
    with none show False by simp
  qed
next
  assume "\<forall>j. \<not> crlf_at xs j"
  then show "search_crlf xs = None"
    using search_crlf_Some [of xs "the (search_crlf xs)"] by (cases "search_crlf xs") simp_all
qed

lemma search_crlf_line:
  assumes "CHR 0x0D \<notin> set line"
  shows "search_crlf (line @ kCRLF @ rest) = Some (length line)"
proof -
  have "\<not> crlf_at (line @ kCRLF @ rest) j" if "j < length line" for j
  proof
    assume "crlf_at (line @ kCRLF @ rest) j"
    then have "line ! j = CHR 0x0D" using that by (simp add: crlf_at_def nth_append)
    with assms nth_mem [OF that] show False by simp
  qed
  moreover have "crlf_at (line @ kCRLF @ rest) (length line)"
    by (simp add: crlf_at_def kCRLF_def nth_append)
  ultimately show ?thesis by (simp add: search_crlf_Some)
qed

lemma findCRLF_Some:
  assumes "findCRLF b = Some p" and "buf_inv b"
  shows "ReaderIndex b \<le> p" and "p + 2 \<le> WriterIndex b"
    and "buf_bytes b ! p = CHR 0x0D" and "buf_bytes b ! Suc p = CHR 0x0A"
proof -
  note I = buf_invD [OF assms(2)]
  from assms(1) obtain k where k: "p = ReaderIndex b + k" "crlf_at (readable b) k"
    by (auto simp: findCRLF_def readable_def search_crlf_Some)
  then have "Suc k < WriterIndex b - ReaderIndex b"
    using length_readable [OF assms(2)] by (simp add: crlf_at_def buf_sizes [OF assms(2)])
  with k I show "ReaderIndex b \<le> p" "p + 2 \<le> WriterIndex b"
    "buf_bytes b ! p = CHR 0x0D" "buf_bytes b ! Suc p = CHR 0x0A"
    by (auto simp: crlf_at_def readable_def slice_nth)
qed

text \<open>
  What the readers of a line oriented protocol rely on: a byte queue whose first line end can
  be found, whose front line can be read, and that can be skipped behind the line end.
\<close>

locale line_queue = byte_queue inv content room put skip
  for inv :: "'b \<Rightarrow> bool" and content room put skip +
  fixes front :: "'b \<Rightarrow> nat"
    and line_end :: "'b \<Rightarrow> nat option"
    and between :: "'b \<Rightarrow> nat \<Rightarrow> nat \<Rightarrow> char list"
    and skip_to :: "nat \<Rightarrow> 'b \<Rightarrow> 'b"
  assumes line_end_law: "line_end b = map_option (\<lambda>k. front b + k) (search_crlf (content b))"
    and between_law: "inv b \<Longrightarrow> line_end b = Some p \<Longrightarrow>
      between b (front b) p = take (p - front b) (content b)"
    and skip_to_law: "inv b \<Longrightarrow> line_end b = Some p \<Longrightarrow> skip_to (p + 2) b = skip (p + 2 - front b) b"
begin

lemma next_line:
  assumes "inv b" and "line_end b = Some p"
  obtains k where "search_crlf (content b) = Some k" and "p = front b + k"
    and "between b (front b) p = take k (content b)"
    and "inv (skip_to (p + 2) b)" and "content (skip_to (p + 2) b) = drop (k + 2) (content b)"
    and "k + 2 \<le> length (content b)"
proof -
  from assms(2) obtain k where k: "search_crlf (content b) = Some k" "p = front b + k"
    by (auto simp: line_end_law)
  have len: "k + 2 \<le> length (content b)" using k(1) by (simp add: search_crlf_Some crlf_at_def)
  have "skip_to (p + 2) b = skip (k + 2) b" using skip_to_law [OF assms] k(2) by simp
  with that [OF k] between_law [OF assms] skip_sound [OF assms(1)] k(2) len show thesis by simp
qed

lemma no_line: "line_end b = None \<longleftrightarrow> search_crlf (content b) = None"
  by (simp add: line_end_law)

lemma line_shrinks:
  assumes "inv b" and "line_end b = Some p"
  shows "length (content (skip_to (p + 2) b)) < length (content b)"
  by (rule next_line [OF assms]) simp

lemma put_line:
  assumes "inv b" and "content b = []" and "CHR 0x0D \<notin> set line"
    and "put (line @ kCRLF @ rest) b = Inr b'"
  shows "line_end b' = Some (front b' + length line)"
proof -
  have "content b' = line @ kCRLF @ rest" using put_sound [OF assms(1,4)] assms(2) by simp
  then show ?thesis using search_crlf_line [OF assms(3), of rest] by (simp add: line_end_law)
qed

end

interpretation lines: line_queue buf_inv readable writeable append_buf retrieve
  ReaderIndex findCRLF "\<lambda>b. slice (buf_bytes b)" RetrieveUntil
proof
  fix b p
  show "findCRLF b = map_option (\<lambda>k. ReaderIndex b + k) (search_crlf (readable b))"
    by (simp add: findCRLF_def readable_def)
  assume inv: "buf_inv b" and f: "findCRLF b = Some p"
  note F = findCRLF_Some [OF f inv] and I = buf_invD [OF inv]
  show "slice (buf_bytes b) (ReaderIndex b) p = take (p - ReaderIndex b) (readable b)"
    using F by (simp add: readable_def take_slice)
  show "RetrieveUntil (p + 2) b = retrieve (p + 2 - ReaderIndex b) b"
    using RetrieveUntil_eq [OF inv, of "p + 2"] F by simp
qed

text \<open>
  \<^verbatim>\<open>findCRLF\<close> finds the first line end of the content and nothing else: it answers
  with a position inside the readable part at which the bytes CR and LF stand, no earlier
  position of the readable part has them, and it answers with no position only if the
  content holds no line end.
\<close>

theorem findCRLF_first:
  assumes "buf_inv b"
  shows "case findCRLF b of
           None \<Rightarrow> \<forall>j. \<not> crlf_at (readable b) j
         | Some p \<Rightarrow> ReaderIndex b \<le> p \<and> p + 2 \<le> WriterIndex b \<and>
             slice (buf_bytes b) p (p + 2) = kCRLF \<and>
             (\<forall>j. ReaderIndex b + j < p \<longrightarrow> \<not> crlf_at (readable b) j)"
proof (cases "findCRLF b")
  case None
  then have "\<forall>j. \<not> crlf_at (readable b) j"
    by (simp add: findCRLF_def readable_def search_crlf_None)
  with None show ?thesis by simp
next
  case (Some p)
  note F = findCRLF_Some [OF Some assms] and I = buf_invD [OF assms]
  have "slice (buf_bytes b) p (p + 2) = kCRLF"
    using F I by (simp add: slice_Cons kCRLF_def)
  moreover have "\<not> crlf_at (readable b) j" if "ReaderIndex b + j < p" for j
    using Some that by (auto simp: findCRLF_def readable_def search_crlf_Some)
  ultimately show ?thesis using Some F by simp
qed

theorem findCRLF_first_witness:
  "\<exists>b'. append_buf (''ab'' @ kCRLF @ ''c'') (new_Buffer 1024) = Inr b' \<and> findCRLF b' = Some 10 \<and>
     slice (buf_bytes b') 10 12 = kCRLF"
proof -
  let ?d = "''ab'' @ kCRLF @ ''c''"
  have inv: "buf_inv (new_Buffer 1024)" using max_size_big by (intro new_Buffer_inv) simp
  obtain b' where b': "append_buf ?d (new_Buffer 1024) = Inr b'" "ReaderIndex b' = 8"
    by (auto simp: append_buf_def EnsureWriteableBytes_def copy_at_def new_Buffer_def
        WriteableBytes_def kCheapPrepend_def sz_sub_def size_mod_def kCRLF_def)
  from append_buf_content [OF inv b'(1)] have b'_inv: "buf_inv b'" and r: "readable b' = ?d"
    by simp_all
  have "search_crlf (readable b') = Some 2" unfolding r by (simp add: kCRLF_def)
  then have "findCRLF b' = Some 10" using b'(2) by (simp add: findCRLF_def readable_def)
  with findCRLF_first [OF b'_inv] b'(1) show ?thesis by simp
qed

end
