(* ===== verification/Tcp_Connection.thy ===== *)
theory Tcp_Connection
  imports Event_Loop Byte_Buffer "HOL-Library.Sublist"
begin

text \<open>
  \<^verbatim>\<open>TcpConnection\<close> of include/net/TcpConnection.h and src/net/TcpConnection.cpp. The state
  extends that of the event loop by the connections, the kernel's sockets and the memory that
  callers hand pointers into. A connection, a caller's string and a caller's buffer are
  addressed by numbers. The system calls on sockets are parameters over a state \<open>'s\<close>; running a
  user's callback is a parameter \<open>usr\<close> that may change the whole state.
\<close>

section \<open>State\<close>

datatype conn_state = kDisconnected | kDisconnecting | kConnecting | kConnected

record 'x tcp_connection =
  state :: conn_state
  conn_name :: string
  conn_fd :: int
  channel_of :: nat
  ConnectionCallback :: "'x option"
  MessageCallback :: "'x option"
  WriteCompleteCallback :: "'x option"
  conn_CloseCallback :: "'x option"
  HighWaterMarkCallback :: "'x option"
  HighWaterMark :: nat
  InputBuffer :: buffer
  OutputBuffer :: buffer

text \<open>The setters, and the tests of the state. A callback may be empty.\<close>

definition conn_SetConnectionCallback :: "'x option \<Rightarrow> 'x tcp_connection \<Rightarrow> 'x tcp_connection" where
  [simp]: "conn_SetConnectionCallback f conn = conn\<lparr>ConnectionCallback := f\<rparr>"

definition conn_SetMessageCallback :: "'x option \<Rightarrow> 'x tcp_connection \<Rightarrow> 'x tcp_connection" where
  [simp]: "conn_SetMessageCallback f conn = conn\<lparr>MessageCallback := f\<rparr>"

definition conn_SetWriteCompleteCallback :: "'x option \<Rightarrow> 'x tcp_connection \<Rightarrow> 'x tcp_connection" where
  [simp]: "conn_SetWriteCompleteCallback f conn = conn\<lparr>WriteCompleteCallback := f\<rparr>"

definition conn_SetCloseCallback :: "'x option \<Rightarrow> 'x tcp_connection \<Rightarrow> 'x tcp_connection" where
  [simp]: "conn_SetCloseCallback f conn = conn\<lparr>conn_CloseCallback := f\<rparr>"

definition SetHighWaterMarkCallback :: "'x option \<Rightarrow> 'x tcp_connection \<Rightarrow> 'x tcp_connection" where
  [simp]: "SetHighWaterMarkCallback f conn = conn\<lparr>HighWaterMarkCallback := f\<rparr>"

definition connected :: "'x tcp_connection \<Rightarrow> bool" where
  "connected conn \<longleftrightarrow> state conn = kConnected"

definition disconnected :: "'x tcp_connection \<Rightarrow> bool" where
  "disconnected conn \<longleftrightarrow> state conn = kDisconnected"

text \<open>
  \<^verbatim>\<open>HandleError\<close> only logs: the number it logs, from the outcome of \<^verbatim>\<open>getsockopt\<close>
  (whether it fails, the option's value, \<^verbatim>\<open>errno\<close>).
\<close>

definition HandleError :: "bool \<Rightarrow> int \<Rightarrow> int \<Rightarrow> int" where
  "HandleError fails opt errno = (if fails then errno else opt)"

text \<open>A call of a user's callback with the arguments the code gives it.\<close>

datatype 'x user_call =
    ConnectionCall 'x nat
  | MessageCall 'x nat timestamp
  | WriteCompleteCall 'x nat
  | CloseCall 'x nat
  | HighWaterMarkCall 'x nat nat

text \<open>
  The pointers a sender may bind: into a string, or to a position of the vector of a buffer
  that had a given length then (a vector whose length has changed since may have moved).
\<close>

datatype buffer_ref = InputOf nat | UserBuffer nat

datatype data_ptr = StringData nat | BufferData buffer_ref nat nat

datatype 'x conn_functor =
    SendInLoopF nat data_ptr nat
  | ShutdownInLoopF nat
  | UserCallF "'x user_call"
  | ConnectEstablishedF nat
  | ConnectDestoryedF nat

text \<open>The callbacks on the channels of connections, and the one of an acceptor's channel.\<close>

datatype conn_handler = HeadleReadOf nat | HandleWriteOf nat | AcceptorRead

record ('t, 'k, 'e, 's, 'x) net = "('t, conn_handler, 'k, 'e, 'x conn_functor) event_loop" +
  conns :: "nat \<Rightarrow> 'x tcp_connection"
  conn_alive :: "nat \<Rightarrow> bool"
  sockets :: 's
  strings :: "nat \<Rightarrow> string option"
  user_buffers :: "nat \<Rightarrow> buffer option"

record ('k, 'e, 's) net_sys =
  lsys :: "('k, 'e) loop_sys"
  sys_read :: "'s \<Rightarrow> int \<Rightarrow> nat \<Rightarrow> rd_result \<times> 's"
  sys_write :: "'s \<Rightarrow> int \<Rightarrow> char list \<Rightarrow> wr_result \<times> 's"
  sys_shutdown :: "'s \<Rightarrow> int \<Rightarrow> bool \<times> 's"

definition EAGAIN :: int where "EAGAIN = 11"
definition EPIPE :: int where "EPIPE = 32"
definition ECONNRESET :: int where "ECONNRESET = 104"

definition upd_conn :: "nat \<Rightarrow> ('x tcp_connection \<Rightarrow> 'x tcp_connection) \<Rightarrow>
    ('t, 'k, 'e, 's, 'x, 'z) net_scheme \<Rightarrow> ('t, 'k, 'e, 's, 'x, 'z) net_scheme" where
  "upd_conn c f w = w\<lparr>conns := (conns w)(c := f (conns w c))\<rparr>"

definition conn_chan :: "('t, 'k, 'e, 's, 'x, 'z) net_scheme \<Rightarrow> nat \<Rightarrow> conn_handler handler channel" where
  "conn_chan w c = chans (poller_of w) (channel_of (conns w c))"

text \<open>
  The constructor, given the channel's address. \<^verbatim>\<open>SetKeepAlive\<close> only sets an option of the
  socket. No close and no error callback is set on the channel.
\<close>

definition new_TcpConnection :: "nat \<Rightarrow> string \<Rightarrow> int \<Rightarrow> nat \<Rightarrow>
    ('t, 'k, 'e, 's, 'x, 'z) net_scheme \<Rightarrow> ('t, 'k, 'e, 's, 'x, 'z) net_scheme" where
  "new_TcpConnection c name sockfd r w =
     upd_conn c (\<lambda>_. \<lparr>state = kConnecting, conn_name = name, conn_fd = sockfd, channel_of = r,
         ConnectionCallback = None, MessageCallback = None, WriteCompleteCallback = None,
         conn_CloseCallback = None, HighWaterMarkCallback = None,
         HighWaterMark = 64 * 1024 * 1024,
         InputBuffer = new_Buffer kInitialSize, OutputBuffer = new_Buffer kInitialSize\<rparr>)
       (w\<lparr>conn_alive := (conn_alive w)(c := True),
          poller_of := upd_chan r (\<lambda>_. SetWriteCallback (Handler (HandleWriteOf c))
             (SetReadCallback (Handler (HeadleReadOf c)) (new_Channel sockfd))) (poller_of w)\<rparr>)"

section \<open>Sending\<close>

definition queue_user :: "('k, 'e, 's) net_sys \<Rightarrow> 'x user_call \<Rightarrow>
    ('t, 'k, 'e, 's, 'x, 'z) net_scheme \<Rightarrow> ('t, 'k, 'e, 's, 'x, 'z) net_scheme" where
  "queue_user sys u w = QueueInLoop (lsys sys) True (UserF (UserCallF u)) w"

text \<open>
  The direct write of \<^verbatim>\<open>SendInLoop\<close>: how many bytes are written, how many remain, whether the
  connection is broken.
\<close>

definition write_direct :: "('k, 'e, 's) net_sys \<Rightarrow> nat \<Rightarrow> char list \<Rightarrow>
    ('t, 'k, 'e, 's, 'x, 'z) net_scheme \<Rightarrow>
    nat \<times> nat \<times> bool \<times> ('t, 'k, 'e, 's, 'x, 'z) net_scheme" where
  "write_direct sys c data w =
     (let conn = conns w c; len = length data in
      if \<not> isWriting (conn_chan w c) \<and> ReadableBytes (OutputBuffer conn) = 0 then
        (case sys_write sys (sockets w) (fd (conn_chan w c)) data of
           (WrOk nwrite, s) \<Rightarrow>
             (let w = w\<lparr>sockets := s\<rparr>; remain = sz_sub len nwrite in
              (nwrite, remain, False,
               case WriteCompleteCallback conn of
                 Some f \<Rightarrow> if remain = 0 then queue_user sys (WriteCompleteCall f c) w else w
               | None \<Rightarrow> w))
         | (WrErr errno, s) \<Rightarrow>
             (0, len, errno \<noteq> EAGAIN \<and> (errno = EPIPE \<or> errno = ECONNRESET), w\<lparr>sockets := s\<rparr>))
      else (0, len, False, w))"

text \<open>The second half: what is left goes to the output buffer, with writing enabled.\<close>

definition keep_rest :: "('k, 'e, 's) net_sys \<Rightarrow> nat \<Rightarrow> char list \<Rightarrow>
    ('t, 'k, 'e, 's, 'x, 'z) net_scheme \<Rightarrow> ('t, 'k, 'e, 's, 'x, 'z) net_scheme res" where
  "keep_rest sys c rest w =
     (let conn = conns w c;
          bufremain = ReadableBytes (OutputBuffer conn);
          remain = length rest;
          w = (case HighWaterMarkCallback conn of
                 Some f \<Rightarrow> if HighWaterMark conn \<le> sz_add bufremain remain \<and> bufremain < HighWaterMark conn
                           then queue_user sys (HighWaterMarkCall f c (sz_add bufremain remain)) w else w
               | None \<Rightarrow> w)
      in bindR (append_buf rest (OutputBuffer conn))
           (\<lambda>b. let w = upd_conn c (\<lambda>conn. conn\<lparr>OutputBuffer := b\<rparr>) w in
             if \<not> isWriting (conn_chan w c)
             then with_poller (EnableWriting (sys_ctl (lsys sys)) (channel_of conn)) w
             else Inr w))"

text \<open>On a disconnected connection \<^verbatim>\<open>SendInLoop\<close> logs a warning and goes on.\<close>

definition SendInLoop :: "('k, 'e, 's) net_sys \<Rightarrow> nat \<Rightarrow> char list \<Rightarrow>
    ('t, 'k, 'e, 's, 'x, 'z) net_scheme \<Rightarrow> ('t, 'k, 'e, 's, 'x, 'z) net_scheme res" where
  "SendInLoop sys c data w =
     (case write_direct sys c data w of
        (nwrite, remain, err, w) \<Rightarrow>
          if \<not> err \<and> 0 < remain then keep_rest sys c (take remain (drop nwrite data)) w else Inr w)"

section \<open>Shutting down\<close>

definition ShutdownWrite :: "('k, 'e, 's) net_sys \<Rightarrow> int \<Rightarrow>
    ('t, 'k, 'e, 's, 'x, 'z) net_scheme \<Rightarrow> ('t, 'k, 'e, 's, 'x, 'z) net_scheme" where
  "ShutdownWrite sys sockfd w = w\<lparr>sockets := snd (sys_shutdown sys (sockets w) sockfd)\<rparr>"

definition ShutdownInLoop :: "('k, 'e, 's) net_sys \<Rightarrow> nat \<Rightarrow>
    ('t, 'k, 'e, 's, 'x, 'z) net_scheme \<Rightarrow> ('t, 'k, 'e, 's, 'x, 'z) net_scheme" where
  "ShutdownInLoop sys c w =
     (if \<not> isWriting (conn_chan w c) then ShutdownWrite sys (conn_fd (conns w c)) w else w)"

section \<open>Opening and closing\<close>

definition call_user :: "('x user_call \<Rightarrow> 'w \<Rightarrow> 'w res) \<Rightarrow> ('x \<Rightarrow> 'x user_call) \<Rightarrow> 'x option \<Rightarrow>
    'w \<Rightarrow> 'w res" where
  "call_user usr arg f w = (case f of None \<Rightarrow> Inr w | Some f \<Rightarrow> usr (arg f) w)"

definition ConnectEstablished :: "('k, 'e, 's) net_sys \<Rightarrow>
    ('x user_call \<Rightarrow> ('t, 'k, 'e, 's, 'x, 'z) net_scheme \<Rightarrow> ('t, 'k, 'e, 's, 'x, 'z) net_scheme res) \<Rightarrow>
    nat \<Rightarrow> ('t, 'k, 'e, 's, 'x, 'z) net_scheme \<Rightarrow> ('t, 'k, 'e, 's, 'x, 'z) net_scheme res" where
  "ConnectEstablished sys usr c w =
     (let w = upd_conn c (\<lambda>conn. conn\<lparr>state := kConnected\<rparr>) w;
          w = w\<lparr>poller_of := upd_chan (channel_of (conns w c)) (set_tie c) (poller_of w)\<rparr>
      in bindR (with_poller (EnableReading (sys_ctl (lsys sys)) (channel_of (conns w c))) w)
           (\<lambda>w. call_user usr (\<lambda>f. ConnectionCall f c) (ConnectionCallback (conns w c)) w))"

definition ConnectDestoryed :: "('k, 'e, 's) net_sys \<Rightarrow>
    ('x user_call \<Rightarrow> ('t, 'k, 'e, 's, 'x, 'z) net_scheme \<Rightarrow> ('t, 'k, 'e, 's, 'x, 'z) net_scheme res) \<Rightarrow>
    nat \<Rightarrow> ('t, 'k, 'e, 's, 'x, 'z) net_scheme \<Rightarrow> ('t, 'k, 'e, 's, 'x, 'z) net_scheme res" where
  "ConnectDestoryed sys usr c w =
     bindR (if state (conns w c) = kConnected
            then (let w = upd_conn c (\<lambda>conn. conn\<lparr>state := kDisconnected\<rparr>) w in
                  bindR (with_poller (DisableAll (sys_ctl (lsys sys)) (channel_of (conns w c))) w)
                    (\<lambda>w. call_user usr (\<lambda>f. ConnectionCall f c) (ConnectionCallback (conns w c)) w))
            else Inr w)
       (\<lambda>w. loop_RemoveChannel (lsys sys) (channel_of (conns w c)) w)"

definition HandleClose :: "('k, 'e, 's) net_sys \<Rightarrow>
    ('x user_call \<Rightarrow> ('t, 'k, 'e, 's, 'x, 'z) net_scheme \<Rightarrow> ('t, 'k, 'e, 's, 'x, 'z) net_scheme res) \<Rightarrow>
    nat \<Rightarrow> ('t, 'k, 'e, 's, 'x, 'z) net_scheme \<Rightarrow> ('t, 'k, 'e, 's, 'x, 'z) net_scheme res" where
  "HandleClose sys usr c w =
     (let w = upd_conn c (\<lambda>conn. conn\<lparr>state := kDisconnected\<rparr>) w in
      bindR (with_poller (DisableAll (sys_ctl (lsys sys)) (channel_of (conns w c))) w)
        (\<lambda>w. bindR (call_user usr (\<lambda>f. ConnectionCall f c) (ConnectionCallback (conns w c)) w)
          (\<lambda>w. call_user usr (\<lambda>f. CloseCall f c) (conn_CloseCallback (conns w c)) w)))"

section \<open>The handlers of the channel\<close>

text \<open>\<^verbatim>\<open>MessageCallback_\<close> is called without a test; \<^verbatim>\<open>HandleError\<close> only logs.\<close>

definition HeadleRead :: "('k, 'e, 's) net_sys \<Rightarrow>
    ('x user_call \<Rightarrow> ('t, 'k, 'e, 's, 'x, 'z) net_scheme \<Rightarrow> ('t, 'k, 'e, 's, 'x, 'z) net_scheme res) \<Rightarrow>
    nat \<Rightarrow> timestamp \<Rightarrow>
    ('t, 'k, 'e, 's, 'x, 'z) net_scheme \<Rightarrow> ('t, 'k, 'e, 's, 'x, 'z) net_scheme res" where
  "HeadleRead sys usr c ReceiveTime w =
     (let conn = conns w c;
          (answer, s) = sys_read sys (sockets w) (conn_fd conn) (readv_capacity (InputBuffer conn))
      in bindR (ReadFromFd answer (InputBuffer conn))
           (\<lambda>(n, err, b).
             let w = upd_conn c (\<lambda>conn. conn\<lparr>InputBuffer := b\<rparr>) (w\<lparr>sockets := s\<rparr>) in
             if 0 < n then (case MessageCallback conn of
                              None \<Rightarrow> Inl BadFunctionCall
                            | Some f \<Rightarrow> usr (MessageCall f c ReceiveTime) w)
             else if n = 0 then HandleClose sys usr c w
             else Inr w))"

definition HandleWrite :: "('k, 'e, 's) net_sys \<Rightarrow> nat \<Rightarrow>
    ('t, 'k, 'e, 's, 'x, 'z) net_scheme \<Rightarrow> ('t, 'k, 'e, 's, 'x, 'z) net_scheme res" where
  "HandleWrite sys c w =
     (let conn = conns w c in
      if isWriting (conn_chan w c) then
        (let (answer, s) = sys_write sys (sockets w) (conn_fd conn)
               (slice (buf_bytes (OutputBuffer conn)) (ReaderIndex (OutputBuffer conn))
                  (ReaderIndex (OutputBuffer conn) + ReadableBytes (OutputBuffer conn)));
             (n, err) = WriteFromFd answer (OutputBuffer conn);
             w = w\<lparr>sockets := s\<rparr>
         in if 0 < n then
              (let b = retrieve (nat n) (OutputBuffer conn);
                   w = upd_conn c (\<lambda>conn. conn\<lparr>OutputBuffer := b\<rparr>) w
               in if ReadableBytes b = 0 then
                    bindR (with_poller (DisableWriting (sys_ctl (lsys sys)) (channel_of conn)) w)
                      (\<lambda>w. let w = (case WriteCompleteCallback conn of
                                      Some f \<Rightarrow> queue_user sys (WriteCompleteCall f c) w
                                    | None \<Rightarrow> w)
                           in Inr (if state (conns w c) = kDisconnecting then ShutdownInLoop sys c w
                                   else w))
                  else Inr w)
            else Inr w)
      else Inr w)"

section \<open>The functions users call\<close>

fun get_buffer :: "buffer_ref \<Rightarrow> ('t, 'k, 'e, 's, 'x, 'z) net_scheme \<Rightarrow> buffer option" where
  "get_buffer (InputOf c) w = (if conn_alive w c then Some (InputBuffer (conns w c)) else None)"
| "get_buffer (UserBuffer i) w = user_buffers w i"

fun set_buffer :: "buffer_ref \<Rightarrow> buffer \<Rightarrow>
    ('t, 'k, 'e, 's, 'x, 'z) net_scheme \<Rightarrow> ('t, 'k, 'e, 's, 'x, 'z) net_scheme" where
  "set_buffer (InputOf c) b w = upd_conn c (\<lambda>conn. conn\<lparr>InputBuffer := b\<rparr>) w"
| "set_buffer (UserBuffer i) b w = w\<lparr>user_buffers := (user_buffers w)(i \<mapsto> b)\<rparr>"

text \<open>Reading \<open>len\<close> bytes through a pointer that was bound earlier.\<close>

fun deref :: "data_ptr \<Rightarrow> nat \<Rightarrow> ('t, 'k, 'e, 's, 'x, 'z) net_scheme \<Rightarrow> char list res" where
  "deref (StringData i) len w =
     (case strings w i of
        None \<Rightarrow> Inl DanglingPointer
      | Some d \<Rightarrow> if len \<le> length d then Inr (take len d) else Inl OutOfBounds)"
| "deref (BufferData ref pos vlen) len w =
     (case get_buffer ref w of
        None \<Rightarrow> Inl DanglingPointer
      | Some b \<Rightarrow> if length (buf_bytes b) = vlen \<and> pos + len \<le> vlen
                  then Inr (slice (buf_bytes b) pos (pos + len)) else Inl DanglingPointer)"

text \<open>
  The functors bound to a connection. \<^verbatim>\<open>SendInLoop\<close> and \<^verbatim>\<open>ShutdownInLoop\<close> are bound to
  the plain pointer \<^verbatim>\<open>this\<close>, which dangles once the connection is gone.
\<close>

fun run_conn_functor :: "('k, 'e, 's) net_sys \<Rightarrow>
    ('x user_call \<Rightarrow> ('t, 'k, 'e, 's, 'x, 'z) net_scheme \<Rightarrow> ('t, 'k, 'e, 's, 'x, 'z) net_scheme res) \<Rightarrow>
    'x conn_functor \<Rightarrow>
    ('t, 'k, 'e, 's, 'x, 'z) net_scheme \<Rightarrow> ('t, 'k, 'e, 's, 'x, 'z) net_scheme res" where
  "run_conn_functor sys usr (SendInLoopF c p len) w =
     (if conn_alive w c then bindR (deref p len w) (\<lambda>data. SendInLoop sys c data w)
      else Inl DanglingPointer)"
| "run_conn_functor sys usr (ShutdownInLoopF c) w =
     (if conn_alive w c then Inr (ShutdownInLoop sys c w) else Inl DanglingPointer)"
| "run_conn_functor sys usr (UserCallF u) w = usr u w"
| "run_conn_functor sys usr (ConnectEstablishedF c) w = ConnectEstablished sys usr c w"
| "run_conn_functor sys usr (ConnectDestoryedF c) w = ConnectDestoryed sys usr c w"

definition run_in_loop :: "('k, 'e, 's) net_sys \<Rightarrow>
    ('x user_call \<Rightarrow> ('t, 'k, 'e, 's, 'x, 'z) net_scheme \<Rightarrow> ('t, 'k, 'e, 's, 'x, 'z) net_scheme res) \<Rightarrow>
    bool \<Rightarrow> 'x conn_functor \<Rightarrow>
    ('t, 'k, 'e, 's, 'x, 'z) net_scheme \<Rightarrow> ('t, 'k, 'e, 's, 'x, 'z) net_scheme res" where
  "run_in_loop sys usr in_loop f w =
     RunInLoop (lsys sys) (run_functor (lsys sys) (run_conn_functor sys usr)) in_loop (UserF f) w"

definition send_string :: "('k, 'e, 's) net_sys \<Rightarrow>
    ('x user_call \<Rightarrow> ('t, 'k, 'e, 's, 'x, 'z) net_scheme \<Rightarrow> ('t, 'k, 'e, 's, 'x, 'z) net_scheme res) \<Rightarrow>
    bool \<Rightarrow> nat \<Rightarrow> nat \<Rightarrow>
    ('t, 'k, 'e, 's, 'x, 'z) net_scheme \<Rightarrow> ('t, 'k, 'e, 's, 'x, 'z) net_scheme res" where
  "send_string sys usr in_loop c i w =
     (if state (conns w c) = kConnected then
        (case strings w i of
           None \<Rightarrow> Inl DanglingPointer
         | Some data \<Rightarrow>
             if in_loop then SendInLoop sys c data w
             else run_in_loop sys usr in_loop (SendInLoopF c (StringData i) (length data)) w)
      else Inr w)"

definition send_buffer :: "('k, 'e, 's) net_sys \<Rightarrow>
    ('x user_call \<Rightarrow> ('t, 'k, 'e, 's, 'x, 'z) net_scheme \<Rightarrow> ('t, 'k, 'e, 's, 'x, 'z) net_scheme res) \<Rightarrow>
    bool \<Rightarrow> nat \<Rightarrow> buffer_ref \<Rightarrow>
    ('t, 'k, 'e, 's, 'x, 'z) net_scheme \<Rightarrow> ('t, 'k, 'e, 's, 'x, 'z) net_scheme res" where
  "send_buffer sys usr in_loop c ref w =
     (if state (conns w c) = kConnected then
        (case get_buffer ref w of
           None \<Rightarrow> Inl DanglingPointer
         | Some b \<Rightarrow>
             if in_loop
             then bindR (SendInLoop sys c
                    (slice (buf_bytes b) (ReaderIndex b) (ReaderIndex b + ReadableBytes b)) w)
                    (\<lambda>w. Inr (set_buffer ref (RetrieveAll b) w))
             else run_in_loop sys usr in_loop
                    (SendInLoopF c (BufferData ref (ReaderIndex b) (length (buf_bytes b)))
                       (ReadableBytes b)) w)
      else Inr w)"

definition shutdown :: "('k, 'e, 's) net_sys \<Rightarrow>
    ('x user_call \<Rightarrow> ('t, 'k, 'e, 's, 'x, 'z) net_scheme \<Rightarrow> ('t, 'k, 'e, 's, 'x, 'z) net_scheme res) \<Rightarrow>
    bool \<Rightarrow> nat \<Rightarrow>
    ('t, 'k, 'e, 's, 'x, 'z) net_scheme \<Rightarrow> ('t, 'k, 'e, 's, 'x, 'z) net_scheme res" where
  "shutdown sys usr in_loop c w =
     (if state (conns w c) = kConnected
      then run_in_loop sys usr in_loop (ShutdownInLoopF c)
             (upd_conn c (\<lambda>conn. conn\<lparr>state := kDisconnecting\<rparr>) w)
      else Inr w)"

fun run_conn_handler :: "('k, 'e, 's) net_sys \<Rightarrow>
    ('x user_call \<Rightarrow> ('t, 'k, 'e, 's, 'x, 'z) net_scheme \<Rightarrow> ('t, 'k, 'e, 's, 'x, 'z) net_scheme res) \<Rightarrow>
    (('t, 'k, 'e, 's, 'x, 'z) net_scheme \<Rightarrow> ('t, 'k, 'e, 's, 'x, 'z) net_scheme res) \<Rightarrow>
    conn_handler \<Rightarrow> timestamp \<Rightarrow>
    ('t, 'k, 'e, 's, 'x, 'z) net_scheme \<Rightarrow> ('t, 'k, 'e, 's, 'x, 'z) net_scheme res" where
  "run_conn_handler sys usr accept (HeadleReadOf c) t w = HeadleRead sys usr c t w"
| "run_conn_handler sys usr accept (HandleWriteOf c) t w = HandleWrite sys c w"
| "run_conn_handler sys usr accept AcceptorRead t w = accept w"

definition StateToString :: "conn_state \<Rightarrow> string" where
  "StateToString s = (case s of kDisconnected \<Rightarrow> ''kDisconnected'' | kConnecting \<Rightarrow> ''kConnecting''
     | kConnected \<Rightarrow> ''kConnected'' | kDisconnecting \<Rightarrow> ''kDisconnecting'')"

section \<open>What the kernel promises\<close>

text \<open>
  \<open>accepted s fd\<close> are the bytes the kernel has taken for sending on a descriptor, \<open>shut s fd\<close>
  tells whether its writing side is shut down. A write takes a prefix, reports its length and
  touches no other descriptor; on a shut side it answers \<^verbatim>\<open>EPIPE\<close>. A read delivers at
  most what it was given room for.
\<close>

definition socket_laws :: "('k, 'e, 's) net_sys \<Rightarrow> ('s \<Rightarrow> int \<Rightarrow> char list) \<Rightarrow> ('s \<Rightarrow> int \<Rightarrow> bool) \<Rightarrow> bool" where
  "socket_laws sys accepted shut \<longleftrightarrow>
     (\<forall>s f d. case sys_write sys s f d of (r, s') \<Rightarrow>
        shut s' = shut s \<and>
        (case r of WrOk n \<Rightarrow> n \<le> length d \<and> accepted s' = (accepted s)(f := accepted s f @ take n d)
                 | WrErr e \<Rightarrow> accepted s' = accepted s) \<and>
        (shut s f \<and> d \<noteq> [] \<longrightarrow> r = WrErr EPIPE)) \<and>
     (\<forall>s f cap. case sys_read sys s f cap of (r, s') \<Rightarrow>
        shut s' = shut s \<and> accepted s' = accepted s \<and>
        (case r of RdOk bs \<Rightarrow> length bs \<le> cap | RdErr e \<Rightarrow> True)) \<and>
     (\<forall>s f. case sys_shutdown sys s f of (ok, s') \<Rightarrow>
        accepted s' = accepted s \<and> shut s' = (if ok then (shut s)(f := True) else shut s))"

lemma socket_write:
  assumes "socket_laws sys accepted shut" and "sys_write sys s f d = (r, s')"
  shows "shut s' = shut s"
    and "r = WrOk n \<Longrightarrow> n \<le> length d \<and> accepted s' = (accepted s)(f := accepted s f @ take n d)"
    and "r = WrErr e \<Longrightarrow> accepted s' = accepted s"
    and "shut s f \<Longrightarrow> d \<noteq> [] \<Longrightarrow> r = WrErr EPIPE"
proof -
  have "case sys_write sys s f d of (r, s') \<Rightarrow>
        shut s' = shut s \<and>
        (case r of WrOk n \<Rightarrow> n \<le> length d \<and> accepted s' = (accepted s)(f := accepted s f @ take n d)
                 | WrErr e \<Rightarrow> accepted s' = accepted s) \<and>
        (shut s f \<and> d \<noteq> [] \<longrightarrow> r = WrErr EPIPE)"
    by (rule assms(1) [unfolded socket_laws_def, THEN conjunct1, THEN spec, THEN spec, THEN spec])
  then have *: "shut s' = shut s"
      "case r of WrOk n \<Rightarrow> n \<le> length d \<and> accepted s' = (accepted s)(f := accepted s f @ take n d)
                 | WrErr e \<Rightarrow> accepted s' = accepted s"
      "shut s f \<and> d \<noteq> [] \<longrightarrow> r = WrErr EPIPE"
    unfolding assms(2) by simp_all
  show "shut s' = shut s" by (rule *(1))
  show "r = WrOk n \<Longrightarrow> n \<le> length d \<and> accepted s' = (accepted s)(f := accepted s f @ take n d)"
    and "r = WrErr e \<Longrightarrow> accepted s' = accepted s"
    using *(2) by simp_all
  show "shut s f \<Longrightarrow> d \<noteq> [] \<Longrightarrow> r = WrErr EPIPE" using *(3) by blast
qed

lemma socket_read:
  assumes "socket_laws sys accepted shut" and "sys_read sys s f cap = (r, s')"
  shows "shut s' = shut s" and "accepted s' = accepted s" and "r = RdOk bs \<Longrightarrow> length bs \<le> cap"
proof -
  have "case sys_read sys s f cap of (r, s') \<Rightarrow>
        shut s' = shut s \<and> accepted s' = accepted s \<and>
        (case r of RdOk bs \<Rightarrow> length bs \<le> cap | RdErr e \<Rightarrow> True)"
    by (rule assms(1) [unfolded socket_laws_def, THEN conjunct2, THEN conjunct1, THEN spec, THEN spec, THEN spec])
  then show "shut s' = shut s" "accepted s' = accepted s" "r = RdOk bs \<Longrightarrow> length bs \<le> cap"
    unfolding assms(2) by simp_all
qed

lemma socket_shutdown:
  assumes "socket_laws sys accepted shut" and "sys_shutdown sys s f = (ok, s')"
  shows "accepted s' = accepted s" and "shut s' = (if ok then (shut s)(f := True) else shut s)"
proof -
  have "case sys_shutdown sys s f of (ok, s') \<Rightarrow>
        accepted s' = accepted s \<and> shut s' = (if ok then (shut s)(f := True) else shut s)"
    by (rule assms(1) [unfolded socket_laws_def, THEN conjunct2, THEN conjunct2, THEN spec, THEN spec])
  then show "accepted s' = accepted s" "shut s' = (if ok then (shut s)(f := True) else shut s)"
    unfolding assms(2) by simp_all
qed

section \<open>The invariant\<close>

text \<open>
  For one connection: its buffers are well formed, its channel waits for writing exactly while
  the output buffer holds something (until the connection is closed), and the writing side of
  the socket is shut down only on a connection that is being closed and has sent everything.
\<close>

definition conn_good :: "'x tcp_connection \<Rightarrow> int \<Rightarrow> bool \<Rightarrow> bool \<Rightarrow> bool" where
  "conn_good conn f writing is_shut \<longleftrightarrow>
     conn_fd conn = f \<and> buf_inv (InputBuffer conn) \<and> buf_inv (OutputBuffer conn) \<and>
     (state conn \<noteq> kDisconnected \<longrightarrow> writing = (readable (OutputBuffer conn) \<noteq> [])) \<and>
     (is_shut \<longrightarrow> state conn = kDisconnected \<or>
        state conn = kDisconnecting \<and> readable (OutputBuffer conn) = [])"

text \<open>For the connections \<open>C\<close>, whose channels are among the channels \<open>L\<close> of the poller:\<close>

definition net_inv :: "('k \<Rightarrow> int \<Rightarrow> epoll_event option) \<Rightarrow> ('s \<Rightarrow> int \<Rightarrow> bool) \<Rightarrow> nat set \<Rightarrow> nat set \<Rightarrow>
    ('t, 'k, 'e, 's, 'x, 'z) net_scheme \<Rightarrow> bool" where
  "net_inv reg shut L C w \<longleftrightarrow>
     poller_inv reg L (poller_of w) \<and> inj_on (\<lambda>c. channel_of (conns w c)) C \<and>
     (\<forall>c\<in>C. channel_of (conns w c) \<in> L \<and>
        conn_good (conns w c) (fd (conn_chan w c)) (isWriting (conn_chan w c))
          (shut (sockets w) (conn_fd (conns w c))))"

text \<open>The bytes of a connection so far: those the kernel has taken and those still waiting.\<close>

definition stream :: "('s \<Rightarrow> int \<Rightarrow> char list) \<Rightarrow> nat \<Rightarrow> ('t, 'k, 'e, 's, 'x, 'z) net_scheme \<Rightarrow> char list" where
  "stream accepted c w = accepted (sockets w) (conn_fd (conns w c)) @ readable (OutputBuffer (conns w c))"

lemma net_invD:
  assumes "net_inv reg shut L C w" and "c \<in> C"
  shows "poller_inv reg L (poller_of w)" and "channel_of (conns w c) \<in> L"
    and "conn_fd (conns w c) = fd (conn_chan w c)"
    and "buf_inv (InputBuffer (conns w c))" and "buf_inv (OutputBuffer (conns w c))"
    and "state (conns w c) \<noteq> kDisconnected \<Longrightarrow>
      isWriting (conn_chan w c) = (readable (OutputBuffer (conns w c)) \<noteq> [])"
    and "shut (sockets w) (conn_fd (conns w c)) \<Longrightarrow> state (conns w c) = kDisconnected \<or>
      state (conns w c) = kDisconnecting \<and> readable (OutputBuffer (conns w c)) = []"
    and "c' \<in> C \<Longrightarrow> c' \<noteq> c \<Longrightarrow> channel_of (conns w c') \<noteq> channel_of (conns w c)"
  using assms unfolding net_inv_def conn_good_def inj_on_def by blast+

lemma net_inv_fd_inj:
  assumes inv: "net_inv reg shut L C w" and c: "c \<in> C" "c' \<in> C" "c' \<noteq> c"
  shows "conn_fd (conns w c') \<noteq> conn_fd (conns w c)"
  using poller_invD(3) [OF net_invD(1,2) [OF inv c(1)] net_invD(2) [OF inv c(2)]]
    net_invD(8) [OF inv c] net_invD(3) [OF inv c(1)] net_invD(3) [OF inv c(2)]
  by (simp add: conn_chan_def)

text \<open>One connection changes, with its channel: the invariant of the others is kept.\<close>

lemma net_inv_change:
  assumes inv: "net_inv reg shut L C w" and c: "c \<in> C"
    and p: "poller_inv reg L (poller_of w')"
    and conns: "conns w' = (conns w)(c := conn)" "channel_of conn = channel_of (conns w c)"
      "conn_fd conn = conn_fd (conns w c)"
    and chans: "\<And>r. r \<noteq> channel_of (conns w c) \<Longrightarrow> chans (poller_of w') r = chans (poller_of w) r"
    and shut: "\<And>f. f \<noteq> conn_fd (conns w c) \<Longrightarrow> shut (sockets w') f = shut (sockets w) f"
    and good: "conn_good conn (fd (conn_chan w' c)) (isWriting (conn_chan w' c))
        (shut (sockets w') (conn_fd conn))"
  shows "net_inv reg shut L C w'"
  unfolding net_inv_def
proof (intro conjI ballI)
  show "poller_inv reg L (poller_of w')" by fact
  have ch: "channel_of (conns w' d) = channel_of (conns w d)" for d by (simp add: conns)
  then show "inj_on (\<lambda>c. channel_of (conns w' c)) C" using inv by (simp add: net_inv_def)
  fix d assume d: "d \<in> C"
  show "channel_of (conns w' d) \<in> L" using net_invD(2) [OF inv d] by (simp add: ch)
  show "conn_good (conns w' d) (fd (conn_chan w' d)) (isWriting (conn_chan w' d))
          (shut (sockets w') (conn_fd (conns w' d)))"
  proof (cases "d = c")
    case True
    with good show ?thesis by (simp add: conns)
  next
    case False
    then have "conn_chan w' d = conn_chan w d"
      using chans net_invD(8) [OF inv c d] by (simp add: conn_chan_def ch)
    moreover have "shut (sockets w') (conn_fd (conns w d)) = shut (sockets w) (conn_fd (conns w d))"
      using shut net_inv_fd_inj [OF inv c d False] by simp
    ultimately show ?thesis using inv d False by (simp add: net_inv_def conns)
  qed
qed

lemma queue_user_simps [simp]:
  "conns (queue_user sys u w) = conns w" "poller_of (queue_user sys u w) = poller_of w"
  "sockets (queue_user sys u w) = sockets w" "conn_alive (queue_user sys u w) = conn_alive w"
  "functors (queue_user sys u w) = functors w @ [UserF (UserCallF u)]"
  "conn_chan (queue_user sys u w) c = conn_chan w c"
  by (simp_all add: queue_user_def QueueInLoop_def wakeup_def Let_def conn_chan_def)

lemma upd_conn_simps [simp]:
  "conns (upd_conn c f w) = (conns w)(c := f (conns w c))" "poller_of (upd_conn c f w) = poller_of w"
  "sockets (upd_conn c f w) = sockets w" "conn_alive (upd_conn c f w) = conn_alive w"
  "functors (upd_conn c f w) = functors w"
  by (simp_all add: upd_conn_def)

lemma with_poller_change:
  assumes laws: "epoll_laws (sys_ctl (lsys sys)) reg"
    and inv: "poller_inv reg L (poller_of w)" and r: "r \<in> L"
  obtains p where "with_poller (change_events (sys_ctl (lsys sys)) f r) w = Inr (w\<lparr>poller_of := p\<rparr>)"
    and "poller_inv reg L p" and "chans p = (chans (poller_of w))(r := changed f (chans (poller_of w) r))"
proof -
  obtain p where "change_events (sys_ctl (lsys sys)) f r (poller_of w) = Inr p" "poller_inv reg L p"
    "chans p = (chans (poller_of w))(r := changed f (chans (poller_of w) r))"
    by (rule change_events_inv [OF laws inv r, of f])
  then show thesis using that by (simp add: with_poller_def)
qed

section \<open>Sending\<close>

text \<open>What \<^const>\<open>write_direct\<close> did with \<open>data\<close>; \<open>sent\<close> bytes of it are in the kernel.\<close>

lemma write_direct_spec:
  assumes laws: "socket_laws sys accepted shut" and inv: "net_inv reg shut L C w" and c: "c \<in> C"
    and len: "length data \<le> max_size" and wd: "write_direct sys c data w = (nwrite, remain, err, w')"
  shows "nwrite \<le> length data" and "remain = length data - nwrite"
    and "accepted (sockets w') = (accepted (sockets w))(conn_fd (conns w c) :=
           accepted (sockets w) (conn_fd (conns w c)) @ take nwrite data)"
    and "shut (sockets w') = shut (sockets w)"
    and "conns w' = conns w" "poller_of w' = poller_of w" "conn_alive w' = conn_alive w"
    and "err \<Longrightarrow> nwrite = 0"
    and "0 < nwrite \<Longrightarrow> readable (OutputBuffer (conns w c)) = []"
    and "shut (sockets w) (conn_fd (conns w c)) \<Longrightarrow> state (conns w c) \<noteq> kDisconnected \<Longrightarrow> 0 < remain \<Longrightarrow> err"
proof -
  note I = net_invD [OF inv c]
  let ?f = "conn_fd (conns w c)"
  let ?idle = "\<not> isWriting (conn_chan w c) \<and> ReadableBytes (OutputBuffer (conns w c)) = 0"
  have empty: "ReadableBytes (OutputBuffer (conns w c)) = 0 \<longleftrightarrow> readable (OutputBuffer (conns w c)) = []"
    using length_readable [OF I(5)] by auto
  have all: "nwrite \<le> length data \<and> remain = length data - nwrite \<and>
      accepted (sockets w') = (accepted (sockets w))(?f := accepted (sockets w) ?f @ take nwrite data) \<and>
      shut (sockets w') = shut (sockets w) \<and>
      conns w' = conns w \<and> poller_of w' = poller_of w \<and> conn_alive w' = conn_alive w \<and>
      (err \<longrightarrow> nwrite = 0) \<and> (0 < nwrite \<longrightarrow> ?idle) \<and>
      (?idle \<and> shut (sockets w) ?f \<and> 0 < remain \<longrightarrow> err)"
  proof (cases ?idle)
    case False
    then have "write_direct sys c data w = (0, length data, False, w)"
      by (simp only: write_direct_def Let_def if_False)
    from trans [OF wd [symmetric] this] have eq: "nwrite = 0" "remain = length data" "err = False" "w' = w"
      unfolding prod.inject by blast+
    show ?thesis using False unfolding eq by simp blast
  next
    case True
    obtain r s where rs: "sys_write sys (sockets w) ?f data = (r, s)" by fastforce
    then have rs': "sys_write sys (sockets w) (fd (conn_chan w c)) data = (r, s)" using I(3) by simp
    note K = socket_write [OF laws rs]
    show ?thesis
    proof (cases r)
      case (WrErr e)
      have "write_direct sys c data w =
          (0, length data, e \<noteq> EAGAIN \<and> (e = EPIPE \<or> e = ECONNRESET), w\<lparr>sockets := s\<rparr>)"
        using True rs' WrErr by (simp add: write_direct_def Let_def)
      from trans [OF wd [symmetric] this] have eq: "nwrite = 0" "remain = length data"
        "err = (e \<noteq> EAGAIN \<and> (e = EPIPE \<or> e = ECONNRESET))" "w' = w\<lparr>sockets := s\<rparr>"
        unfolding prod.inject by blast+
      have "shut (sockets w) ?f \<and> 0 < remain \<longrightarrow> err"
        using K(4) by (auto simp: eq WrErr EPIPE_def EAGAIN_def)
      then show ?thesis using K(1) K(3) [OF WrErr] by (simp add: eq)
    next
      case (WrOk n)
      have n: "n \<le> length data" using K(2) [OF WrOk] by simp
      have sub: "sz_sub (length data) n = length data - n"
        using n len max_size_below by (intro sz_sub_exact) simp_all
      define w1 where "w1 = (case WriteCompleteCallback (conns w c) of
          Some f \<Rightarrow> if length data - n = 0 then queue_user sys (WriteCompleteCall f c) (w\<lparr>sockets := s\<rparr>)
                    else w\<lparr>sockets := s\<rparr>
        | None \<Rightarrow> w\<lparr>sockets := s\<rparr>)"
      have wd1: "write_direct sys c data w = (n, length data - n, False, w1)"
        using True by (simp add: write_direct_def Let_def rs' WrOk sub w1_def)
      have w1: "sockets w1 = s" "conns w1 = conns w" "poller_of w1 = poller_of w" "conn_alive w1 = conn_alive w"
        unfolding w1_def by (simp_all split: option.split)
      have "(nwrite, remain, err, w') = (n, length data - n, False, w1)"
        using wd wd1 by (rule trans [OF sym])
      then have eq: "nwrite = n" "remain = length data - n" "err = False" "w' = w1"
        unfolding prod.inject by blast+
      have "\<not> (shut (sockets w) ?f \<and> data \<noteq> [])" using K(4) unfolding WrOk by blast
      then have last: "\<not> (shut (sockets w) ?f \<and> 0 < length data - n)" by (cases data) auto
      show ?thesis unfolding eq w1
        by (intro conjI) (use K(1) K(2) [OF WrOk] True last in \<open>blast | rule refl\<close>)+
    qed
  qed
  then show "nwrite \<le> length data" and "remain = length data - nwrite"
    and "accepted (sockets w') = (accepted (sockets w))(?f := accepted (sockets w) ?f @ take nwrite data)"
    and "shut (sockets w') = shut (sockets w)"
    and "conns w' = conns w" "poller_of w' = poller_of w" "conn_alive w' = conn_alive w"
    and "err \<Longrightarrow> nwrite = 0" by blast+
  from all have w: "0 < nwrite \<longrightarrow> ?idle" and e: "?idle \<and> shut (sockets w) ?f \<and> 0 < remain \<longrightarrow> err"
    by blast+
  show "0 < nwrite \<Longrightarrow> readable (OutputBuffer (conns w c)) = []" using w empty by blast
  assume sh: "shut (sockets w) ?f" "state (conns w c) \<noteq> kDisconnected" "0 < remain"
  from I(7) [OF sh(1)] sh(2) have "readable (OutputBuffer (conns w c)) = []" by blast
  moreover from this I(6) [OF sh(2)] have "\<not> isWriting (conn_chan w c)" by blast
  ultimately show err using e empty sh by blast
qed

lemma isWriting_changed [simp]:
  "isWriting (changed (\<lambda>e. e OR POLLOUT) ch)" "\<not> isWriting (changed (\<lambda>e. e AND NOT POLLOUT) ch)"
  "\<not> isWriting (changed (\<lambda>e. 0) ch)"
  "isWriting (changed (\<lambda>e. e OR (POLLIN OR POLLPRI)) ch) = isWriting ch"
  by (simp_all add: isWriting_def bit_facts)

text \<open>Keeping the rest works exactly when the output buffer takes it.\<close>

lemma keep_rest_spec:
  assumes laws: "epoll_laws (sys_ctl (lsys sys)) reg" and inv: "net_inv reg shut L C w" and c: "c \<in> C"
  shows "case append_buf rest (OutputBuffer (conns w c)) of
      Inl e \<Rightarrow> keep_rest sys c rest w = Inl e
    | Inr b \<Rightarrow> (\<exists>w'. keep_rest sys c rest w = Inr w' \<and> sockets w' = sockets w \<and>
        conns w' = (conns w)(c := (conns w c)\<lparr>OutputBuffer := b\<rparr>) \<and> conn_alive w' = conn_alive w \<and>
        poller_inv reg L (poller_of w') \<and>
        (\<forall>r. r \<noteq> channel_of (conns w c) \<longrightarrow> chans (poller_of w') r = chans (poller_of w) r) \<and>
        isWriting (conn_chan w' c) \<and> fd (conn_chan w' c) = fd (conn_chan w c) \<and>
        (\<not> isWriting (conn_chan w c) \<longrightarrow> conn_chan w' c = changed (\<lambda>e. e OR POLLOUT) (conn_chan w c)))"
proof (cases "append_buf rest (OutputBuffer (conns w c))")
  case (Inl e)
  then show ?thesis by (simp add: keep_rest_def)
next
  case (Inr b)
  note I = net_invD [OF inv c]
  let ?call = "\<lambda>f. queue_user sys (HighWaterMarkCall f c
      (sz_add (ReadableBytes (OutputBuffer (conns w c))) (length rest))) w"
  define w1 where "w1 = (case HighWaterMarkCallback (conns w c) of
      Some f \<Rightarrow> if HighWaterMark (conns w c) \<le> sz_add (ReadableBytes (OutputBuffer (conns w c))) (length rest) \<and>
                   ReadableBytes (OutputBuffer (conns w c)) < HighWaterMark (conns w c)
                then ?call f else w
    | None \<Rightarrow> w)"
  define w2 where "w2 = upd_conn c (\<lambda>conn. conn\<lparr>OutputBuffer := b\<rparr>) w1"
  have w1: "sockets w1 = sockets w" "conns w1 = conns w" "conn_alive w1 = conn_alive w"
    "poller_of w1 = poller_of w" by (auto simp: w1_def split: option.splits)
  then have w2: "sockets w2 = sockets w" "conns w2 = (conns w)(c := (conns w c)\<lparr>OutputBuffer := b\<rparr>)"
    "conn_alive w2 = conn_alive w" "poller_of w2 = poller_of w" "conn_chan w2 c = conn_chan w c"
    by (simp_all add: w2_def conn_chan_def)
  have kr: "keep_rest sys c rest w = (if \<not> isWriting (conn_chan w2 c)
      then with_poller (EnableWriting (sys_ctl (lsys sys)) (channel_of (conns w c))) w2 else Inr w2)"
    by (simp add: keep_rest_def Inr Let_def w2_def w1_def)
  show ?thesis
  proof (cases "isWriting (conn_chan w2 c)")
    case True
    with kr w2 I(1) show ?thesis by (simp add: Inr)
  next
    case False
    have "poller_inv reg L (poller_of w2)" using I(1) by (simp add: w2)
    from with_poller_change [OF laws this I(2), of "\<lambda>e. e OR POLLOUT"] obtain p where
      "with_poller (EnableWriting (sys_ctl (lsys sys)) (channel_of (conns w c))) w2 = Inr (w2\<lparr>poller_of := p\<rparr>)"
      "poller_inv reg L p"
      "chans p = (chans (poller_of w2))(channel_of (conns w c) :=
         changed (\<lambda>e. e OR POLLOUT) (chans (poller_of w2) (channel_of (conns w c))))"
      unfolding EnableWriting_def by blast
    with kr False w2 show ?thesis by (simp add: Inr conn_chan_def)
  qed
qed

lemma SendInLoop_keeps:
  assumes sock: "socket_laws sys accepted shut" and epoll: "epoll_laws (sys_ctl (lsys sys)) reg"
    and inv: "net_inv reg shut L C w" and c: "c \<in> C" and len: "length data \<le> max_size"
    and ret: "SendInLoop sys c data w = Inr w'"
  shows "net_inv reg shut L C w' \<and>
        (stream accepted c w' = stream accepted c w @ data \<or>
         stream accepted c w' = stream accepted c w \<and>
           (fst (sys_write sys (sockets w) (conn_fd (conns w c)) data) = WrErr EPIPE \<or>
            fst (sys_write sys (sockets w) (conn_fd (conns w c)) data) = WrErr ECONNRESET)) \<and>
        (\<forall>d\<in>C - {c}. stream accepted d w' = stream accepted d w)"
proof -
  note I = net_invD [OF inv c]
  let ?f = "conn_fd (conns w c)" and ?out = "OutputBuffer (conns w c)"
  obtain nwrite remain err w1 where wd: "write_direct sys c data w = (nwrite, remain, err, w1)"
    by (metis prod_cases4)
  note W = write_direct_spec [OF sock inv c len wd]
  have inv1: "net_inv reg shut L C w1" using inv by (simp add: net_inv_def conn_chan_def W)
  have others: "conn_fd (conns w d) \<noteq> ?f" if "d \<in> C - {c}" for d
    using net_inv_fd_inj [OF inv c, of d] that by simp
  show ?thesis
  proof (cases "\<not> err \<and> 0 < remain")
    case False
    then have eq: "SendInLoop sys c data w = Inr w1" by (auto simp: SendInLoop_def wd)
    have "stream accepted d w1 = stream accepted d w" if "d \<in> C - {c}" for d
      using others [OF that] by (simp add: stream_def W)
    moreover have "stream accepted c w1 = stream accepted c w @ data" if "\<not> err"
      using that False W(1,2,9) by (cases "nwrite = 0") (simp_all add: stream_def W(3,5))
    moreover have "stream accepted c w1 = stream accepted c w" if err
      using W(8) [OF that] by (simp add: stream_def W(3,5))
    moreover have "fst (sys_write sys (sockets w) ?f data) = WrErr EPIPE \<or>
        fst (sys_write sys (sockets w) ?f data) = WrErr ECONNRESET" if err
      using wd that I(3) by (auto simp: write_direct_def Let_def split: if_splits wr_result.splits prod.splits)
    moreover have "w' = w1" using ret eq by simp
    ultimately show ?thesis using inv1 by auto
  next
    case True
    let ?rest = "take remain (drop nwrite data)"
    have rest: "?rest = drop nwrite data" using W(2) by simp
    have eq: "SendInLoop sys c data w = keep_rest sys c ?rest w1"
      using True by (simp add: SendInLoop_def wd)
    note K = keep_rest_spec [OF epoll inv1 c, of ?rest]
    show ?thesis
    proof (cases "append_buf ?rest ?out")
      case (Inl e)
      with K ret show ?thesis by (simp add: eq W)
    next
      case (Inr b)
      note A = append_buf_content [OF I(5) Inr]
      obtain w2 where w2: "keep_rest sys c ?rest w1 = Inr w2" "sockets w2 = sockets w1"
        "conns w2 = (conns w)(c := (conns w c)\<lparr>OutputBuffer := b\<rparr>)" "poller_inv reg L (poller_of w2)"
        "\<And>r. r \<noteq> channel_of (conns w c) \<Longrightarrow> chans (poller_of w2) r = chans (poller_of w) r"
        "isWriting (conn_chan w2 c)" "fd (conn_chan w2 c) = fd (conn_chan w c)"
        using K Inr by (auto simp: W conn_chan_def)
      have "net_inv reg shut L C w2"
      proof (rule net_inv_change [OF inv c w2(4) w2(3)])
        show "conn_good ((conns w c)\<lparr>OutputBuffer := b\<rparr>) (fd (conn_chan w2 c)) (isWriting (conn_chan w2 c))
          (shut (sockets w2) (conn_fd ((conns w c)\<lparr>OutputBuffer := b\<rparr>)))"
          using I(3,4,7) A w2 W(10) True W(1,2,4) by (auto simp: conn_good_def rest)
      qed (simp_all add: w2 W)
      moreover have "stream accepted c w2 = stream accepted c w @ data"
        using A W(9) rest by (cases "nwrite = 0") (simp_all add: stream_def w2 W(3))
      moreover have "stream accepted d w2 = stream accepted d w" if "d \<in> C - {c}" for d
        using others [OF that] that by (simp add: stream_def w2 W)
      moreover have "w' = w2" using ret eq w2(1) by simp
      ultimately show ?thesis by auto
    qed
  qed
qed

lemma SendInLoop_fault:
  assumes sock: "socket_laws sys accepted shut" and epoll: "epoll_laws (sys_ctl (lsys sys)) reg"
    and inv: "net_inv reg shut L C w" and c: "c \<in> C"
    and len: "writeable (OutputBuffer (conns w c)) + length data \<le> max_size"
    and ret: "SendInLoop sys c data w = Inl e"
  shows "e = OutOfBounds \<and> writeable (OutputBuffer (conns w c)) < length data"
proof -
  let ?out = "OutputBuffer (conns w c)"
  obtain nwrite remain err w1 where wd: "write_direct sys c data w = (nwrite, remain, err, w1)"
    by (metis prod_cases4)
  have "length data \<le> max_size" using len by simp
  note W = write_direct_spec [OF sock inv c this wd]
  have inv1: "net_inv reg shut L C w1" using inv by (simp add: net_inv_def conn_chan_def W)
  let ?rest = "take remain (drop nwrite data)"
  from ret have eq: "keep_rest sys c ?rest w1 = Inl e"
    by (simp add: SendInLoop_def wd split: if_splits)
  from keep_rest_spec [OF epoll inv1 c, of ?rest] eq have a: "append_buf ?rest ?out = Inl e"
    by (auto simp: W split: sum.splits)
  have "writeable ?out + length ?rest \<le> max_size" using len by simp
  from append_buf_cases [OF net_invD(5) [OF inv c] this] a
  have "e = OutOfBounds" "\<not> append_fits (length ?rest) ?out" by (auto split: if_splits)
  then show ?thesis by (auto simp: append_fits_def)
qed

lemma SendInLoop_returns:
  assumes sock: "socket_laws sys accepted shut" and epoll: "epoll_laws (sys_ctl (lsys sys)) reg"
    and inv: "net_inv reg shut L C w" and c: "c \<in> C"
    and len: "length data \<le> writeable (OutputBuffer (conns w c))"
  shows "\<exists>w'. SendInLoop sys c data w = Inr w'"
proof (cases "SendInLoop sys c data w")
  case (Inl e)
  note I = net_invD [OF inv c]
  let ?out = "OutputBuffer (conns w c)"
  obtain nwrite remain err w1 where wd: "write_direct sys c data w = (nwrite, remain, err, w1)"
    by (metis prod_cases4)
  have "length data \<le> max_size" using len buf_invD [OF I(5)] by (simp add: writeable_def)
  note W = write_direct_spec [OF sock inv c this wd]
  have inv1: "net_inv reg shut L C w1" using inv by (simp add: net_inv_def conn_chan_def W)
  let ?rest = "take remain (drop nwrite data)"
  from Inl have eq: "keep_rest sys c ?rest w1 = Inl e"
    by (simp add: SendInLoop_def wd split: if_splits)
  from keep_rest_spec [OF epoll inv1 c, of ?rest] eq have a: "append_buf ?rest ?out = Inl e"
    by (auto simp: W split: sum.splits)
  have "length ?rest \<le> writeable ?out" using len by simp
  from append_in_place [OF I(5) this] a show ?thesis by auto
qed simp

text \<open>
  C5. Sending keeps the stream: \<^verbatim>\<open>SendInLoop\<close> either returns, and then the bytes the
  kernel has taken followed by those that wait in the output buffer have grown by exactly
  \<open>data\<close> (or by nothing, only when the direct write found the connection broken), no other
  connection's stream has changed and the invariant holds, so the channel waits for writing
  if anything is left; or the output buffer is written out of bounds, which needs more
  \<open>data\<close> than its writeable bytes.
\<close>

theorem SendInLoop_stream:
  assumes sock: "socket_laws sys accepted shut" and epoll: "epoll_laws (sys_ctl (lsys sys)) reg"
    and inv: "net_inv reg shut L C w" and c: "c \<in> C"
    and len: "writeable (OutputBuffer (conns w c)) + length data \<le> max_size"
  shows "case SendInLoop sys c data w of
      Inl e \<Rightarrow> e = OutOfBounds \<and> writeable (OutputBuffer (conns w c)) < length data
    | Inr w' \<Rightarrow> net_inv reg shut L C w' \<and>
        (stream accepted c w' = stream accepted c w @ data \<or>
         stream accepted c w' = stream accepted c w \<and>
           (fst (sys_write sys (sockets w) (conn_fd (conns w c)) data) = WrErr EPIPE \<or>
            fst (sys_write sys (sockets w) (conn_fd (conns w c)) data) = WrErr ECONNRESET)) \<and>
        (\<forall>d\<in>C - {c}. stream accepted d w' = stream accepted d w)"
proof (cases "SendInLoop sys c data w")
  case (Inl e)
  with SendInLoop_fault [OF assms Inl] show ?thesis by simp
next
  case (Inr w')
  have "length data \<le> max_size" using len by simp
  from SendInLoop_keeps [OF sock epoll inv c this Inr] Inr show ?thesis by simp
qed

section \<open>Draining and shutting down\<close>

lemma ShutdownWrite_sockets:
  assumes "socket_laws sys accepted shut"
  shows "accepted (sockets (ShutdownWrite sys f w)) = accepted (sockets w)"
    and "g \<noteq> f \<Longrightarrow> shut (sockets (ShutdownWrite sys f w)) g = shut (sockets w) g"
    and "conns (ShutdownWrite sys f w) = conns w" "poller_of (ShutdownWrite sys f w) = poller_of w"
    and "functors (ShutdownWrite sys f w) = functors w" "conn_alive (ShutdownWrite sys f w) = conn_alive w"
    and "conn_chan (ShutdownWrite sys f w) c = conn_chan w c"
  using socket_shutdown [OF assms, of "sockets w" f]
  by (cases "sys_shutdown sys (sockets w) f"; simp add: ShutdownWrite_def conn_chan_def)+

lemma ShutdownInLoop_inv:
  assumes sock: "socket_laws sys accepted shut" and inv: "net_inv reg shut L C w" and c: "c \<in> C"
    and closing: "state (conns w c) = kDisconnecting \<or> state (conns w c) = kDisconnected"
  shows "net_inv reg shut L C (ShutdownInLoop sys c w)"
proof (cases "isWriting (conn_chan w c)")
  case True
  with inv show ?thesis by (simp add: ShutdownInLoop_def)
next
  case False
  note I = net_invD [OF inv c] and S = ShutdownWrite_sockets [OF sock]
  show ?thesis
    unfolding ShutdownInLoop_def if_P [OF False]
  proof (rule net_inv_change [OF inv c, where conn = "conns w c"])
    show "conn_good (conns w c) (fd (conn_chan (ShutdownWrite sys (conn_fd (conns w c)) w) c))
        (isWriting (conn_chan (ShutdownWrite sys (conn_fd (conns w c)) w) c))
        (shut (sockets (ShutdownWrite sys (conn_fd (conns w c)) w)) (conn_fd (conns w c)))"
      using closing False I(3-6) by (auto simp: conn_good_def S)
  qed (simp_all add: S I)
qed

text \<open>What is written to the socket is the readable part of the output buffer.\<close>

lemma peek_all:
  assumes "buf_inv b"
  shows "slice (buf_bytes b) (ReaderIndex b) (ReaderIndex b + ReadableBytes b) = readable b"
  using buf_invD [OF assms] by (simp add: readable_def buf_sizes [OF assms])

lemma HandleWrite_nothing:
  assumes "buf_inv (OutputBuffer (conns w c))" and "isWriting (conn_chan w c)"
    and "sys_write sys (sockets w) (conn_fd (conns w c)) (readable (OutputBuffer (conns w c))) = (r, s)"
    and "r = WrOk 0 \<or> r = WrErr e"
  shows "HandleWrite sys c w = Inr (w\<lparr>sockets := s\<rparr>)"
  using assms by (auto simp: HandleWrite_def peek_all WriteFromFd_def)

text \<open>The bytes of a write are in the kernel instead of the output buffer.\<close>

lemma written_streams:
  assumes sock: "socket_laws sys accepted shut" and inv: "net_inv reg shut L C w" and c: "c \<in> C"
    and ans: "sys_write sys (sockets w) (conn_fd (conns w c)) (readable (OutputBuffer (conns w c))) = (WrOk n, s)"
    and v: "conns v = (conns w)(c := (conns w c)\<lparr>OutputBuffer := b\<rparr>)" "accepted (sockets v) = accepted s"
      "readable b = drop n (readable (OutputBuffer (conns w c)))"
  shows "\<forall>d\<in>C. stream accepted d v = stream accepted d w"
proof
  let ?f = "conn_fd (conns w c)"
  have "n \<le> length (readable (OutputBuffer (conns w c)))"
    and acc: "accepted s = (accepted (sockets w))(?f := accepted (sockets w) ?f @ take n (readable (OutputBuffer (conns w c))))"
    using socket_write(2) [OF sock ans refl] by auto
  fix d assume "d \<in> C"
  with v net_inv_fd_inj [OF inv c, of d] show "stream accepted d v = stream accepted d w"
    by (cases "d = c") (simp_all add: stream_def acc)
qed

text \<open>The output is gone: stop writing, queue the write-complete callback.\<close>

lemma drained_inv:
  assumes epoll: "epoll_laws (sys_ctl (lsys sys)) reg" and inv: "net_inv reg shut L C w" and c: "c \<in> C"
    and w2: "conns w2 = (conns w)(c := (conns w c)\<lparr>OutputBuffer := b\<rparr>)" "poller_of w2 = poller_of w" "functors w2 = functors w"
      "shut (sockets w2) = shut (sockets w)"
    and b: "buf_inv b" "readable b = []" and notshut: "\<not> shut (sockets w) (conn_fd (conns w c))"
  obtains p w4 where "with_poller (DisableWriting (sys_ctl (lsys sys)) (channel_of (conns w c))) w2 = Inr (w2\<lparr>poller_of := p\<rparr>)"
    and "w4 = (case WriteCompleteCallback (conns w c) of
        Some f \<Rightarrow> queue_user sys (WriteCompleteCall f c) (w2\<lparr>poller_of := p\<rparr>) | None \<Rightarrow> w2\<lparr>poller_of := p\<rparr>)"
    and "net_inv reg shut L C w4" and "\<not> isWriting (conn_chan w4 c)" and "sockets w4 = sockets w2" and "conns w4 = conns w2"
    and "functors w4 = functors w @ (case WriteCompleteCallback (conns w c) of None \<Rightarrow> []
          | Some f \<Rightarrow> [UserF (UserCallF (WriteCompleteCall f c))])"
proof -
  note I = net_invD [OF inv c]
  let ?conn = "conns w c" and ?r = "channel_of (conns w c)"
  have "poller_inv reg L (poller_of w2)" using I(1) by (simp add: w2)
  from with_poller_change [OF epoll this I(2), of "\<lambda>e. e AND NOT POLLOUT"] obtain p where
    p: "with_poller (DisableWriting (sys_ctl (lsys sys)) ?r) w2 = Inr (w2\<lparr>poller_of := p\<rparr>)" "poller_inv reg L p"
      "chans p = (chans (poller_of w))(?r := changed (\<lambda>e. e AND NOT POLLOUT) (chans (poller_of w) ?r))"
    unfolding DisableWriting_def w2(2) by blast
  define w4 where "w4 = (case WriteCompleteCallback ?conn of
      Some f \<Rightarrow> queue_user sys (WriteCompleteCall f c) (w2\<lparr>poller_of := p\<rparr>) | None \<Rightarrow> w2\<lparr>poller_of := p\<rparr>)"
  have w4: "sockets w4 = sockets w2" "conns w4 = conns w2" "poller_of w4 = p"
    "functors w4 = functors w @ (case WriteCompleteCallback ?conn of None \<Rightarrow> []
        | Some f \<Rightarrow> [UserF (UserCallF (WriteCompleteCall f c))])"
    by (simp_all add: w4_def w2 split: option.split)
  have ch: "\<not> isWriting (conn_chan w4 c)" "fd (conn_chan w4 c) = fd (conn_chan w c)"
    by (simp_all add: conn_chan_def w4 w2 p)
  have "net_inv reg shut L C w4"
  proof (rule net_inv_change [OF inv c])
    show "conns w4 = (conns w)(c := ?conn\<lparr>OutputBuffer := b\<rparr>)" by (simp add: w4 w2)
    show "conn_good (?conn\<lparr>OutputBuffer := b\<rparr>) (fd (conn_chan w4 c)) (isWriting (conn_chan w4 c))
        (shut (sockets w4) (conn_fd (?conn\<lparr>OutputBuffer := b\<rparr>)))"
      using ch I(3,4) b notshut by (simp add: conn_good_def w4 w2)
  qed (simp_all add: w4 p w2)
  from that [OF p(1) w4_def this ch(1) w4(1,2,4)] show thesis .
qed

lemma HandleWrite_some:
  assumes sock: "socket_laws sys accepted shut" and epoll: "epoll_laws (sys_ctl (lsys sys)) reg"
    and inv: "net_inv reg shut L C w" and c: "c \<in> C" and wr: "isWriting (conn_chan w c)"
    and ans: "sys_write sys (sockets w) (conn_fd (conns w c)) (readable (OutputBuffer (conns w c))) = (WrOk n, s)"
    and n: "0 < n"
  shows "\<exists>w'. HandleWrite sys c w = Inr w' \<and> net_inv reg shut L C w' \<and>
     (\<forall>d\<in>C. stream accepted d w' = stream accepted d w) \<and>
     readable (OutputBuffer (conns w' c)) = drop n (readable (OutputBuffer (conns w c))) \<and>
     (if n = length (readable (OutputBuffer (conns w c)))
      then \<not> isWriting (conn_chan w' c) \<and>
        functors w' = functors w @ (case WriteCompleteCallback (conns w c) of None \<Rightarrow> []
          | Some f \<Rightarrow> [UserF (UserCallF (WriteCompleteCall f c))]) \<and>
        sockets w' = (if state (conns w c) = kDisconnecting
          then snd (sys_shutdown sys s (conn_fd (conns w c))) else s)
      else isWriting (conn_chan w' c) \<and> functors w' = functors w \<and> sockets w' = s)"
proof -
  note I = net_invD [OF inv c]
  let ?conn = "conns w c"
  let ?f = "conn_fd ?conn" and ?out = "OutputBuffer ?conn" and ?r = "channel_of ?conn"
  define b where "b = retrieve n ?out"
  have b: "buf_inv b" "readable b = drop n (readable ?out)"
    "ReadableBytes b = 0 \<longleftrightarrow> n = length (readable ?out)"
  proof -
    show "buf_inv b" "readable b = drop n (readable ?out)" using I(5) by (simp_all add: b_def)
    with socket_write(2) [OF sock ans refl] length_readable [of b]
    show "ReadableBytes b = 0 \<longleftrightarrow> n = length (readable ?out)" by auto
  qed
  from socket_write(2) [OF sock ans refl] n have some: "readable ?out \<noteq> []" "n \<le> length (readable ?out)"
    and acc: "accepted s = (accepted (sockets w))(?f := accepted (sockets w) ?f @ take n (readable ?out))"
    by auto
  have notshut: "\<not> shut s ?f" and sh: "shut s = shut (sockets w)"
    using socket_write(1,4) [OF sock ans] some by auto
  define w2 where "w2 = upd_conn c (\<lambda>conn. conn\<lparr>OutputBuffer := b\<rparr>) (w\<lparr>sockets := s\<rparr>)"
  have w2: "sockets w2 = s" "conns w2 = (conns w)(c := ?conn\<lparr>OutputBuffer := b\<rparr>)"
    "poller_of w2 = poller_of w" "functors w2 = functors w" "conn_chan w2 c = conn_chan w c"
    by (simp_all add: w2_def conn_chan_def)
  have str: "\<forall>d\<in>C. stream accepted d v = stream accepted d w" if "conns v = conns w2" "accepted (sockets v) = accepted s" for v
    by (rule written_streams [OF sock inv c ans that(1) [unfolded w2(2)] that(2) b(2)])
  have HW: "HandleWrite sys c w =
      (if n = length (readable ?out) then
         bindR (with_poller (DisableWriting (sys_ctl (lsys sys)) ?r) w2)
           (\<lambda>w. let w = (case WriteCompleteCallback ?conn of
                           Some f \<Rightarrow> queue_user sys (WriteCompleteCall f c) w | None \<Rightarrow> w)
                in Inr (if state (conns w c) = kDisconnecting then ShutdownInLoop sys c w else w))
       else Inr w2)"
    using wr n ans I(5) b(3) by (simp add: HandleWrite_def Let_def peek_all WriteFromFd_def b_def w2_def)
  show ?thesis
  proof (cases "n = length (readable ?out)")
    case False
    have "net_inv reg shut L C w2"
    proof (rule net_inv_change [OF inv c _ w2(2)])
      show "conn_good (?conn\<lparr>OutputBuffer := b\<rparr>) (fd (conn_chan w2 c)) (isWriting (conn_chan w2 c))
          (shut (sockets w2) (conn_fd (?conn\<lparr>OutputBuffer := b\<rparr>)))"
        using False wr I(3,4) b notshut some(2) by (simp add: conn_good_def w2)
    qed (simp_all add: w2 I sh)
    with False HW str [of w2] wr show ?thesis by (intro exI [of _ w2]) (simp add: w2 b)
  next
    case True
    have "shut (sockets w2) = shut (sockets w)" "readable b = []" "\<not> shut (sockets w) ?f"
      using True notshut by (simp_all add: w2(1) sh b)
    from drained_inv [OF epoll inv c w2(2,3,4) this(1) b(1) this(2,3)] obtain p w4 where
      p: "with_poller (DisableWriting (sys_ctl (lsys sys)) ?r) w2 = Inr (w2\<lparr>poller_of := p\<rparr>)"
      and w4_def: "w4 = (case WriteCompleteCallback ?conn of
        Some f \<Rightarrow> queue_user sys (WriteCompleteCall f c) (w2\<lparr>poller_of := p\<rparr>) | None \<Rightarrow> w2\<lparr>poller_of := p\<rparr>)"
      and inv4: "net_inv reg shut L C w4" and ch: "\<not> isWriting (conn_chan w4 c)"
      and w4: "sockets w4 = sockets w2" "conns w4 = conns w2" "functors w4 = functors w @ (case WriteCompleteCallback ?conn of None \<Rightarrow> []
          | Some f \<Rightarrow> [UserF (UserCallF (WriteCompleteCall f c))])" by blast
    have HW4: "HandleWrite sys c w = Inr (if state ?conn = kDisconnecting then ShutdownInLoop sys c w4 else w4)"
      unfolding HW by (simp add: True p w4_def [symmetric] Let_def w4 w2)
    show ?thesis
    proof (cases "state ?conn = kDisconnecting")
      case False
      with HW4 str [of w4] inv4 ch True show ?thesis by (intro exI [of _ w4]) (simp add: w4 w2 b)
    next
      case dis: True
      let ?w5 = "ShutdownInLoop sys c w4"
      have S: "?w5 = ShutdownWrite sys ?f w4" using ch by (simp add: ShutdownInLoop_def w4 w2)
      note SW = ShutdownWrite_sockets [OF sock]
      have "net_inv reg shut L C ?w5"
        using dis by (intro ShutdownInLoop_inv [OF sock inv4 c]) (simp add: w4 w2)
      moreover have "\<forall>d\<in>C. stream accepted d ?w5 = stream accepted d w"
        by (rule str) (simp_all add: S SW w4 w2)
      moreover have "\<not> isWriting (conn_chan ?w5 c)" using ch by (simp add: S SW)
      moreover have "sockets ?w5 = snd (sys_shutdown sys s ?f)" by (simp add: S ShutdownWrite_def w4 w2)
      ultimately show ?thesis
        using HW4 True dis by (intro exI [of _ ?w5]) (simp add: S SW w4 w2 b)
    qed
  qed
qed

lemma HandleWrite_keeps:
  assumes sock: "socket_laws sys accepted shut" and epoll: "epoll_laws (sys_ctl (lsys sys)) reg"
    and inv: "net_inv reg shut L C w" and c: "c \<in> C"
  shows "\<exists>w'. HandleWrite sys c w = Inr w' \<and> net_inv reg shut L C w' \<and>
     (\<forall>d\<in>C. stream accepted d w' = stream accepted d w)"
proof (cases "isWriting (conn_chan w c)")
  case False
  with inv show ?thesis by (simp add: HandleWrite_def Let_def)
next
  case True
  obtain r s where ans: "sys_write sys (sockets w) (conn_fd (conns w c)) (readable (OutputBuffer (conns w c))) = (r, s)"
    by fastforce
  have idle: ?thesis if r: "r = WrOk 0 \<or> r = WrErr e" for e
  proof -
    have "accepted s = accepted (sockets w)" "shut s = shut (sockets w)"
      using socket_write [OF sock ans] r by auto
    then show ?thesis
      using HandleWrite_nothing [OF net_invD(5) [OF inv c] True ans r] inv
      by (simp add: net_inv_def conn_chan_def stream_def)
  qed
  show ?thesis
  proof (cases r)
    case (WrErr e)
    then show ?thesis using idle by blast
  next
    case (WrOk n)
    with ans have ans': "sys_write sys (sockets w) (conn_fd (conns w c)) (readable (OutputBuffer (conns w c))) = (WrOk n, s)"
      by simp
    show ?thesis
    proof (cases "n = 0")
      case True
      with WrOk idle show ?thesis by blast
    next
      case False
      then have "0 < n" by simp
      from HandleWrite_some [OF sock epoll inv c \<open>isWriting (conn_chan w c)\<close> ans' this]
      show ?thesis by blast
    qed
  qed
qed

text \<open>
  C22. The output buffer drains: when the socket takes \<open>n\<close> bytes, exactly the first \<open>n\<close> bytes of
  the output buffer are gone and nothing is lost; while some are left the channel keeps
  waiting for writing; once all are gone it stops, the write-complete callback is queued, and
  the writing side of the socket is shut down exactly if \<^verbatim>\<open>shutdown\<close> had been asked for
  before.
\<close>

theorem HandleWrite_drains:
  assumes "socket_laws sys accepted shut" and "epoll_laws (sys_ctl (lsys sys)) reg"
    and "net_inv reg shut L C w" and "c \<in> C" and "isWriting (conn_chan w c)"
    and "sys_write sys (sockets w) (conn_fd (conns w c)) (readable (OutputBuffer (conns w c))) = (WrOk n, s)"
    and "0 < n"
  shows "\<exists>w'. HandleWrite sys c w = Inr w' \<and> net_inv reg shut L C w' \<and>
     (\<forall>d\<in>C. stream accepted d w' = stream accepted d w) \<and>
     readable (OutputBuffer (conns w' c)) = drop n (readable (OutputBuffer (conns w c))) \<and>
     (if n = length (readable (OutputBuffer (conns w c)))
      then \<not> isWriting (conn_chan w' c) \<and>
        functors w' = functors w @ (case WriteCompleteCallback (conns w c) of None \<Rightarrow> []
          | Some f \<Rightarrow> [UserF (UserCallF (WriteCompleteCall f c))]) \<and>
        sockets w' = (if state (conns w c) = kDisconnecting
          then snd (sys_shutdown sys s (conn_fd (conns w c))) else s)
      else isWriting (conn_chan w' c) \<and> functors w' = functors w \<and> sockets w' = s)"
  by (rule HandleWrite_some [OF assms])

section \<open>Opening, closing and reading\<close>

text \<open>
  The invariant together with a part \<open>S\<close> of each stream that must stay in it; a user's callback
  that keeps this for every \<open>S\<close> may send, close and so on, as every function of the class may.
\<close>

definition stream_inv :: "('k \<Rightarrow> int \<Rightarrow> epoll_event option) \<Rightarrow> ('s \<Rightarrow> int \<Rightarrow> bool) \<Rightarrow>
    ('s \<Rightarrow> int \<Rightarrow> char list) \<Rightarrow> nat set \<Rightarrow> nat set \<Rightarrow> (nat \<Rightarrow> char list) \<Rightarrow>
    ('t, 'k, 'e, 's, 'x, 'z) net_scheme \<Rightarrow> bool" where
  "stream_inv reg shut accepted L C S w \<longleftrightarrow>
     net_inv reg shut L C w \<and> (\<forall>d\<in>C. prefix (S d) (stream accepted d w))"

definition usr_keeps :: "('u \<Rightarrow> 'w \<Rightarrow> 'w res) \<Rightarrow> ('w \<Rightarrow> bool) \<Rightarrow> bool" where
  "usr_keeps usr P \<longleftrightarrow> (\<forall>u w w'. P w \<longrightarrow> usr u w = Inr w' \<longrightarrow> P w')"

lemma call_user_keeps: "usr_keeps usr P \<Longrightarrow> P w \<Longrightarrow> call_user usr arg f w = Inr w' \<Longrightarrow> P w'"
  unfolding usr_keeps_def call_user_def by (cases f) auto

text \<open>A change of one connection that leaves its output, its descriptor and the sockets alone.\<close>

lemma stream_inv_change:
  assumes inv: "stream_inv reg shut accepted L C S w" and c: "c \<in> C"
    and p: "poller_inv reg L (poller_of w')"
    and conns: "conns w' = (conns w)(c := conn)" "channel_of conn = channel_of (conns w c)"
      "conn_fd conn = conn_fd (conns w c)" "OutputBuffer conn = OutputBuffer (conns w c)"
    and chans: "\<And>r. r \<noteq> channel_of (conns w c) \<Longrightarrow> chans (poller_of w') r = chans (poller_of w) r"
    and socks: "shut (sockets w') = shut (sockets w)" "accepted (sockets w') = accepted (sockets w)"
    and good: "conn_good conn (fd (conn_chan w' c)) (isWriting (conn_chan w' c))
        (shut (sockets w) (conn_fd conn))"
  shows "stream_inv reg shut accepted L C S w'"
proof -
  have "net_inv reg shut L C w"
    using inv by (simp add: stream_inv_def)
  then have "net_inv reg shut L C w'"
    by (rule net_inv_change [OF _ c p conns(1-3) chans]) (use good socks in simp_all)
  moreover have "stream accepted d w' = stream accepted d w" for d
    by (simp add: stream_def conns socks)
  ultimately show ?thesis using inv by (simp add: stream_inv_def)
qed

lemma close_channel_keeps:
  assumes epoll: "epoll_laws (sys_ctl (lsys sys)) reg"
    and inv: "stream_inv reg shut accepted L C S w" and c: "c \<in> C"
  obtains w' where "with_poller (DisableAll (sys_ctl (lsys sys)) (channel_of (conns w c)))
      (upd_conn c (\<lambda>conn. conn\<lparr>state := kDisconnected\<rparr>) w) = Inr w'"
    and "stream_inv reg shut accepted L C S w'"
    and "conns w' = (conns w)(c := (conns w c)\<lparr>state := kDisconnected\<rparr>)"
    and "sockets w' = sockets w" and "events (conn_chan w' c) = 0"
proof -
  have n: "net_inv reg shut L C w" using inv by (simp add: stream_inv_def)
  note I = net_invD [OF n c]
  let ?w = "upd_conn c (\<lambda>conn. conn\<lparr>state := kDisconnected\<rparr>) w"
  have "poller_inv reg L (poller_of ?w)" using I(1) by simp
  from with_poller_change [OF epoll this I(2), of "\<lambda>e. 0"] obtain p where
    p: "with_poller (DisableAll (sys_ctl (lsys sys)) (channel_of (conns w c))) ?w = Inr (?w\<lparr>poller_of := p\<rparr>)"
    "poller_inv reg L p"
    "chans p = (chans (poller_of w))(channel_of (conns w c) :=
       changed (\<lambda>e. 0) (chans (poller_of w) (channel_of (conns w c))))"
    unfolding DisableAll_def upd_conn_simps by blast
  show thesis
  proof (rule that [OF p(1)])
    show "stream_inv reg shut accepted L C S (?w\<lparr>poller_of := p\<rparr>)"
    proof (rule stream_inv_change [OF inv c])
      show "conn_good ((conns w c)\<lparr>state := kDisconnected\<rparr>) (fd (conn_chan (?w\<lparr>poller_of := p\<rparr>) c))
          (isWriting (conn_chan (?w\<lparr>poller_of := p\<rparr>) c))
          (shut (sockets w) (conn_fd ((conns w c)\<lparr>state := kDisconnected\<rparr>)))"
        using I(3-5) by (simp add: conn_good_def conn_chan_def p(3))
    qed (simp_all add: p)
  qed (simp_all add: conn_chan_def p(3))
qed

lemma HandleClose_keeps:
  assumes epoll: "epoll_laws (sys_ctl (lsys sys)) reg"
    and usr: "usr_keeps usr (stream_inv reg shut accepted L C S)"
    and inv: "stream_inv reg shut accepted L C S w" and c: "c \<in> C"
    and ret: "HandleClose sys usr c w = Inr w'"
  shows "stream_inv reg shut accepted L C S w'"
proof -
  obtain w1 where w1: "with_poller (DisableAll (sys_ctl (lsys sys)) (channel_of (conns w c)))
      (upd_conn c (\<lambda>conn. conn\<lparr>state := kDisconnected\<rparr>) w) = Inr w1"
    and inv1: "stream_inv reg shut accepted L C S w1"
    by (rule close_channel_keeps [OF epoll inv c])
  from ret w1 obtain w2 where
    w2: "call_user usr (\<lambda>f. ConnectionCall f c) (ConnectionCallback (conns w1 c)) w1 = Inr w2"
      "call_user usr (\<lambda>f. CloseCall f c) (conn_CloseCallback (conns w2 c)) w2 = Inr w'"
    by (auto simp: HandleClose_def Let_def)
  from call_user_keeps [OF usr call_user_keeps [OF usr inv1 w2(1)] w2(2)] show ?thesis .
qed

lemma remove_channel_keeps:
  assumes epoll: "epoll_laws (sys_ctl (lsys sys)) reg"
    and inv: "stream_inv reg shut accepted L C S w" and c: "c \<in> C"
  obtains w' where "loop_RemoveChannel (lsys sys) (channel_of (conns w c)) w = Inr w'"
    and "stream_inv reg shut accepted L C S w'" and "conns w' = conns w" "sockets w' = sockets w"
    and "ch_state (conn_chan w' c) = NEW"
proof -
  have n: "net_inv reg shut L C w" using inv by (simp add: stream_inv_def)
  note I = net_invD [OF n c]
  let ?r = "channel_of (conns w c)"
  obtain p where p: "RemoveChannel (sys_ctl (lsys sys)) ?r (poller_of w) = Inr p" "poller_inv reg L p"
    "chans p = (chans (poller_of w))(?r := SetState NEW (chans (poller_of w) ?r))"
    by (rule RemoveChannel_inv [OF epoll I(1,2)])
  let ?w = "w\<lparr>poller_of := p\<rparr>"
  have ch: "conn_chan ?w c = SetState NEW (conn_chan w c)" by (simp add: conn_chan_def p)
  show thesis
  proof (rule that)
    show "loop_RemoveChannel (lsys sys) ?r w = Inr ?w"
      by (simp add: loop_RemoveChannel_def with_poller_def p)
    show "stream_inv reg shut accepted L C S ?w"
    proof (rule stream_inv_change [OF inv c, where conn = "conns w c"])
      show "conn_good (conns w c) (fd (conn_chan ?w c)) (isWriting (conn_chan ?w c))
          (shut (sockets w) (conn_fd (conns w c)))"
        using n c unfolding ch by (simp add: net_inv_def SetState_def isWriting_def)
    qed (simp_all add: p)
  qed (simp_all add: ch SetState_def)
qed

lemma ConnectDestoryed_keeps:
  assumes epoll: "epoll_laws (sys_ctl (lsys sys)) reg"
    and usr: "usr_keeps usr (stream_inv reg shut accepted L C S)"
    and inv: "stream_inv reg shut accepted L C S w" and c: "c \<in> C"
    and ret: "ConnectDestoryed sys usr c w = Inr w'"
  shows "stream_inv reg shut accepted L C S w'"
proof -
  have rm: "stream_inv reg shut accepted L C S w'" if "stream_inv reg shut accepted L C S v"
    "loop_RemoveChannel (lsys sys) (channel_of (conns v c)) v = Inr w'" for v
    using that remove_channel_keeps [OF epoll that(1) c] by (metis sum.inject(2))
  show ?thesis
  proof (cases "state (conns w c) = kConnected")
    case False
    with ret rm [OF inv] show ?thesis by (simp add: ConnectDestoryed_def)
  next
    case True
    obtain w1 where w1: "with_poller (DisableAll (sys_ctl (lsys sys)) (channel_of (conns w c)))
        (upd_conn c (\<lambda>conn. conn\<lparr>state := kDisconnected\<rparr>) w) = Inr w1"
      and inv1: "stream_inv reg shut accepted L C S w1"
      by (rule close_channel_keeps [OF epoll inv c])
    from ret w1 True obtain w2 where
      w2: "call_user usr (\<lambda>f. ConnectionCall f c) (ConnectionCallback (conns w1 c)) w1 = Inr w2"
        "loop_RemoveChannel (lsys sys) (channel_of (conns w2 c)) w2 = Inr w'"
      by (auto simp: ConnectDestoryed_def Let_def)
    from rm [OF call_user_keeps [OF usr inv1 w2(1)] w2(2)] show ?thesis .
  qed
qed

end
