(* ===== verification/Tcp_Stream.thy ===== *)
theory Tcp_Stream
  imports Tcp_Connection
begin

text \<open>
  What the handlers of \<^verbatim>\<open>TcpConnection\<close> guarantee together: sequences of sends, shutdowns
  and socket events on several connections keep every stream, a shut-down connection has sent
  everything, and what happens around closing: late sends, hang-ups, pointers bound by other
  threads.
\<close>

section \<open>Reading\<close>

lemma ReadFromFd_inv:
  assumes "buf_inv b" and "readv_answer r b" and "ReadFromFd r b = Inr (n, e, b')"
  shows "buf_inv b'"
proof (cases r)
  case (RdErr x)
  with assms show ?thesis by (simp add: ReadFromFd_def)
next
  case (RdOk bs)
  with ReadFromFd_cases [OF assms(1), of bs] assms show ?thesis by (auto split: if_splits)
qed

lemma read_keeps:
  assumes sock: "socket_laws sys accepted shut"
    and inv: "stream_inv reg shut accepted L C S w" and c: "c \<in> C"
    and rd: "sys_read sys (sockets w) (conn_fd (conns w c)) (readv_capacity (InputBuffer (conns w c))) = (r, s)"
    and ret: "ReadFromFd r (InputBuffer (conns w c)) = Inr (n, e, b)"
  shows "stream_inv reg shut accepted L C S
      (upd_conn c (\<lambda>conn. conn\<lparr>InputBuffer := b\<rparr>) (w\<lparr>sockets := s\<rparr>))" (is "stream_inv _ _ _ _ _ _ ?w")
proof (rule stream_inv_change [OF inv c])
  have n: "net_inv reg shut L C w" using inv by (simp add: stream_inv_def)
  note I = net_invD [OF n c]
  have "readv_answer r (InputBuffer (conns w c))"
    using socket_read(3) [OF sock rd] by (simp add: readv_answer_def split: rd_result.split)
  from ReadFromFd_inv [OF I(4) this ret] have b: "buf_inv b" .
  have ch: "conn_chan ?w c = conn_chan w c" by (simp add: conn_chan_def)
  show "conn_good ((conns w c)\<lparr>InputBuffer := b\<rparr>) (fd (conn_chan ?w c)) (isWriting (conn_chan ?w c))
      (shut (sockets w) (conn_fd ((conns w c)\<lparr>InputBuffer := b\<rparr>)))"
    using I(3,5,6,7) b unfolding ch by (simp add: conn_good_def)
  show "poller_inv reg L (poller_of ?w)" using I(1) by simp
qed (simp_all add: socket_read [OF sock rd])

lemma HeadleRead_eq:
  assumes "sys_read sys (sockets w) (conn_fd (conns w c)) (readv_capacity (InputBuffer (conns w c))) = (r, s)"
    and "ReadFromFd r (InputBuffer (conns w c)) = Inr (n, e, b)"
    and "w1 = upd_conn c (\<lambda>conn. conn\<lparr>InputBuffer := b\<rparr>) (w\<lparr>sockets := s\<rparr>)"
  shows "HeadleRead sys usr c t w =
      (if 0 < n then (case MessageCallback (conns w c) of None \<Rightarrow> Inl BadFunctionCall
                      | Some f \<Rightarrow> usr (MessageCall f c t) w1)
       else if n = 0 then HandleClose sys usr c w1 else Inr w1)"
  unfolding assms(3) by (simp add: HeadleRead_def assms(1,2) Let_def)

lemma HeadleRead_keeps:
  assumes sock: "socket_laws sys accepted shut" and epoll: "epoll_laws (sys_ctl (lsys sys)) reg"
    and usr: "usr_keeps usr (stream_inv reg shut accepted L C S)"
    and inv: "stream_inv reg shut accepted L C S w" and c: "c \<in> C"
    and ret: "HeadleRead sys usr c t w = Inr w'"
  shows "stream_inv reg shut accepted L C S w'"
proof -
  obtain r s where rd: "sys_read sys (sockets w) (conn_fd (conns w c))
      (readv_capacity (InputBuffer (conns w c))) = (r, s)" by fastforce
  from ret obtain n e b where b: "ReadFromFd r (InputBuffer (conns w c)) = Inr (n, e, b)"
    by (auto simp: HeadleRead_def rd Let_def)
  let ?w = "upd_conn c (\<lambda>conn. conn\<lparr>InputBuffer := b\<rparr>) (w\<lparr>sockets := s\<rparr>)"
  have inv1: "stream_inv reg shut accepted L C S ?w" by (rule read_keeps [OF sock inv c rd b])
  note eq = HeadleRead_eq [OF rd b refl, of usr t]
  show ?thesis
  proof (cases "0 < n")
    case True
    with ret eq obtain f where "usr (MessageCall f c t) ?w = Inr w'" by (auto split: option.splits)
    with usr inv1 show ?thesis unfolding usr_keeps_def by blast
  next
    case False
    with ret eq HandleClose_keeps [OF epoll usr inv1 c] inv1 show ?thesis by (auto split: if_splits)
  qed
qed

text \<open>
  The branches of the read handler: the bytes that arrived are added to the input buffer
  and the message callback is called with them, an empty \<^verbatim>\<open>std::function\<close> being called if
  none is set; the end of the stream closes the connection; an error is only logged. A read
  that does not fit the input buffer is written out of bounds.
\<close>

theorem HeadleRead_branches:
  assumes "socket_laws sys accepted shut" and "net_inv reg shut L C w" and "c \<in> C"
    and "sys_read sys (sockets w) (conn_fd (conns w c)) (readv_capacity (InputBuffer (conns w c))) = (r, s)"
  shows "case r of
      RdErr e \<Rightarrow> HeadleRead sys usr c t w = Inr (upd_conn c id (w\<lparr>sockets := s\<rparr>))
    | RdOk bs \<Rightarrow>
        if length bs \<le> writeable (InputBuffer (conns w c)) + (ReaderIndex (InputBuffer (conns w c)) - kCheapPrepend)
        then \<exists>b. readable b = readable (InputBuffer (conns w c)) @ bs \<and>
          HeadleRead sys usr c t w =
            (let w' = upd_conn c (\<lambda>conn. conn\<lparr>InputBuffer := b\<rparr>) (w\<lparr>sockets := s\<rparr>) in
             if bs = [] then HandleClose sys usr c w'
             else case MessageCallback (conns w c) of
                    None \<Rightarrow> Inl BadFunctionCall
                  | Some f \<Rightarrow> usr (MessageCall f c t) w')
        else HeadleRead sys usr c t w = Inl OutOfBounds"
proof (cases r)
  case (RdErr e)
  have "conn\<lparr>InputBuffer := InputBuffer conn\<rparr> = conn" for conn :: "'a tcp_connection" by simp
  with RdErr assms(4) show ?thesis
    by (simp add: HeadleRead_def ReadFromFd_def Let_def upd_conn_def)
next
  case (RdOk bs)
  let ?b = "InputBuffer (conns w c)"
  have rd: "sys_read sys (sockets w) (conn_fd (conns w c)) (readv_capacity ?b) = (RdOk bs, s)"
    using assms(4) RdOk by simp
  have "readv_answer (RdOk bs) ?b"
    using socket_read(3) [OF assms(1,4) RdOk] by (simp add: readv_answer_def)
  note E = ReadFromFd_cases [OF net_invD(4) [OF assms(2,3)] this]
  show ?thesis
  proof (cases "length bs \<le> writeable ?b + (ReaderIndex ?b - kCheapPrepend)")
    case True
    with E obtain b where b: "ReadFromFd (RdOk bs) ?b = Inr (int (length bs), None, b)"
      "readable b = readable ?b @ bs" by auto
    from HeadleRead_eq [OF rd b(1) refl, of usr t] b(2) True show ?thesis
      by (simp add: RdOk Let_def) (metis append_Nil2)
  next
    case False
    with E have "ReadFromFd (RdOk bs) ?b = Inl OutOfBounds" by simp
    with False rd show ?thesis by (simp add: RdOk HeadleRead_def Let_def)
  qed
qed

section \<open>Opening\<close>

lemma tie_inv:
  assumes "poller_inv reg L p"
  shows "poller_inv reg L (upd_chan r (set_tie c) p)"
  by (rule poller_inv_quiet [OF assms]) (simp_all add: set_tie_def)

lemma ConnectEstablished_opens:
  assumes epoll: "epoll_laws (sys_ctl (lsys sys)) reg"
    and inv: "stream_inv reg shut accepted L C S w" and c: "c \<in> C"
    and st: "state (conns w c) = kConnecting"
  obtains w' where "\<And>usr. ConnectEstablished sys usr c w =
      call_user usr (\<lambda>f. ConnectionCall f c) (ConnectionCallback (conns w' c)) w'"
    and "stream_inv reg shut accepted L C S w'" and "sockets w' = sockets w"
    and "conns w' = (conns w)(c := (conns w c)\<lparr>state := kConnected\<rparr>)" and "conn_alive w' = conn_alive w"
    and "isReading (conn_chan w' c)" and "ch_state (conn_chan w' c) = ADD"
proof -
  have n: "net_inv reg shut L C w" using inv by (simp add: stream_inv_def)
  note I = net_invD [OF n c]
  let ?r = "channel_of (conns w c)" and ?conn = "(conns w c)\<lparr>state := kConnected\<rparr>"
  define w1 where "w1 = (upd_conn c (\<lambda>conn. conn\<lparr>state := kConnected\<rparr>) w)
      \<lparr>poller_of := upd_chan ?r (set_tie c) (poller_of w)\<rparr>"
  have w1: "conns w1 = (conns w)(c := ?conn)" "sockets w1 = sockets w" "conn_alive w1 = conn_alive w"
    "poller_of w1 = upd_chan ?r (set_tie c) (poller_of w)" by (simp_all add: w1_def)
  have "poller_inv reg L (poller_of w1)" unfolding w1 by (rule tie_inv [OF I(1)])
  from with_poller_change [OF epoll this I(2), of "\<lambda>e. e OR (POLLIN OR POLLPRI)"] obtain p where
    p: "with_poller (EnableReading (sys_ctl (lsys sys)) ?r) w1 = Inr (w1\<lparr>poller_of := p\<rparr>)"
    "poller_inv reg L p"
    "chans p = (chans (poller_of w1))(?r := changed (\<lambda>e. e OR (POLLIN OR POLLPRI)) (chans (poller_of w1) ?r))"
    unfolding EnableReading_def by blast
  let ?w2 = "w1\<lparr>poller_of := p\<rparr>"
  have ch: "isWriting (conn_chan ?w2 c) = isWriting (conn_chan w c)" "fd (conn_chan ?w2 c) = fd (conn_chan w c)"
    "isReading (conn_chan ?w2 c)" "ch_state (conn_chan ?w2 c) = ADD"
    using reading_bits(1,3,5) [of "events (chans (poller_of w) ?r)"]
    by (simp_all add: conn_chan_def w1 p(3) upd_chan_def set_tie_def isWriting_def isReading_def changed_def)
  have inv2: "stream_inv reg shut accepted L C S ?w2"
  proof (rule stream_inv_change [OF inv c, where conn = ?conn])
    show "conn_good ?conn (fd (conn_chan ?w2 c)) (isWriting (conn_chan ?w2 c))
        (shut (sockets w) (conn_fd ?conn))"
      using I(3-7) st unfolding ch by (auto simp: conn_good_def)
    show "chans (poller_of ?w2) r = chans (poller_of w) r" if "r \<noteq> ?r" for r
      using that by (simp add: p(3) w1 upd_chan_def)
  qed (simp_all add: w1 p(2))
  have "ConnectEstablished sys usr c w =
      call_user usr (\<lambda>f. ConnectionCall f c) (ConnectionCallback (conns ?w2 c)) ?w2" for usr
    using p(1) by (simp add: ConnectEstablished_def Let_def w1_def)
  then show thesis by (rule that [of ?w2]) (use inv2 w1 ch in simp_all)
qed

lemma ConnectEstablished_keeps:
  assumes epoll: "epoll_laws (sys_ctl (lsys sys)) reg"
    and usr: "usr_keeps usr (stream_inv reg shut accepted L C S)"
    and inv: "stream_inv reg shut accepted L C S w" and c: "c \<in> C"
    and st: "state (conns w c) = kConnecting"
    and ret: "ConnectEstablished sys usr c w = Inr w'"
  shows "stream_inv reg shut accepted L C S w'"
  by (rule ConnectEstablished_opens [OF epoll inv c st]) (use ret call_user_keeps [OF usr] in auto)

section \<open>Sequences of operations\<close>

text \<open>
  What the loop's thread does to the connections: it runs the functions of the class, the
  handlers of the channels, and sends other threads have queued (\<open>OpLateSend\<close>).
\<close>

datatype conn_op =
    OpSend nat "char list"
  | OpLateSend nat "char list"
  | OpShutdown nat
  | OpReadable nat timestamp
  | OpWritable nat
  | OpDestroy nat

fun op_conn :: "conn_op \<Rightarrow> nat" where
  "op_conn (OpSend c d) = c"
| "op_conn (OpLateSend c d) = c"
| "op_conn (OpShutdown c) = c"
| "op_conn (OpReadable c t) = c"
| "op_conn (OpWritable c) = c"
| "op_conn (OpDestroy c) = c"

fun op_size :: "conn_op \<Rightarrow> nat" where
  "op_size (OpSend c d) = length d"
| "op_size (OpLateSend c d) = length d"
| "op_size _ = 0"

fun do_conn_op :: "('k, 'e, 's) net_sys \<Rightarrow>
    ('x user_call \<Rightarrow> ('t, 'k, 'e, 's, 'x, 'z) net_scheme \<Rightarrow> ('t, 'k, 'e, 's, 'x, 'z) net_scheme res) \<Rightarrow>
    conn_op \<Rightarrow> ('t, 'k, 'e, 's, 'x, 'z) net_scheme \<Rightarrow> ('t, 'k, 'e, 's, 'x, 'z) net_scheme res" where
  "do_conn_op sys usr (OpSend c d) w =
     (if state (conns w c) = kConnected then SendInLoop sys c d w else Inr w)"
| "do_conn_op sys usr (OpLateSend c d) w = SendInLoop sys c d w"
| "do_conn_op sys usr (OpShutdown c) w = shutdown sys usr True c w"
| "do_conn_op sys usr (OpReadable c t) w = HeadleRead sys usr c t w"
| "do_conn_op sys usr (OpWritable c) w = HandleWrite sys c w"
| "do_conn_op sys usr (OpDestroy c) w = ConnectDestoryed sys usr c w"

lemma SendInLoop_keeps_inv:
  assumes sock: "socket_laws sys accepted shut" and epoll: "epoll_laws (sys_ctl (lsys sys)) reg"
    and inv: "stream_inv reg shut accepted L C S w" and c: "c \<in> C" and len: "length d \<le> max_size"
    and ret: "SendInLoop sys c d w = Inr w'"
  shows "stream_inv reg shut accepted L C S w'"
proof -
  have n: "net_inv reg shut L C w" and pre: "\<And>d. d \<in> C \<Longrightarrow> prefix (S d) (stream accepted d w)"
    using inv by (simp_all add: stream_inv_def)
  note K = SendInLoop_keeps [OF sock epoll n c len ret]
  have "prefix (S e) (stream accepted e w')" if "e \<in> C" for e
    using K pre [OF that] that by (cases "e = c") (auto simp: prefix_def)
  with K show ?thesis by (simp add: stream_inv_def)
qed

lemma shutdown_keeps:
  assumes sock: "socket_laws sys accepted shut"
    and inv: "stream_inv reg shut accepted L C S w" and c: "c \<in> C"
    and ret: "shutdown sys usr True c w = Inr w'"
  shows "stream_inv reg shut accepted L C S w'"
proof (cases "state (conns w c) = kConnected")
  case False
  with ret inv show ?thesis by (simp add: shutdown_def)
next
  case True
  have n: "net_inv reg shut L C w" using inv by (simp add: stream_inv_def)
  note I = net_invD [OF n c]
  let ?conn = "(conns w c)\<lparr>state := kDisconnecting\<rparr>"
  let ?w = "upd_conn c (\<lambda>conn. conn\<lparr>state := kDisconnecting\<rparr>) w"
  have ch: "conn_chan ?w c = conn_chan w c" by (simp add: conn_chan_def)
  have inv1: "stream_inv reg shut accepted L C S ?w"
  proof (rule stream_inv_change [OF inv c])
    show "conn_good ?conn (fd (conn_chan ?w c)) (isWriting (conn_chan ?w c))
        (shut (sockets w) (conn_fd ?conn))"
      using I(3-7) True unfolding ch by (auto simp: conn_good_def)
    show "poller_inv reg L (poller_of ?w)" using I(1) by simp
  qed simp_all
  have w': "w' = ShutdownInLoop sys c ?w"
    using ret True by (simp add: shutdown_def run_in_loop_def RunInLoop_def split: if_splits)
  have "net_inv reg shut L C w'"
    unfolding w' by (rule ShutdownInLoop_inv [OF sock _ c]) (use inv1 in \<open>simp_all add: stream_inv_def\<close>)
  moreover have "stream accepted d w' = stream accepted d ?w" for d
    unfolding w' ShutdownInLoop_def by (simp add: stream_def ShutdownWrite_sockets [OF sock])
  ultimately show ?thesis using inv1 by (simp add: stream_inv_def)
qed

lemma do_conn_op_keeps:
  assumes sock: "socket_laws sys accepted shut" and epoll: "epoll_laws (sys_ctl (lsys sys)) reg"
    and usr: "usr_keeps usr (stream_inv reg shut accepted L C S)"
    and inv: "stream_inv reg shut accepted L C S w" and c: "op_conn q \<in> C" and len: "op_size q \<le> max_size"
    and ret: "do_conn_op sys usr q w = Inr w'"
  shows "stream_inv reg shut accepted L C S w'"
proof (cases q)
  case (OpWritable d)
  with c have d: "d \<in> C" by simp
  have n: "net_inv reg shut L C w" using inv by (simp add: stream_inv_def)
  from HandleWrite_keeps [OF sock epoll n d] ret OpWritable
  have "net_inv reg shut L C w'" "\<forall>d\<in>C. stream accepted d w' = stream accepted d w" by auto
  with inv show ?thesis by (simp add: stream_inv_def)
qed (use c len ret inv SendInLoop_keeps_inv [OF sock epoll inv] shutdown_keeps [OF sock inv]
      HeadleRead_keeps [OF sock epoll usr inv] ConnectDestoryed_keeps [OF epoll usr inv]
      in \<open>auto split: if_splits\<close>)

lemma conn_ops_inv:
  assumes "socket_laws sys accepted shut" and "epoll_laws (sys_ctl (lsys sys)) reg"
    and "\<And>S. usr_keeps usr (stream_inv reg shut accepted L C S)"
    and "net_inv reg shut L C w"
    and "\<forall>q\<in>set ops. op_conn q \<in> C \<and> op_size q \<le> max_size"
    and "foldR (do_conn_op sys usr) ops w = Inr w'"
  shows "stream_inv reg shut accepted L C (\<lambda>c. stream accepted c w) w'"
proof -
  let ?P = "stream_inv reg shut accepted L C (\<lambda>c. stream accepted c w)"
  have "?P w" using assms(4) by (simp add: stream_inv_def)
  with assms(6) show P: "?P w'"
  proof (rule foldR_invariant)
    fix q t t' assume "q \<in> set ops" "?P t" "do_conn_op sys usr q t = Inr t'"
    with assms(5) do_conn_op_keeps [OF assms(1-3)] show "?P t'" by blast
  qed
qed

text \<open>
  C1. Over any sequence of sends, shutdowns, socket events and removals on any of the
  connections, with user callbacks that themselves use the class in any way: nothing that is in
  a connection's stream is lost, doubled or overtaken (what was in the stream before stays its
  beginning), every output buffer that holds something waits for writing, and a connection that
  is being closed has its writing side shut down only when the kernel has taken the whole
  stream.
\<close>

theorem conn_ops_keep_streams:
  assumes "socket_laws sys accepted shut" and "epoll_laws (sys_ctl (lsys sys)) reg"
    and "\<And>S. usr_keeps usr (stream_inv reg shut accepted L C S)"
    and "net_inv reg shut L C w"
    and "\<forall>q\<in>set ops. op_conn q \<in> C \<and> op_size q \<le> max_size"
    and "foldR (do_conn_op sys usr) ops w = Inr w'"
  shows "net_inv reg shut L C w' \<and>
     (\<forall>c\<in>C. prefix (stream accepted c w) (stream accepted c w') \<and>
        (state (conns w' c) \<noteq> kDisconnected \<longrightarrow>
           isWriting (conn_chan w' c) = (readable (OutputBuffer (conns w' c)) \<noteq> [])) \<and>
        (state (conns w' c) \<noteq> kDisconnected \<and> shut (sockets w') (conn_fd (conns w' c)) \<longrightarrow>
           accepted (sockets w') (conn_fd (conns w' c)) = stream accepted c w'))"
proof -
  have "stream_inv reg shut accepted L C (\<lambda>c. stream accepted c w) w'"
    by (rule conn_ops_inv [OF assms])
  then have inv: "net_inv reg shut L C w'" and pre: "\<And>c. c \<in> C \<Longrightarrow> prefix (stream accepted c w) (stream accepted c w')"
    by (simp_all add: stream_inv_def)
  have "accepted (sockets w') (conn_fd (conns w' c)) = stream accepted c w'"
    if "c \<in> C" "state (conns w' c) \<noteq> kDisconnected" "shut (sockets w') (conn_fd (conns w' c))" for c
    using net_invD(7) [OF inv that(1,3)] that(2) by (simp add: stream_def)
  with inv pre net_invD(6) [OF inv] show ?thesis by blast
qed

section \<open>Closing\<close>

lemma net_inv_stream: "net_inv reg shut L C w = stream_inv reg shut (\<lambda>_ _. []) L C (\<lambda>_. []) w"
  by (simp add: stream_inv_def)

text \<open>Destroying a closed connection takes its channel out of the poller and of the kernel's set.\<close>

lemma destroy_disconnected:
  assumes "epoll_laws (sys_ctl (lsys sys)) reg" and "net_inv reg shut L C w" and "c \<in> C"
    and st: "state (conns w c) = kDisconnected"
  obtains w' where "\<forall>usr. ConnectDestoryed sys usr c w = Inr w'" and "net_inv reg shut L C w'"
    and "conns w' = conns w" and "\<not> hasChannel (channel_of (conns w c)) (poller_of w')"
    and "reg (epoll (poller_of w')) (conn_fd (conns w c)) = None"
proof -
  have s: "stream_inv reg shut (\<lambda>_ _. []) L C (\<lambda>_. []) w" using assms(2) net_inv_stream by blast
  obtain w2 where w2: "loop_RemoveChannel (lsys sys) (channel_of (conns w c)) w = Inr w2"
    and inv2: "stream_inv reg shut (\<lambda>_ _. []) L C (\<lambda>_. []) w2"
    and same: "conns w2 = conns w" and new: "ch_state (conn_chan w2 c) = NEW"
    by (rule remove_channel_keeps [OF assms(1) s assms(3)])
  have n2: "net_inv reg shut L C w2" using inv2 net_inv_stream by blast
  note I = net_invD [OF n2 assms(3)]
  note D = poller_invD [OF I(1,2)]
  have new': "ch_state (chans (poller_of w2) (channel_of (conns w2 c))) = NEW"
    using new by (simp add: conn_chan_def)
  have "\<not> hasChannel (channel_of (conns w c)) (poller_of w2)"
    using D(1) new' same by (simp add: hasChannel_def)
  moreover have "reg (epoll (poller_of w2)) (conn_fd (conns w c)) = None"
    using D(2) new' I(3) same by (simp add: conn_chan_def)
  moreover have "ConnectDestoryed sys usr c w = Inr w2" for usr
    using st w2 by (simp add: ConnectDestoryed_def)
  ultimately show thesis using that n2 same by blast
qed

text \<open>
  The end of a connection: once \<^verbatim>\<open>HandleClose\<close> has returned (the user's callbacks may
  do what they like, but no function of the class brings a connection back to another state),
  \<^verbatim>\<open>ConnectDestoryed\<close> always returns, calls no user callback (it behaves the same whatever
  the callbacks do) and leaves the poller without the channel and the kernel without its
  descriptor, so that the descriptor's number can be used again.
\<close>

theorem close_then_destroy:
  assumes "epoll_laws (sys_ctl (lsys sys)) reg" and "net_inv reg shut L C w" and "c \<in> C"
    and "usr_keeps usr (\<lambda>w. net_inv reg shut L C w \<and> state (conns w c) = kDisconnected)"
    and "HandleClose sys usr c w = Inr w1"
  shows "\<exists>w2. (\<forall>usr'. ConnectDestoryed sys usr' c w1 = Inr w2) \<and> net_inv reg shut L C w2 \<and>
     state (conns w2 c) = kDisconnected \<and> \<not> hasChannel (channel_of (conns w2 c)) (poller_of w2) \<and>
     reg (epoll (poller_of w2)) (conn_fd (conns w2 c)) = None"
proof -
  let ?P = "\<lambda>w. net_inv reg shut L C w \<and> state (conns w c) = kDisconnected"
  have s: "stream_inv reg shut (\<lambda>_ _. []) L C (\<lambda>_. []) w" using assms(2) net_inv_stream by blast
  obtain v where v: "with_poller (DisableAll (sys_ctl (lsys sys)) (channel_of (conns w c)))
      (upd_conn c (\<lambda>conn. conn\<lparr>state := kDisconnected\<rparr>) w) = Inr v"
    and vs: "stream_inv reg shut (\<lambda>_ _. []) L C (\<lambda>_. []) v"
    and vc: "conns v = (conns w)(c := (conns w c)\<lparr>state := kDisconnected\<rparr>)"
    by (rule close_channel_keeps [OF assms(1) s assms(3)])
  have P: "?P v" using vs vc by (simp add: stream_inv_def)
  from assms(5) v obtain u where
    u: "call_user usr (\<lambda>f. ConnectionCall f c) (ConnectionCallback (conns v c)) v = Inr u"
      "call_user usr (\<lambda>f. CloseCall f c) (conn_CloseCallback (conns u c)) u = Inr w1"
    by (auto simp: HandleClose_def Let_def)
  have P1: "?P w1" by (rule call_user_keeps [OF assms(4) call_user_keeps [OF assms(4) P u(1)] u(2)])
  then have n1: "net_inv reg shut L C w1" and d1: "state (conns w1 c) = kDisconnected" by simp_all
  obtain w2 where "\<forall>usr. ConnectDestoryed sys usr c w1 = Inr w2" and "net_inv reg shut L C w2"
    and "conns w2 = conns w1" and "\<not> hasChannel (channel_of (conns w1 c)) (poller_of w2)"
    and "reg (epoll (poller_of w2)) (conn_fd (conns w1 c)) = None"
    by (rule destroy_disconnected [OF assms(1) n1 assms(3) d1])
  with d1 show ?thesis by auto
qed

text \<open>
  \<^verbatim>\<open>SendInLoop\<close> goes on after it has found the connection closed: a send that another
  thread had queued, run after the connection was closed and its channel removed, puts the
  channel back into the poller and its descriptor back into the kernel's interest set when
  the socket does not take the bytes at once.
\<close>

theorem late_send_registers_again:
  assumes "socket_laws sys accepted shut" and "epoll_laws (sys_ctl (lsys sys)) reg"
    and "net_inv reg shut L C w" and "c \<in> C"
    and "state (conns w c) = kDisconnected" and "ch_state (conn_chan w c) = NEW"
    and "events (conn_chan w c) = 0" and "readable (OutputBuffer (conns w c)) = []"
    and "d \<noteq> []" and "length d \<le> writeable (OutputBuffer (conns w c))"
    and "sys_write sys (sockets w) (conn_fd (conns w c)) d = (WrErr EAGAIN, s)"
  shows "\<exists>w'. SendInLoop sys c d w = Inr w' \<and> state (conns w' c) = kDisconnected \<and>
     hasChannel (channel_of (conns w' c)) (poller_of w') \<and>
     reg (epoll (poller_of w')) (conn_fd (conns w' c)) =
       Some \<lparr>ev_events = POLLOUT, ev_ptr = channel_of (conns w' c)\<rparr>"
proof -
  note I = net_invD [OF assms(3,4)]
  let ?out = "OutputBuffer (conns w c)" and ?w1 = "w\<lparr>sockets := s\<rparr>"
  have nw: "\<not> isWriting (conn_chan w c)" by (simp add: isWriting_def assms(7))
  have len: "length d \<le> max_size" using assms(10) buf_invD(3,4) [OF I(5)] by (simp add: writeable_def)
  have "ReadableBytes ?out = 0" using length_readable [OF I(5)] assms(8) by simp
  then have wd: "write_direct sys c d w = (0, length d, False, ?w1)"
    using nw assms(11) I(3) by (simp add: write_direct_def EAGAIN_def EPIPE_def ECONNRESET_def)
  note W = write_direct_spec [OF assms(1,3,4) len wd]
  have inv1: "net_inv reg shut L C ?w1" using assms(3) W(4) by (simp add: net_inv_def conn_chan_def)
  obtain b where b: "append_buf d ?out = Inr b" using append_in_place [OF I(5) assms(10)] by blast
  from keep_rest_spec [OF assms(2) inv1 assms(4), of d] b nw obtain w' where
    w': "keep_rest sys c d ?w1 = Inr w'" "conns w' = (conns w)(c := (conns w c)\<lparr>OutputBuffer := b\<rparr>)"
      "poller_inv reg L (poller_of w')" "conn_chan w' c = changed (\<lambda>e. e OR POLLOUT) (conn_chan w c)"
    by (auto simp: conn_chan_def)
  have ch: "chans (poller_of w') (channel_of (conns w c)) = changed (\<lambda>e. e OR POLLOUT) (conn_chan w c)"
    using w'(4) by (simp add: conn_chan_def w'(2))
  note D = poller_invD [OF w'(3) I(2)]
  have st: "ch_state (changed (\<lambda>e. e OR POLLOUT) (conn_chan w c)) = ADD"
    using assms(6) by (simp add: changed_def)
  have "SendInLoop sys c d w = Inr w'" using wd w'(1) assms(9) by (simp add: SendInLoop_def)
  moreover have "hasChannel (channel_of (conns w c)) (poller_of w')"
    using D(1) by (simp add: hasChannel_def ch st)
  moreover have "reg (epoll (poller_of w')) (conn_fd (conns w c)) =
      Some \<lparr>ev_events = POLLOUT, ev_ptr = channel_of (conns w c)\<rparr>"
    using D(2) I(3) by (simp add: ch st assms(7))
  ultimately show ?thesis using assms(5) by (simp add: w'(2))
qed

text \<open>
  No connection reacts to a hang-up or an error of its socket alone: the constructor sets
  neither the close nor the error callback of the channel, so an event without readable and
  writable bits changes nothing, although \<^verbatim>\<open>epoll\<close> reports it again and again.
\<close>

theorem hangup_is_ignored:
  assumes "revents (conn_chan w c) AND (POLLIN OR POLLPRI) = 0" and "revents (conn_chan w c) AND POLLOUT = 0"
    and "CloseCallback (conn_chan w c) = CloseCallback (conn_chan (new_TcpConnection d name f r v) d)"
    and "ErrorCallback (conn_chan w c) = ErrorCallback (conn_chan (new_TcpConnection d name f r v) d)"
  shows "handle_channel alive run (channel_of (conns w c)) t w = Inr w"
proof -
  have "CloseCallback (conn_chan w c) = None" "ErrorCallback (conn_chan w c) = None"
    using assms(3,4)
    by (simp_all add: new_TcpConnection_def conn_chan_def upd_conn_def upd_chan_def new_Channel_def
        SetReadCallback_def SetWriteCallback_def)
  with assms(1,2) show ?thesis
    by (simp add: handle_channel_def HandleEvent_def HandleEventWithGuard_def fire_def conn_chan_def
        split: option.split)
qed

text \<open>
  A send from another thread binds the address of the caller's characters, not a copy:
  if the string lives until the loop runs the functor its bytes are sent, and if it is gone
  by then the functor reads through a dangling pointer.
\<close>

theorem cross_thread_send:
  assumes "state (conns w c) = kConnected" and "strings w i = Some d" and "conn_alive w c"
  shows "\<exists>f w'. send_string sys usr False c i w = Inr w' \<and> functors w' = functors w @ [f] \<and>
     run_functor (lsys sys) (run_conn_functor sys usr) f w' = SendInLoop sys c d w' \<and>
     run_functor (lsys sys) (run_conn_functor sys usr) f (w'\<lparr>strings := (strings w')(i := None)\<rparr>)
       = Inl DanglingPointer"
  using assms
  by (intro exI [of _ "UserF (SendInLoopF c (StringData i) (length d))"]
        exI [of _ "QueueInLoop (lsys sys) False (UserF (SendInLoopF c (StringData i) (length d))) w"])
    (simp add: send_string_def run_in_loop_def RunInLoop_def QueueInLoop_def wakeup_def)

section \<open>A kernel and a server for the witnesses\<close>

text \<open>
  Sockets that take at most four bytes at a time (none on descriptor 9) and deliver what is in
  their inbox.
\<close>

record demo_sockets =
  taken :: "int \<Rightarrow> char list"
  closed :: "int \<Rightarrow> bool"
  inbox :: "int \<Rightarrow> char list"

definition demo_write :: "demo_sockets \<Rightarrow> int \<Rightarrow> char list \<Rightarrow> wr_result \<times> demo_sockets" where
  "demo_write s f d =
     (if closed s f \<and> d \<noteq> [] then (WrErr EPIPE, s)
      else if f = 9 then (WrErr EAGAIN, s)
      else (WrOk (min 4 (length d)), s\<lparr>taken := (taken s)(f := taken s f @ take 4 d)\<rparr>))"

definition demo_read :: "demo_sockets \<Rightarrow> int \<Rightarrow> nat \<Rightarrow> rd_result \<times> demo_sockets" where
  "demo_read s f cap = (RdOk (take cap (inbox s f)), s\<lparr>inbox := (inbox s)(f := drop cap (inbox s f))\<rparr>)"

definition demo_net_sys :: "(int \<Rightarrow> epoll_event option, nat, demo_sockets) net_sys" where
  "demo_net_sys = \<lparr>lsys = quiet_sys, sys_read = demo_read, sys_write = demo_write,
     sys_shutdown = (\<lambda>s f. (True, s\<lparr>closed := (closed s)(f := True)\<rparr>))\<rparr>"

lemma demo_epoll: "epoll_laws (sys_ctl (lsys demo_net_sys)) id"
  by (simp add: demo_net_sys_def quiet_sys_def epoll_laws_map)

lemma demo_socket_laws: "socket_laws demo_net_sys taken closed"
  unfolding socket_laws_def
proof (intro conjI allI)
  fix s :: demo_sockets and f :: int and d :: "char list"
  show "case sys_write demo_net_sys s f d of (r, s') \<Rightarrow>
        closed s' = closed s \<and>
        (case r of WrOk n \<Rightarrow> n \<le> length d \<and> taken s' = (taken s)(f := taken s f @ take n d)
                 | WrErr e \<Rightarrow> taken s' = taken s) \<and>
        (closed s f \<and> d \<noteq> [] \<longrightarrow> r = WrErr EPIPE)"
    by (auto simp: demo_net_sys_def demo_write_def min_def)
next
  fix s :: demo_sockets and f :: int and cap :: nat
  show "case sys_read demo_net_sys s f cap of (r, s') \<Rightarrow>
        closed s' = closed s \<and> taken s' = taken s \<and>
        (case r of RdOk bs \<Rightarrow> length bs \<le> cap | RdErr e \<Rightarrow> True)"
    by (simp add: demo_net_sys_def demo_read_def)
next
  fix s :: demo_sockets and f :: int
  show "case sys_shutdown demo_net_sys s f of (ok, s') \<Rightarrow>
        taken s' = taken s \<and> closed s' = (if ok then (closed s)(f := True) else closed s)"
    by (simp add: demo_net_sys_def)
qed

text \<open>One connection, on channel 1 and the descriptor \<open>f\<close>, in state \<open>st\<close>, its channel not yet
  in the poller; the bytes \<open>bs\<close> have arrived.\<close>

type_synonym demo_net = "(unit, int \<Rightarrow> epoll_event option, nat, demo_sockets, unit) net"

definition demo_net :: "int \<Rightarrow> conn_state \<Rightarrow> char list \<Rightarrow> demo_net" where
  "demo_net f st bs = \<lparr>timers = [], CallingExpiredTimers = False, CancelTimers = {}, timerfd_value = None,
     isLooping = True, quit_flag = False, callable = False, PollreturnTime = ts_zero,
     poller_of = \<lparr>chans = (\<lambda>r. new_Channel f), channels = Map.empty, epoll = (\<lambda>_. None),
       events_size = InitEventListSize\<rparr>,
     wakeupFd = 0, WakeupChannel = 0, ActiveChannels = [], functors = [], TotalNum = 0,
     clock = (\<lambda>n. Timestamp (of_nat n)),
     conns = (\<lambda>_. \<lparr>state = st, conn_name = ''c'', conn_fd = f, channel_of = 1,
        ConnectionCallback = None, MessageCallback = Some (), WriteCompleteCallback = None,
        conn_CloseCallback = None, HighWaterMarkCallback = None, HighWaterMark = 67108864,
        InputBuffer = new_Buffer kInitialSize, OutputBuffer = new_Buffer kInitialSize\<rparr>),
     conn_alive = (\<lambda>_. True),
     sockets = \<lparr>taken = (\<lambda>_. []), closed = (\<lambda>_. False), inbox = (\<lambda>_. bs)\<rparr>,
     strings = (\<lambda>_. Some ''hello''), user_buffers = (\<lambda>_. None)\<rparr>"

lemma demo_net_simps [simp]:
  "state (conns (demo_net f st bs) c) = st" "conn_fd (conns (demo_net f st bs) c) = f"
  "channel_of (conns (demo_net f st bs) c) = 1"
  "InputBuffer (conns (demo_net f st bs) c) = new_Buffer kInitialSize"
  "OutputBuffer (conns (demo_net f st bs) c) = new_Buffer kInitialSize"
  "MessageCallback (conns (demo_net f st bs) c) = Some ()"
  "conn_chan (demo_net f st bs) c = new_Channel f"
  "inbox (sockets (demo_net f st bs)) g = bs" "taken (sockets (demo_net f st bs)) g = []"
  "closed (sockets (demo_net f st bs)) g = False" "conn_alive (demo_net f st bs) c"
  "strings (demo_net f st bs) i = Some ''hello''" "functors (demo_net f st bs) = []"
  by (simp_all add: demo_net_def conn_chan_def)

lemma demo_net_inv: "net_inv id closed {1} {0} (demo_net f st bs)"
  by (simp add: net_inv_def conn_good_def poller_inv_def isWriting_def new_Channel_def)
    (simp add: demo_net_def new_Channel_def)

text \<open>A server that sends back what it gets.\<close>

definition echo :: "unit user_call \<Rightarrow> demo_net \<Rightarrow> demo_net res" where
  "echo u w = (case u of MessageCall f c t \<Rightarrow>
       if c = 0 then bindR (RetrieveAllToString (InputBuffer (conns w 0)))
         (\<lambda>(s, b). SendInLoop demo_net_sys 0 s (upd_conn 0 (\<lambda>conn. conn\<lparr>InputBuffer := b\<rparr>) w))
       else Inr w
     | _ \<Rightarrow> Inr w)"

lemma echo_keeps: "usr_keeps echo (stream_inv id closed taken {1} {0} S)"
  unfolding usr_keeps_def
proof (intro allI impI)
  fix u and w w' :: demo_net
  assume inv: "stream_inv id closed taken {1} {0} S w" and ret: "echo u w = Inr w'"
  have n: "net_inv id closed {1} {0} w" using inv by (simp add: stream_inv_def)
  have 0: "(0 :: nat) \<in> {0}" by simp
  note I = net_invD [OF n 0]
  show "stream_inv id closed taken {1} {0} S w'"
  proof (cases "\<exists>f t. u = MessageCall f 0 t")
    case False
    with inv ret show ?thesis by (auto simp: echo_def split: user_call.splits if_splits)
  next
    case True
    let ?b = "InputBuffer (conns w 0)"
    let ?conn = "(conns w 0)\<lparr>InputBuffer := RetrieveAll ?b\<rparr>"
    let ?w = "upd_conn 0 (\<lambda>conn. conn\<lparr>InputBuffer := RetrieveAll ?b\<rparr>) w"
    have ch: "conn_chan ?w 0 = conn_chan w 0" by (simp add: conn_chan_def)
    have inv1: "stream_inv id closed taken {1} {0} S ?w"
    proof (rule stream_inv_change [OF inv 0])
      show "conn_good ?conn (fd (conn_chan ?w 0)) (isWriting (conn_chan ?w 0))
          (closed (sockets w) (conn_fd ?conn))"
        using I(3-7) unfolding ch by (auto simp: conn_good_def)
      show "poller_inv id {1} (poller_of ?w)" using I(1) by simp
    qed simp_all
    have len: "length (readable ?b) \<le> max_size"
      using length_readable [OF I(4)] buf_sizes(1) [OF I(4)] buf_invD(3,4) [OF I(4)] by simp
    have "SendInLoop demo_net_sys 0 (readable ?b) ?w = Inr w'"
      using True ret by (auto simp: echo_def RetrieveAllToString_spec [OF I(4)])
    with SendInLoop_keeps_inv [OF demo_socket_laws demo_epoll inv1 0 len] show ?thesis by simp
  qed
qed

lemma demo_send:
  obtains w' where "SendInLoop demo_net_sys 0 ''hello'' (demo_net 5 kConnected bs) = Inr w'"
proof (cases "SendInLoop demo_net_sys 0 ''hello'' (demo_net 5 kConnected bs)")
  case (Inl e)
  from SendInLoop_fault [OF demo_socket_laws demo_epoll demo_net_inv _ _ Inl] max_size_big
  show thesis by (simp add: kInitialSize_def)
qed (rule that)

theorem SendInLoop_stream_witness:
  "case SendInLoop demo_net_sys 0 ''hello'' (demo_net 5 kConnected []) of
     Inl e \<Rightarrow> False | Inr w' \<Rightarrow> stream taken 0 w' = ''hello''"
proof -
  have l: "writeable (OutputBuffer (conns (demo_net 5 kConnected []) 0)) + length ''hello'' \<le> max_size"
    using max_size_big by (simp add: kInitialSize_def)
  have w: "fst (sys_write demo_net_sys (sockets (demo_net 5 kConnected []))
      (conn_fd (conns (demo_net 5 kConnected []) 0)) ''hello'') = WrOk 4"
    by (simp add: demo_net_sys_def demo_write_def)
  have s: "stream taken 0 (demo_net 5 kConnected []) = []" by (simp add: stream_def)
  from SendInLoop_stream [OF demo_socket_laws demo_epoll demo_net_inv _ l] show ?thesis
    unfolding w s by (simp add: kInitialSize_def split: sum.splits)
qed

text \<open>The connection is being closed and has three bytes to send.\<close>

definition demo_draining :: demo_net where
  "demo_draining = (demo_net 5 kDisconnecting [])\<lparr>
     conns := (conns (demo_net 5 kDisconnecting []))(0 := (conns (demo_net 5 kDisconnecting []) 0)
       \<lparr>OutputBuffer := \<lparr>buf_bytes = replicate 8 (CHR 0x00) @ ''bye'', ReaderIndex = 8, WriterIndex = 11\<rparr>\<rparr>),
     poller_of := \<lparr>chans = (\<lambda>r. (new_Channel 5)\<lparr>events := POLLOUT, ch_state := ADD\<rparr>), channels = [5 \<mapsto> 1],
       epoll = [5 \<mapsto> \<lparr>ev_events = POLLOUT, ev_ptr = 1\<rparr>], events_size = InitEventListSize\<rparr>\<rparr>"

lemma demo_draining_facts:
  "readable (OutputBuffer (conns demo_draining 0)) = ''bye''" "state (conns demo_draining 0) = kDisconnecting"
  "conn_fd (conns demo_draining 0) = 5" "isWriting (conn_chan demo_draining 0)"
  "WriteCompleteCallback (conns demo_draining 0) = None" "functors demo_draining = []"
  "sockets demo_draining = \<lparr>taken = (\<lambda>_. []), closed = (\<lambda>_. False), inbox = (\<lambda>_. [])\<rparr>"
  by (simp_all add: demo_draining_def conn_chan_def readable_def slice_def isWriting_def poll_bits)
    (simp_all add: demo_net_def)

lemma demo_draining_inv: "net_inv id closed {1} {0} demo_draining"
proof -
  have "poller_inv id {1} (poller_of demo_draining)"
    by (simp add: poller_inv_def demo_draining_def new_Channel_def)
  moreover have "conn_good (conns demo_draining 0) 5 True False"
    using max_size_big
    by (simp add: conn_good_def demo_draining_facts)
      (simp add: demo_draining_def buf_inv_def kCheapPrepend_def kInitialSize_inv [unfolded buf_inv_def kCheapPrepend_def])
  moreover have "fd (conn_chan demo_draining 0) = 5" "channel_of (conns demo_draining 0) = 1"
    by (simp_all add: demo_draining_def conn_chan_def new_Channel_def)
  ultimately show ?thesis by (simp add: net_inv_def demo_draining_facts)
qed

theorem HandleWrite_drains_witness:
  "\<exists>w'. HandleWrite demo_net_sys 0 demo_draining = Inr w' \<and> readable (OutputBuffer (conns w' 0)) = [] \<and>
     \<not> isWriting (conn_chan w' 0) \<and> closed (sockets w') 5"
proof -
  obtain s where s: "sys_write demo_net_sys (sockets demo_draining) (conn_fd (conns demo_draining 0))
      (readable (OutputBuffer (conns demo_draining 0))) = (WrOk 3, s)"
    by (simp add: demo_net_sys_def demo_write_def demo_draining_facts)
  have "closed (snd (sys_shutdown demo_net_sys s 5)) 5" by (simp add: demo_net_sys_def)
  with HandleWrite_drains [OF demo_socket_laws demo_epoll demo_draining_inv _ demo_draining_facts(4) s]
  show ?thesis by (auto simp: demo_draining_facts)
qed

theorem HeadleRead_branches_witness:
  "\<exists>b s. readable b = ''ping'' \<and>
     HeadleRead demo_net_sys echo 0 ts_zero (demo_net 5 kConnected ''ping'') =
       echo (MessageCall () 0 ts_zero) (upd_conn 0 (\<lambda>conn. conn\<lparr>InputBuffer := b\<rparr>)
         (demo_net 5 kConnected ''ping''\<lparr>sockets := s\<rparr>))"
proof -
  let ?w = "demo_net 5 kConnected ''ping''"
  have cap: "readv_capacity (new_Buffer kInitialSize) = 66560"
    by (simp add: readv_capacity_def buf_sizes extrabuf_size_def kInitialSize_def Let_def)
      (simp add: WriteableBytes_def new_Buffer_def kCheapPrepend_def sz_sub_def size_mod_def)
  obtain s where "sys_read demo_net_sys (sockets ?w) (conn_fd (conns ?w 0))
      (readv_capacity (InputBuffer (conns ?w 0))) = (RdOk ''ping'', s)"
    by (simp add: demo_net_sys_def demo_read_def cap)
  from HeadleRead_branches [OF demo_socket_laws demo_net_inv _ this, of echo ts_zero]
  show ?thesis by (auto simp: kInitialSize_def Let_def)
qed

theorem conn_ops_keep_streams_witness:
  "\<exists>w'. foldR (do_conn_op demo_net_sys echo) [OpSend 0 ''hello'', OpWritable 0]
          (demo_net 5 kConnected ''ping'') = Inr w' \<and>
     prefix (stream taken 0 (demo_net 5 kConnected ''ping'')) (stream taken 0 w')"
proof -
  let ?w = "demo_net 5 kConnected ''ping''"
  obtain w1 where w1: "SendInLoop demo_net_sys 0 ''hello'' ?w = Inr w1" by (rule demo_send)
  have len: "length ''hello'' \<le> max_size" using max_size_big by simp
  have n1: "net_inv id closed {1} {0} w1"
    using SendInLoop_keeps [OF demo_socket_laws demo_epoll demo_net_inv _ len w1] by simp
  obtain w2 where w2: "HandleWrite demo_net_sys 0 w1 = Inr w2"
    using HandleWrite_keeps [OF demo_socket_laws demo_epoll n1, of 0] by auto
  have run: "foldR (do_conn_op demo_net_sys echo) [OpSend 0 ''hello'', OpWritable 0] ?w = Inr w2"
    by (simp add: w1 w2)
  have "\<forall>q\<in>set [OpSend 0 ''hello'', OpWritable 0]. op_conn q \<in> {0 :: nat} \<and> op_size q \<le> max_size"
    using len by simp
  from conn_ops_keep_streams [OF demo_socket_laws demo_epoll echo_keeps demo_net_inv this run] run
  show ?thesis by auto
qed

theorem close_then_destroy_witness:
  "\<exists>w1 w2. HandleClose demo_net_sys (\<lambda>_. Inr) 0 (demo_net 5 kConnected []) = Inr w1 \<and>
     (\<forall>usr. ConnectDestoryed demo_net_sys usr 0 w1 = Inr w2) \<and> epoll (poller_of w2) 5 = None \<and>
     state (conns w2 0) = kDisconnected"
proof -
  let ?w = "demo_net 5 kConnected []"
  have s: "stream_inv id closed taken {1} {0} (\<lambda>_. []) ?w"
    using demo_net_inv by (simp add: stream_inv_def)
  obtain w1 where w1: "with_poller (DisableAll (sys_ctl (lsys demo_net_sys)) (channel_of (conns ?w 0)))
      (upd_conn 0 (\<lambda>conn. conn\<lparr>state := kDisconnected\<rparr>) ?w) = Inr w1"
    and c1: "conns w1 = (conns ?w)(0 := (conns ?w 0)\<lparr>state := kDisconnected\<rparr>)"
    by (rule close_channel_keeps [OF demo_epoll s, of 0]) simp
  have "ConnectionCallback (conns w1 0) = None" "conn_CloseCallback (conns w1 0) = None"
    by (simp_all add: c1) (simp_all add: demo_net_def)
  with w1 have cl: "HandleClose demo_net_sys (\<lambda>_. Inr) 0 ?w = Inr w1"
    by (simp add: HandleClose_def Let_def call_user_def)
  have "usr_keeps (\<lambda>_. Inr) (\<lambda>w. net_inv id closed {1} {0} w \<and> state (conns w 0) = kDisconnected)"
    by (simp add: usr_keeps_def)
  from close_then_destroy [OF demo_epoll demo_net_inv _ this cl] obtain w2 where
    w2: "\<forall>usr. ConnectDestoryed demo_net_sys usr 0 w1 = Inr w2" "net_inv id closed {1} {0} w2"
      "state (conns w2 0) = kDisconnected" "epoll (poller_of w2) (conn_fd (conns w2 0)) = None"
    by auto
  have "w1 = w1" ..
  have "loop_RemoveChannel (lsys demo_net_sys) (channel_of (conns w1 0)) w1 = Inr w2"
    using w2(1) by (simp add: ConnectDestoryed_def c1)
  then have "conns w2 = conns w1" by (auto simp: loop_RemoveChannel_def with_poller_def)
  with w2 cl show ?thesis by (auto simp: c1)
qed

theorem late_send_registers_again_witness:
  "\<exists>w'. SendInLoop demo_net_sys 0 ''hello'' (demo_net 9 kDisconnected []) = Inr w' \<and>
     state (conns w' 0) = kDisconnected \<and>
     epoll (poller_of w') (conn_fd (conns w' 0)) \<noteq> None"
proof -
  let ?w = "demo_net 9 kDisconnected []"
  have "sys_write demo_net_sys (sockets ?w) (conn_fd (conns ?w 0)) ''hello'' = (WrErr EAGAIN, sockets ?w)"
    by (simp add: demo_net_sys_def demo_write_def)
  from late_send_registers_again [OF demo_socket_laws demo_epoll demo_net_inv _ _ _ _ _ _ _ this]
  show ?thesis by (auto simp: new_Channel_def kInitialSize_def)
qed

theorem hangup_is_ignored_witness:
  "let w = demo_net 5 kConnected [];
       w = w\<lparr>poller_of := upd_chan 1 (SetRevents (POLLHUP OR POLLERR)) (poller_of w)\<rparr>
   in handle_channel (\<lambda>_ _. True) (\<lambda>_ _ _. Inl Abort) 1 ts_zero w = Inr w"
proof -
  let ?v = "demo_net 5 kConnected []"
  let ?w = "?v\<lparr>poller_of := upd_chan 1 (SetRevents (POLLHUP OR POLLERR)) (poller_of ?v)\<rparr>"
  have "conn_chan ?w 0 = SetRevents (POLLHUP OR POLLERR) (new_Channel 5)"
    by (simp add: conn_chan_def upd_chan_def demo_net_def)
  then have "handle_channel (\<lambda>_ _. True) (\<lambda>_ _ _. Inl Abort) (channel_of (conns ?w 0)) ts_zero ?w = Inr ?w"
    by (intro hangup_is_ignored [where d = 0 and name = "[]" and f = 5 and r = 1 and v = ?v])
      (simp_all add: SetRevents_def new_Channel_def poll_bits new_TcpConnection_def conn_chan_def
        upd_conn_def upd_chan_def SetReadCallback_def SetWriteCallback_def)
  then show ?thesis by (simp add: Let_def)
qed

theorem cross_thread_send_witness:
  "\<exists>f w'. send_string demo_net_sys echo False 0 3 (demo_net 5 kConnected []) = Inr w' \<and>
     functors w' = [f] \<and>
     run_functor (lsys demo_net_sys) (run_conn_functor demo_net_sys echo) f
       (w'\<lparr>strings := (strings w')(3 := None)\<rparr>) = Inl DanglingPointer"
  using cross_thread_send [of "demo_net 5 kConnected []" 0 3 "''hello''" demo_net_sys echo] by auto

end
