(* ===== verification/Loop_Pool.thy ===== *)
theory Loop_Pool
  imports Decimal
begin

text \<open>
  \<^verbatim>\<open>Thread\<close> (include/base/Thread.h, src/base/Thread.cpp), \<^verbatim>\<open>EventLoopThread\<close> and
  \<^verbatim>\<open>EventLoopThreadPool\<close> (include/net, src/net): naming and joining of threads, the
  handshake between the thread that starts a loop and the loop's own thread as a step relation,
  and the round-robin choice among the loops. An event loop is its address.
\<close>

section \<open>Threads\<close>

text \<open>
  \<open>ThreadCount\<close> is the static counter; \<^const>\<open>SignedOverflow\<close> never arises, atomics wrap.
  \<open>thread_ptr\<close> is the pointer \<^verbatim>\<open>thread_\<close>: null, or a \<^verbatim>\<open>std::thread\<close> that is joinable
  or not. What identifies a thread is the standard library's: \<open>'i\<close>.
\<close>

record 'i thread =
  started :: bool
  joined :: bool
  thread_ptr :: "bool option"
  ThreadId :: "'i option"
  thread_name :: string

definition SetDefaultName :: "'i thread \<Rightarrow> 32 word \<Rightarrow> 'i thread \<times> 32 word" where
  "SetDefaultName t ThreadCount =
     (let num = ThreadCount + 1
      in (if thread_name t = [] then t\<lparr>thread_name := snprintf_buf 32 (''Thread'' @ dec_int (sint num))\<rparr> else t,
          num))"

definition new_Thread :: "string \<Rightarrow> 32 word \<Rightarrow> 'i thread \<times> 32 word" where
  "new_Thread name ThreadCount =
     SetDefaultName \<lparr>started = False, joined = False, thread_ptr = None, ThreadId = None, thread_name = name\<rparr>
       ThreadCount"

text \<open>
  \<^verbatim>\<open>start\<close>; \<open>i\<close> is the identity of the new thread, known when the latch lets
  \<^verbatim>\<open>start\<close> return. A \<^verbatim>\<open>std::thread\<close> that is replaced while joinable ends the process.
\<close>

definition start_Thread :: "'i \<Rightarrow> 'i thread \<Rightarrow> 'i thread res" where
  "start_Thread i t =
     (if thread_ptr t = Some True then Inl Abort
      else Inr (t\<lparr>started := True, ThreadId := Some i, thread_ptr := Some True\<rparr>))"

text \<open>
  \<^verbatim>\<open>join\<close> of a thread that was never started goes through the null \<^verbatim>\<open>thread_\<close>, a second
  one throws.
\<close>

definition join_Thread :: "'i thread \<Rightarrow> 'i thread res" where
  "join_Thread t =
     (let t = t\<lparr>joined := True\<rparr>
      in case thread_ptr t of
           None \<Rightarrow> Inl NullPointer
         | Some joinable \<Rightarrow> if joinable then Inr (t\<lparr>thread_ptr := Some False\<rparr>) else Inl SystemError)"

text \<open>
  The destructor: whether it detaches the thread. The \<^verbatim>\<open>std::thread\<close> goes with the members,
  and ends the process if it is still joinable.
\<close>

definition delete_Thread :: "'i thread \<Rightarrow> bool res" where
  "delete_Thread t =
     (if started t \<and> \<not> joined t
      then (case thread_ptr t of None \<Rightarrow> Inl NullPointer
            | Some joinable \<Rightarrow> if joinable then Inr True else Inl SystemError)
      else if thread_ptr t = Some True then Inl Abort else Inr False)"

definition CreatCount :: "32 word \<Rightarrow> 32 word" where
  "CreatCount ThreadCount = ThreadCount"

text \<open>\<open>print_id\<close> is how the library prints an identity.\<close>

definition CurrentThreadId :: "('i \<Rightarrow> string) \<Rightarrow> 'i \<Rightarrow> string" where
  "CurrentThreadId print_id this_thread = print_id this_thread"

text \<open>A history of starts and joins.\<close>

datatype 'i thread_op = StartOp 'i | JoinOp

fun run_thread_op :: "'i thread_op \<Rightarrow> 'i thread \<Rightarrow> 'i thread res" where
  "run_thread_op (StartOp i) t = start_Thread i t"
| "run_thread_op JoinOp t = join_Thread t"

fun is_start :: "'i thread_op \<Rightarrow> bool" where
  "is_start (StartOp i) \<longleftrightarrow> True"
| "is_start JoinOp \<longleftrightarrow> False"

lemma thread_history:
  "foldR run_thread_op ops (fst (new_Thread name n)) = Inr t \<Longrightarrow>
     (\<forall>k<length ops. is_start (ops ! k) = even k) \<and>
     started t = (ops \<noteq> []) \<and> joined t = (2 \<le> length ops) \<and>
     thread_ptr t = (if ops = [] then None else Some (odd (length ops)))"
proof (induction ops arbitrary: t rule: rev_induct)
  case Nil
  then show ?case by (auto simp: new_Thread_def SetDefaultName_def Let_def split: if_splits)
next
  case (snoc op ops)
  from snoc.prems obtain u where u: "foldR run_thread_op ops (fst (new_Thread name n)) = Inr u" "run_thread_op op u = Inr t"
    by (auto simp: foldR_append)
  note IH = snoc.IH [OF u(1)]
  have alt: "\<forall>k<length (ops @ [op]). is_start ((ops @ [op]) ! k) = even k" if "is_start op = even (length ops)"
    using IH that by (auto simp: nth_append less_Suc_eq)
  show ?case
  proof (cases op)
    case (StartOp i)
    with u(2) IH have "even (length ops)" by (auto simp: start_Thread_def split: if_splits)
    with u(2) IH StartOp alt show ?thesis by (auto simp: start_Thread_def split: if_splits)
  next
    case JoinOp
    with u(2) IH have "odd (length ops)" by (auto simp: join_Thread_def Let_def split: if_splits option.splits)
    with u(2) IH JoinOp alt show ?thesis
      by (cases ops) (auto simp: join_Thread_def Let_def split: if_splits option.splits)
  qed
qed

text \<open>
  The life of a \<^verbatim>\<open>Thread\<close>: starts and joins return only in turn. The destructor detaches a
  thread that still runs after the first start; after a later one it ends the process, since
  \<^verbatim>\<open>joined_\<close> is never reset.
\<close>

theorem thread_life:
  assumes "foldR run_thread_op ops (fst (new_Thread name n)) = Inr t"
  shows "(\<forall>k<length ops. is_start (ops ! k) = even k) \<and>
    delete_Thread t = (if even (length ops) then Inr False else if length ops = 1 then Inr True else Inl Abort)"
proof -
  note H = thread_history [OF assms]
  then have "delete_Thread t = (if even (length ops) then Inr False else if length ops = 1 then Inr True else Inl Abort)"
    by (cases ops; cases "tl ops") (auto simp: delete_Thread_def)
  with H show ?thesis by blast
qed

theorem thread_life_witness:
  "\<exists>t. foldR run_thread_op [StartOp (1 :: nat), JoinOp, StartOp 2] (fst (new_Thread [] 0)) = Inr t \<and>
     delete_Thread t = Inl Abort \<and> ThreadId t = Some 2"
proof -
  obtain t where t: "foldR run_thread_op [StartOp (1 :: nat), JoinOp, StartOp 2] (fst (new_Thread [] 0)) = Inr t"
    "ThreadId t = Some 2"
    by (simp add: new_Thread_def SetDefaultName_def start_Thread_def join_Thread_def Let_def)
  with thread_life [OF t(1)] show ?thesis by simp
qed

section \<open>The handshake of EventLoopThread\<close>

text \<open>
  The owner: before \<^verbatim>\<open>StartLoop\<close>, waiting in it, returned from it, in the destructor between
  the test of \<^verbatim>\<open>loop_\<close> and \<^verbatim>\<open>quit\<close>, in \<^verbatim>\<open>join\<close>, past it, or past the
  destructor without a join. The thread: not running, constructing the loop and calling back,
  before \<^verbatim>\<open>loop.start()\<close>, looping, before \<^verbatim>\<open>loop_ = nullptr\<close>, finished.
\<close>

datatype owner_pc = BeforeStartLoop | InWait | Returned | BeforeQuit | InJoin | Joined | LeftRunning

datatype thread_pc = NotRunning | Constructing | BeforeLoop | Looping | AfterLoop | Finished

record loop_thread =
  owner :: owner_pc
  runner :: thread_pc
  loop_set :: bool
  exiting :: bool
  loop_quit :: bool

definition new_EventLoopThread :: loop_thread where
  "new_EventLoopThread = \<lparr>owner = BeforeStartLoop, runner = NotRunning, loop_set = False,
     exiting = False, loop_quit = False\<rparr>"

text \<open>\<^verbatim>\<open>EventLoop::start\<close> sets \<^verbatim>\<open>quit_\<close> to false before it loops.\<close>

inductive thread_step :: "loop_thread \<Rightarrow> loop_thread \<Rightarrow> bool" where
  StartLoop_begins: "owner s = BeforeStartLoop \<Longrightarrow>
    thread_step s (s\<lparr>owner := InWait, runner := Constructing\<rparr>)"
| StartLoop_returns: "owner s = InWait \<Longrightarrow> loop_set s \<Longrightarrow> thread_step s (s\<lparr>owner := Returned\<rparr>)"
| destructor_tests: "owner s = Returned \<Longrightarrow> thread_step s
    (s\<lparr>exiting := True, owner := (if loop_set s then BeforeQuit else LeftRunning)\<rparr>)"
| destructor_quits: "owner s = BeforeQuit \<Longrightarrow> thread_step s (s\<lparr>loop_quit := True, owner := InJoin\<rparr>)"
| destructor_joins: "owner s = InJoin \<Longrightarrow> runner s = Finished \<Longrightarrow> thread_step s (s\<lparr>owner := Joined\<rparr>)"
| loop_published: "runner s = Constructing \<Longrightarrow> thread_step s (s\<lparr>loop_set := True, runner := BeforeLoop\<rparr>)"
| loop_starts: "runner s = BeforeLoop \<Longrightarrow> thread_step s (s\<lparr>loop_quit := False, runner := Looping\<rparr>)"
| loop_ends: "runner s = Looping \<Longrightarrow> loop_quit s \<Longrightarrow> thread_step s (s\<lparr>runner := AfterLoop\<rparr>)"
| loop_cleared: "runner s = AfterLoop \<Longrightarrow> thread_step s (s\<lparr>loop_set := False, runner := Finished\<rparr>)"

inductive_cases thread_stepE: "thread_step s s'"

definition reachable_thread :: "loop_thread \<Rightarrow> bool" where
  "reachable_thread s \<longleftrightarrow> thread_step\<^sup>*\<^sup>* new_EventLoopThread s"

text \<open>As long as only its owner quits the loop, the owner never sees a loop that is gone.\<close>

definition handshake_inv :: "loop_thread \<Rightarrow> bool" where
  "handshake_inv s \<longleftrightarrow>
     (loop_set s \<longleftrightarrow> runner s \<in> {BeforeLoop, Looping, AfterLoop}) \<and>
     (owner s = BeforeStartLoop \<longrightarrow> runner s = NotRunning) \<and>
     (owner s \<noteq> BeforeStartLoop \<longrightarrow> runner s \<noteq> NotRunning) \<and>
     (owner s \<in> {Returned, BeforeQuit} \<longrightarrow> runner s \<in> {BeforeLoop, Looping}) \<and>
     (owner s \<in> {InJoin, Joined} \<longrightarrow> runner s \<noteq> Constructing) \<and>
     (owner s \<notin> {InJoin, Joined} \<longrightarrow> \<not> loop_quit s \<and> runner s \<notin> {AfterLoop, Finished}) \<and>
     owner s \<noteq> LeftRunning"

lemma handshake_step: "handshake_inv s \<Longrightarrow> thread_step s s' \<Longrightarrow> handshake_inv s'"
  by (erule thread_stepE) (auto simp: handshake_inv_def)

lemma reachable_handshake: "reachable_thread s \<Longrightarrow> handshake_inv s"
  unfolding reachable_thread_def
proof (induction rule: rtranclp_induct)
  case base
  then show ?case by (simp add: handshake_inv_def new_EventLoopThread_def)
next
  case (step s s')
  then show ?case using handshake_step by blast
qed

text \<open>A quit that was seen ends the thread; one that came before \<^verbatim>\<open>start\<close> does not.\<close>

lemma join_returns:
  assumes "owner s = InJoin" and "runner s = Finished \<or> runner s = AfterLoop \<or> (runner s = Looping \<and> loop_quit s)"
  shows "\<exists>s'. thread_step\<^sup>*\<^sup>* s s' \<and> owner s' = Joined"
proof -
  have fin: "\<exists>s'. thread_step\<^sup>*\<^sup>* t s' \<and> owner s' = Joined" if "owner t = InJoin" "runner t = Finished" for t
    using destructor_joins [OF that] by (intro exI [of _ "t\<lparr>owner := Joined\<rparr>"]) auto
  have aft: "\<exists>s'. thread_step\<^sup>*\<^sup>* t s' \<and> owner s' = Joined" if "owner t = InJoin" "runner t = AfterLoop" for t
    using loop_cleared [OF that(2)] fin [of "t\<lparr>loop_set := False, runner := Finished\<rparr>"] that(1)
    by (auto intro: converse_rtranclp_into_rtranclp)
  have "\<exists>s'. thread_step\<^sup>*\<^sup>* s s' \<and> owner s' = Joined" if "runner s = Looping" "loop_quit s"
    using loop_ends [OF that] aft [of "s\<lparr>runner := AfterLoop\<rparr>"] assms(1)
    by (auto intro: converse_rtranclp_into_rtranclp)
  with fin aft assms show ?thesis by blast
qed

lemma join_hangs:
  assumes "thread_step\<^sup>*\<^sup>* s s'" and "owner s = InJoin"
    and "runner s = BeforeLoop \<or> (runner s = Looping \<and> \<not> loop_quit s)"
  shows "owner s' = InJoin \<and> (runner s' = BeforeLoop \<or> (runner s' = Looping \<and> \<not> loop_quit s'))"
  using assms
proof (induction rule: rtranclp_induct)
  case (step t u)
  then show ?case by (auto elim!: thread_stepE)
qed simp

text \<open>
  C37. Starting and stopping a loop thread. \<^verbatim>\<open>StartLoop\<close> returns only with a loop that
  exists. The destructor can return exactly if, when it waits in \<^verbatim>\<open>join\<close>, the loop has
  seen or will see \<^verbatim>\<open>quit_\<close>: it hangs for ever if its \<^verbatim>\<open>quit()\<close> came before the
  thread entered \<^verbatim>\<open>EventLoop::start\<close>, which resets the flag.
\<close>

theorem destructor_returns_iff:
  assumes "reachable_thread s"
  shows "(owner s = Returned \<longrightarrow> loop_set s) \<and>
    (owner s = InJoin \<longrightarrow> ((\<exists>s'. thread_step\<^sup>*\<^sup>* s s' \<and> owner s' = Joined) \<longleftrightarrow>
       runner s = Finished \<or> runner s = AfterLoop \<or> (runner s = Looping \<and> loop_quit s)))"
proof -
  note inv = reachable_handshake [OF assms]
  have "(\<exists>s'. thread_step\<^sup>*\<^sup>* s s' \<and> owner s' = Joined) \<longleftrightarrow>
       runner s = Finished \<or> runner s = AfterLoop \<or> (runner s = Looping \<and> loop_quit s)"
    if join: "owner s = InJoin"
  proof
    assume "\<exists>s'. thread_step\<^sup>*\<^sup>* s s' \<and> owner s' = Joined"
    with join_hangs [OF _ join] have "\<not> (runner s = BeforeLoop \<or> (runner s = Looping \<and> \<not> loop_quit s))"
      by fastforce
    with inv join show "runner s = Finished \<or> runner s = AfterLoop \<or> (runner s = Looping \<and> loop_quit s)"
      by (cases "runner s") (auto simp: handshake_inv_def)
  qed (use join_returns [OF join] in blast)
  with inv show ?thesis by (auto simp: handshake_inv_def)
qed

lemma early_quit_reachable:
  "reachable_thread \<lparr>owner = InJoin, runner = BeforeLoop, loop_set = True, exiting = True, loop_quit = True\<rparr>"
proof -
  let ?S = "\<lambda>p r l e q. \<lparr>owner = p, runner = r, loop_set = l, exiting = e, loop_quit = q\<rparr>"
  have "thread_step (?S BeforeStartLoop NotRunning False False False) (?S InWait Constructing False False False)"
    using StartLoop_begins [of "?S BeforeStartLoop NotRunning False False False"] by simp
  moreover have "thread_step (?S InWait Constructing False False False) (?S InWait BeforeLoop True False False)"
    using loop_published [of "?S InWait Constructing False False False"] by simp
  moreover have "thread_step (?S InWait BeforeLoop True False False) (?S Returned BeforeLoop True False False)"
    using StartLoop_returns [of "?S InWait BeforeLoop True False False"] by simp
  moreover have "thread_step (?S Returned BeforeLoop True False False) (?S BeforeQuit BeforeLoop True True False)"
    using destructor_tests [of "?S Returned BeforeLoop True False False"] by simp
  moreover have "thread_step (?S BeforeQuit BeforeLoop True True False) (?S InJoin BeforeLoop True True True)"
    using destructor_quits [of "?S BeforeQuit BeforeLoop True True False"] by simp
  ultimately show ?thesis unfolding reachable_thread_def new_EventLoopThread_def
    by (meson rtranclp.rtrancl_into_rtrancl rtranclp.rtrancl_refl)
qed

theorem destructor_returns_iff_witness:
  "\<not> (\<exists>s'. thread_step\<^sup>*\<^sup>* \<lparr>owner = InJoin, runner = BeforeLoop, loop_set = True, exiting = True,
      loop_quit = True\<rparr> s' \<and> owner s' = Joined)"
  using destructor_returns_iff [OF early_quit_reachable] by simp

section \<open>The pool\<close>

record loop_pool =
  BaseLoop :: nat
  pool_name :: string
  pool_started :: bool
  ThreadNum :: "32 word"
  next_loop :: "32 word"
  pool_threads :: "string list"
  pool_loops :: "nat list"

definition new_EventLoopThreadPool :: "nat \<Rightarrow> string \<Rightarrow> loop_pool" where
  "new_EventLoopThreadPool base name = \<lparr>BaseLoop = base, pool_name = name, pool_started = False,
     ThreadNum = 0, next_loop = 0, pool_threads = [], pool_loops = []\<rparr>"

definition SetThreadNum :: "32 word \<Rightarrow> loop_pool \<Rightarrow> loop_pool" where
  "SetThreadNum num p = p\<lparr>ThreadNum := num\<rparr>"

text \<open>
  \<open>start_loop i\<close> is what \<^verbatim>\<open>EventLoopThread::StartLoop\<close> does for the \<open>i\<close>-th thread: it
  answers with the loop or does not return, and works on the state \<open>s\<close> in which the loops live.
  The answer lists the loops the initial callback is called with.
\<close>

fun start_loops :: "(nat \<Rightarrow> 's \<Rightarrow> (nat \<times> 's) res) \<Rightarrow> nat list \<Rightarrow> 's \<Rightarrow> (nat list \<times> 's) res" where
  "start_loops start_loop [] s = Inr ([], s)"
| "start_loops start_loop (i # is) s =
     bindR (start_loop i s) (\<lambda>(loop, s). bindR (start_loops start_loop is s) (\<lambda>(loops, s). Inr (loop # loops, s)))"

definition start_pool :: "(nat \<Rightarrow> 's \<Rightarrow> (nat \<times> 's) res) \<Rightarrow> bool \<Rightarrow> loop_pool \<Rightarrow> 's \<Rightarrow>
    (nat list \<times> loop_pool \<times> 's) res" where
  "start_pool start_loop callback p s =
     (let n = nat (sint (ThreadNum p)) in
      bindR (start_loops start_loop [0..<n] s) (\<lambda>(started_loops, s).
        Inr (if callback then (if ThreadNum p = 0 then [BaseLoop p] else started_loops) else [],
             p\<lparr>pool_started := True,
               pool_threads := pool_threads p @
                 map (\<lambda>i. snprintf_buf (length (pool_name p) + 32) (pool_name p @ dec_nat i)) [0..<n],
               pool_loops := pool_loops p @ started_loops\<rparr>, s)))"

definition GetNextLoop :: "loop_pool \<Rightarrow> (nat \<times> loop_pool) res" where
  "GetNextLoop p =
     (if pool_loops p \<noteq> [] then
        (let i = unat (next_loop p) in
         if i < length (pool_loops p)
         then (let loop = pool_loops p ! i; n = next_loop p + 1
               in Inr (loop, p\<lparr>next_loop := (if length (pool_loops p) \<le> unat n then 0 else n)\<rparr>))
         else Inl OutOfBounds)
      else Inr (BaseLoop p, p))"

definition AllLoops :: "loop_pool \<Rightarrow> nat list" where
  "AllLoops p = (if pool_loops p = [] then [BaseLoop p] else pool_loops p)"

text \<open>The index is valid; a vector has fewer elements than an \<^verbatim>\<open>int\<close> can count.\<close>

definition pool_inv :: "loop_pool \<Rightarrow> bool" where
  "pool_inv p \<longleftrightarrow> (if pool_loops p = [] then next_loop p = 0
     else unat (next_loop p) < length (pool_loops p)) \<and> length (pool_loops p) < 2 ^ 31"

lemma start_loops_length: "start_loops start_loop is s = Inr (loops, s') \<Longrightarrow> length loops = length is"
  by (induction "is" arbitrary: s loops) auto

lemma start_pool_inv:
  assumes "pool_inv p" and "length (pool_loops p) + nat (sint (ThreadNum p)) < 2 ^ 31"
    and "start_pool start_loop callback p s = Inr (inits, p', s')"
  shows "pool_inv p'"
  using assms start_loops_length [of start_loop "[0..<nat (sint (ThreadNum p))]" s]
  by (fastforce simp: pool_inv_def start_pool_def Let_def split: if_splits)

lemma GetNextLoop_exact:
  assumes "pool_inv p"
  shows "\<exists>p'. GetNextLoop p = Inr (AllLoops p ! unat (next_loop p), p') \<and> pool_inv p' \<and>
    pool_loops p' = pool_loops p \<and> BaseLoop p' = BaseLoop p \<and>
    unat (next_loop p') = (unat (next_loop p) + 1) mod length (AllLoops p)"
proof (cases "pool_loops p = []")
  case True
  with assms show ?thesis by (simp add: pool_inv_def GetNextLoop_def AllLoops_def)
next
  case False
  let ?n = "length (pool_loops p)" and ?i = "unat (next_loop p)"
  have i: "?i < ?n" "?n < 2 ^ 31" using assms False by (simp_all add: pool_inv_def)
  then have "Suc ?i < 2 ^ 32" by simp
  then have suc: "unat (next_loop p + 1) = Suc ?i" by (simp add: unat_word_ariths)
  have "(if ?n \<le> Suc ?i then 0 else Suc ?i) = Suc ?i mod ?n" using i by (simp add: mod_Suc)
  with suc i False show ?thesis
    by (auto simp: pool_inv_def GetNextLoop_def AllLoops_def Let_def)
qed

text \<open>\<open>k\<close> choices in a row.\<close>

fun next_loops :: "nat \<Rightarrow> loop_pool \<Rightarrow> (nat list \<times> loop_pool) res" where
  "next_loops 0 p = Inr ([], p)"
| "next_loops (Suc k) p =
     bindR (GetNextLoop p) (\<lambda>(loop, p). bindR (next_loops k p) (\<lambda>(ls, p). Inr (loop # ls, p)))"

lemma next_loops_exact:
  assumes "pool_inv p"
  shows "\<exists>p'. next_loops k p = Inr (map (\<lambda>j. AllLoops p ! ((unat (next_loop p) + j) mod length (AllLoops p))) [0..<k], p') \<and>
    pool_inv p' \<and> AllLoops p' = AllLoops p"
  using assms
proof (induction k arbitrary: p)
  case (Suc k)
  let ?n = "length (AllLoops p)"
  from GetNextLoop_exact [OF Suc.prems] obtain q
    where q: "GetNextLoop p = Inr (AllLoops p ! unat (next_loop p), q)" "pool_inv q"
      "pool_loops q = pool_loops p" "BaseLoop q = BaseLoop p"
      "unat (next_loop q) = (unat (next_loop p) + 1) mod ?n" by blast
  have all: "AllLoops q = AllLoops p" using q(3,4) by (simp add: AllLoops_def)
  from Suc.IH [OF q(2)] obtain p' where p': "next_loops k q =
      Inr (map (\<lambda>j. AllLoops p ! ((unat (next_loop q) + j) mod ?n)) [0..<k], p')" "pool_inv p'"
      "AllLoops p' = AllLoops p" by (auto simp: all)
  have "unat (next_loop p) < ?n" using Suc.prems by (auto simp: pool_inv_def AllLoops_def split: if_splits)
  moreover have "(unat (next_loop q) + j) mod ?n = (unat (next_loop p) + Suc j) mod ?n" for j
    unfolding q(5) by (simp add: mod_simps)
  ultimately show ?case
    using q(1) p' by (simp add: upt_conv_Cons map_Suc_upt [symmetric] del: upt_Suc)
qed simp

text \<open>
  The pool hands its loops out in turn: \<open>k\<close> calls of \<^verbatim>\<open>GetNextLoop\<close> answer with the
  loops from the current position on, cyclically, and keep the pool; with no threads it is always
  the base loop. So of every \<open>n\<close> calls in a row, \<open>n\<close> the number of loops, each loop gets one.
\<close>

theorem pool_round_robin:
  assumes "pool_inv p"
  shows "\<exists>p'. next_loops k p =
      Inr (map (\<lambda>j. AllLoops p ! ((unat (next_loop p) + j) mod length (AllLoops p))) [0..<k], p') \<and>
    pool_inv p' \<and> AllLoops p' = AllLoops p \<and>
    (pool_loops p = [] \<longrightarrow> AllLoops p = [BaseLoop p])"
  using next_loops_exact [OF assms, of k] by (auto simp: AllLoops_def)

theorem pool_round_robin_witness:
  "\<exists>p p'. start_pool (\<lambda>i s. Inr (10 + i, s)) True (SetThreadNum 3 (new_EventLoopThreadPool 5 ''s'')) () =
       Inr ([10, 11, 12], p, ()) \<and> next_loops 4 p = Inr ([10, 11, 12, 10], p')"
proof -
  obtain p where p: "start_pool (\<lambda>i s. Inr (10 + i, s)) True (SetThreadNum 3 (new_EventLoopThreadPool 5 ''s'')) () =
      Inr ([10, 11, 12], p, ())" and all: "AllLoops p = [10, 11, 12]" "unat (next_loop p) = 0"
    by (simp add: AllLoops_def start_pool_def SetThreadNum_def new_EventLoopThreadPool_def Let_def upt_rec)
  have "pool_inv (SetThreadNum 3 (new_EventLoopThreadPool 5 ''s''))"
    by (simp add: pool_inv_def SetThreadNum_def new_EventLoopThreadPool_def)
  from start_pool_inv [OF this _ p] have "pool_inv p" by (simp add: SetThreadNum_def new_EventLoopThreadPool_def)
  from pool_round_robin [OF this, of 4] obtain p' where "next_loops 4 p = Inr ([10, 11, 12, 10], p')"
    unfolding all by (auto simp: upt_rec)
  with p show ?thesis by blast
qed

text \<open>The threads of a pool have different names.\<close>

lemma pool_thread_names:
  assumes "pool_threads p = []" and "sint (ThreadNum p) < 2 ^ 31"
    and "start_pool start_loop callback p s = Inr (inits, p', s')"
  shows "distinct (pool_threads p')"
proof -
  have fits: "snprintf_buf (length (pool_name p) + 32) (pool_name p @ dec_nat i) = pool_name p @ dec_nat i"
    if "i < nat (sint (ThreadNum p))" for i
  proof -
    have "i < 10 ^ 10" using that assms(2) by simp
    then have "length (dec_nat i) \<le> 10" by (rule dec_nat_length) simp
    then show ?thesis by (intro snprintf_buf_fits) simp
  qed
  have "inj_on (\<lambda>i. snprintf_buf (length (pool_name p) + 32) (pool_name p @ dec_nat i))
      (set [0..<nat (sint (ThreadNum p))])"
    by (rule inj_onI) (simp add: fits)
  then show ?thesis using assms(1,3) by (auto simp: start_pool_def Let_def distinct_map)
qed

end
