(* ===== verification/Sockets.thy ===== *)
theory Sockets
  imports Decimal
begin

text \<open>
  \<^verbatim>\<open>Address\<close> (include/net/Address.h, src/net/Addrest.cpp) and \<^verbatim>\<open>Socket\<close>
  (include/net/Socket.h, src/net/Socket.cpp). The kernel's calls on sockets are a record of
  parameters over a state \<open>'s\<close>. \<^verbatim>\<open>Address\<close> keeps address and port in network order; the host
  is little-endian. \<^verbatim>\<open>inet_addr\<close>, which accepts several notations, is a parameter;
  \<^verbatim>\<open>inet_ntop\<close> prints the four bytes in memory order.
\<close>

unbundle bit_operations_syntax

section \<open>Addresses\<close>

record sockaddr_in =
  sin_family :: "16 word"
  sin_port :: "16 word"
  sin_addr :: "32 word"

definition AF_INET :: "16 word" where "AF_INET = 2"

definition htons :: "16 word \<Rightarrow> 16 word" where
  "htons x = push_bit 8 x OR drop_bit 8 x"

definition zero_sockaddr :: sockaddr_in where
  "zero_sockaddr = \<lparr>sin_family = 0, sin_port = 0, sin_addr = 0\<rparr>"

definition new_Address :: "(string \<Rightarrow> 32 word) \<Rightarrow> string \<Rightarrow> 16 word \<Rightarrow> sockaddr_in" where
  "new_Address inet_addr ip p =
     zero_sockaddr\<lparr>sin_family := AF_INET, sin_addr := inet_addr ip, sin_port := htons p\<rparr>"

definition port :: "sockaddr_in \<Rightarrow> 16 word" where
  "port a = htons (sin_port a)"

definition SetSockaddr :: "sockaddr_in \<Rightarrow> sockaddr_in \<Rightarrow> sockaddr_in" where
  "SetSockaddr addr a = addr"

definition addr_byte :: "nat \<Rightarrow> 32 word \<Rightarrow> nat" where
  "addr_byte i a = unat (drop_bit (8 * i) a AND 255)"

definition inet_ntop :: "32 word \<Rightarrow> string" where
  "inet_ntop a = dec_nat (addr_byte 0 a) @ ''.'' @ dec_nat (addr_byte 1 a) @ ''.'' @
     dec_nat (addr_byte 2 a) @ ''.'' @ dec_nat (addr_byte 3 a)"

definition address :: "sockaddr_in \<Rightarrow> string" where
  "address a = inet_ntop (sin_addr a)"

text \<open>\<^verbatim>\<open>sprintf\<close> writes behind the address into an array of 64 bytes, without a bound.\<close>

definition IpPort :: "sockaddr_in \<Rightarrow> string res" where
  "IpPort a =
     (let buf = inet_ntop (sin_addr a); text = buf @ '':'' @ dec_nat (unat (port a))
      in if length text < 64 then Inr text else Inl OutOfBounds)"

section \<open>What is printed\<close>

lemma htons_htons [simp]: "htons (htons x) = x"
  by (rule bit_word_eqI) (auto simp: htons_def bit_simps)

lemma addr_byte_less: "addr_byte i a < 256"
proof -
  have "drop_bit (8 * i) a AND 255 \<le> 255" by (rule word_and_le1)
  then show ?thesis by (simp add: addr_byte_def word_le_nat_alt)
qed

lemma addr_byte_bit: "n < 8 \<Longrightarrow> bit (word_of_nat (addr_byte i a) :: 32 word) n \<longleftrightarrow> bit a (8 * i + n)"
proof -
  assume n: "n < 8"
  have "bit (mask 8 :: 32 word) n" using n by (simp only: bit_mask_iff) simp
  then have "bit (255 :: 32 word) n" by (simp add: mask_eq_exp_minus_1)
  with n show ?thesis by (simp add: addr_byte_def bit_simps ac_simps)
qed

lemma addr_bytes_inject:
  assumes "\<And>i. i < 4 \<Longrightarrow> addr_byte i a = addr_byte i b"
  shows "a = b"
proof (rule bit_word_eqI)
  fix n assume "n < LENGTH(32)"
  then have n: "n div 8 < 4" by simp
  have "bit a (8 * (n div 8) + n mod 8) = bit b (8 * (n div 8) + n mod 8)"
    using addr_byte_bit [of "n mod 8" "n div 8" a] addr_byte_bit [of "n mod 8" "n div 8" b] assms [OF n]
    by simp
  then show "bit a n = bit b n" by simp
qed

lemma split_inject:
  assumes "s \<notin> set xs" and "s \<notin> set ys"
  shows "xs @ s # u = ys @ s # v \<longleftrightarrow> xs = ys \<and> u = v"
  using assms
proof (induction xs arbitrary: ys)
  case Nil
  then show ?case by (cases ys) auto
next
  case (Cons x xs)
  then show ?case by (cases ys) auto
qed

lemma dec_nat_no_dot [simp]: "CHR ''.'' \<notin> set (dec_nat n)" "CHR '':'' \<notin> set (dec_nat n)"
  using dec_nat_digits [of _ n] by fastforce+

lemma inet_ntop_inject: "inet_ntop a = inet_ntop b \<longleftrightarrow> a = b"
proof
  assume "inet_ntop a = inet_ntop b"
  then have "addr_byte 0 a = addr_byte 0 b \<and> addr_byte 1 a = addr_byte 1 b \<and>
      addr_byte 2 a = addr_byte 2 b \<and> addr_byte 3 a = addr_byte 3 b"
    by (simp add: inet_ntop_def split_inject)
  then have "addr_byte i a = addr_byte i b" if "i < 4" for i
    using that by (auto simp: less_Suc_eq numeral_eq_Suc)
  then show "a = b" by (rule addr_bytes_inject)
qed simp

lemma inet_ntop_length: "length (inet_ntop a) \<le> 15"
proof -
  have "length (dec_nat (addr_byte i a)) \<le> 3" for i
    by (rule dec_nat_length) (use addr_byte_less [of i a] in simp_all)
  from this [of 0] this [of 1] this [of 2] this [of 3] show ?thesis by (simp add: inet_ntop_def)
qed

lemma IpPort_value:
  "IpPort a = Inr (address a @ '':'' @ dec_nat (unat (port a)))" "length (address a @ '':'' @ dec_nat (unat (port a))) \<le> 21"
proof -
  have "unat (port a) < 10 ^ 5" using unsigned_less [of "port a", where 'a = nat] by simp
  then have "length (dec_nat (unat (port a))) \<le> 5" by (rule dec_nat_length) simp
  with inet_ntop_length [of "sin_addr a"]
  show len: "length (address a @ '':'' @ dec_nat (unat (port a))) \<le> 21" by (simp add: address_def)
  then show "IpPort a = Inr (address a @ '':'' @ dec_nat (unat (port a)))"
    by (simp add: IpPort_def address_def Let_def)
qed

text \<open>
  Printing an address: the array of 64 bytes is always large enough (21 characters at most,
  so the buffer for the connection's number in \<^verbatim>\<open>TcpServer::NewConnection\<close> is, too), the
  text is the dotted address, a colon and the port given to the constructor, and different
  addresses or ports give different texts.
\<close>

theorem IpPort_exact:
  "\<exists>text. IpPort a = Inr text \<and> length text \<le> 21 \<and> text = address a @ '':'' @ dec_nat (unat (port a)) \<and>
     port (new_Address inet ip p) = p \<and>
     (IpPort a = IpPort b \<longleftrightarrow> sin_addr a = sin_addr b \<and> port a = port b)"
proof -
  have no: "CHR '':'' \<notin> set (inet_ntop a)" for a by (simp add: inet_ntop_def)
  have "IpPort a = IpPort b \<longleftrightarrow> sin_addr a = sin_addr b \<and> port a = port b"
    by (simp add: IpPort_value address_def split_inject [OF no no] inet_ntop_inject word_unat_eq_iff [of "port a"])
  moreover have "port (new_Address inet ip p) = p" by (simp add: port_def new_Address_def)
  ultimately show ?thesis using IpPort_value [of a] by simp
qed

section \<open>Sockets\<close>

record 's sock_sys =
  sock_create :: "'s \<Rightarrow> int \<times> 's"
  sock_bind :: "'s \<Rightarrow> int \<Rightarrow> sockaddr_in \<Rightarrow> bool \<times> 's"
  sock_listen :: "'s \<Rightarrow> int \<Rightarrow> nat \<Rightarrow> bool \<times> 's"
  sock_accept :: "'s \<Rightarrow> int \<Rightarrow> (int \<times> sockaddr_in) \<times> 's"
  sock_setopt :: "'s \<Rightarrow> int \<Rightarrow> nat \<Rightarrow> nat \<Rightarrow> int \<Rightarrow> 's"
  sock_close :: "'s \<Rightarrow> int \<Rightarrow> 's"

definition IPPROTO_TCP :: nat where "IPPROTO_TCP = 6"
definition SOL_SOCKET :: nat where "SOL_SOCKET = 1"
definition TCP_NODELAY :: nat where "TCP_NODELAY = 1"
definition SO_REUSEADDR :: nat where "SO_REUSEADDR = 2"
definition SO_KEEPALIVE :: nat where "SO_KEEPALIVE = 9"
definition SO_REUSEPORT :: nat where "SO_REUSEPORT = 15"

text \<open>A socket is its descriptor.\<close>

definition delete_Socket :: "'s sock_sys \<Rightarrow> int \<Rightarrow> 's \<Rightarrow> 's" where
  "delete_Socket sys sockfd s = sock_close sys s sockfd"

definition BindAddress :: "'s sock_sys \<Rightarrow> int \<Rightarrow> sockaddr_in \<Rightarrow> 's \<Rightarrow> 's res" where
  "BindAddress sys sockfd localaddr s =
     (let (ok, s) = sock_bind sys s sockfd localaddr in if ok then Inr s else Inl Abort)"

definition Socket_listen :: "'s sock_sys \<Rightarrow> int \<Rightarrow> 's \<Rightarrow> 's res" where
  "Socket_listen sys sockfd s =
     (let (ok, s) = sock_listen sys s sockfd 1024 in if ok then Inr s else Inl Abort)"

text \<open>The address is an out parameter, left alone when there is no connection.\<close>

definition Socket_accept :: "'s sock_sys \<Rightarrow> int \<Rightarrow> sockaddr_in \<Rightarrow> 's \<Rightarrow> (int \<times> sockaddr_in) \<times> 's" where
  "Socket_accept sys sockfd peeraddr s =
     (let ((cfd, addr), s) = sock_accept sys s sockfd
      in ((cfd, if 0 \<le> cfd then SetSockaddr addr peeraddr else peeraddr), s))"

definition SetTcpNoDelay :: "'s sock_sys \<Rightarrow> int \<Rightarrow> bool \<Rightarrow> 's \<Rightarrow> 's" where
  "SetTcpNoDelay sys sockfd on s =
     (let opt = (if on then 1 else 0) in sock_setopt sys s sockfd IPPROTO_TCP TCP_NODELAY opt)"

definition SetReuseAddr :: "'s sock_sys \<Rightarrow> int \<Rightarrow> bool \<Rightarrow> 's \<Rightarrow> 's" where
  "SetReuseAddr sys sockfd on s =
     (let opt = (if on then 1 else 0) in sock_setopt sys s sockfd SOL_SOCKET SO_REUSEADDR opt)"

definition SetReusePort :: "'s sock_sys \<Rightarrow> int \<Rightarrow> bool \<Rightarrow> 's \<Rightarrow> 's" where
  "SetReusePort sys sockfd on s =
     (let opt = (if on then 1 else 0) in sock_setopt sys s sockfd SOL_SOCKET SO_REUSEPORT opt)"

definition Socket_SetKeepAlive :: "'s sock_sys \<Rightarrow> int \<Rightarrow> bool \<Rightarrow> 's \<Rightarrow> 's" where
  "Socket_SetKeepAlive sys sockfd on s =
     (let opt = (if on then 1 else 0) in sock_setopt sys s sockfd SOL_SOCKET SO_KEEPALIVE opt)"

text \<open>\<^verbatim>\<open>CreateSocket\<close> of src/net/Acceptor.cpp.\<close>

definition CreateSocket :: "'s sock_sys \<Rightarrow> 's \<Rightarrow> (int \<times> 's) res" where
  "CreateSocket sys s =
     (let (sockfd, s) = sock_create sys s in if sockfd < 0 then Inl Abort else Inr (sockfd, s))"

end
