(* ===== verification/Tcp_Server.thy ===== *)
theory Tcp_Server
  imports Tcp_Stream Loop_Pool Sockets
begin

text \<open>
  \<^verbatim>\<open>TcpServer\<close> and \<^verbatim>\<open>Acceptor\<close> (include/net, src/net): a listening socket in the base
  loop, a pool of loops for the connections, and the map of the live connections. The state is the
  one of \<open>Tcp_Connection\<close> as the running thread sees it, with the other event loops of the
  program parked beside it; memory and sockets are shared. \<open>switch\<close> goes on with another
  loop's thread.
\<close>

section \<open>State\<close>

text \<open>
  The callbacks of a connection are either the application's or the ones \<^verbatim>\<open>std::bind\<close> makes
  of the server's own functions; a queued functor of the server is a call of such a callback.
\<close>

datatype 'a srv_callback = RemoveConnectionCb | RemoveConnectionInLoopCb | AppCallback 'a

record ('t, 'k, 'e, 's, 'a) server = "('t, 'k, 'e, 's, 'a srv_callback) net" +
  here :: nat
  parked :: "nat \<Rightarrow> ('t, conn_handler, 'k, 'e, 'a srv_callback conn_functor) event_loop"
  conn_loop :: "nat \<Rightarrow> nat"
  srv_IpPort :: string
  srv_name :: string
  ThreadPool :: loop_pool
  srv_ConnectionCallback :: "'a option"
  srv_MessageCallback :: "'a option"
  srv_WriteCompleteCallback :: "'a option"
  srv_started :: "32 word"
  NextConnectionId :: "32 word"
  connections :: "string \<Rightarrow> nat option"
  acceptor_fd :: int
  acceptor_channel :: nat
  listenning :: bool
  NewConnectionCallback :: bool

type_synonym ('t, 'k, 'e, 's, 'a, 'z) srv = "('t, 'k, 'e, 's, 'a, 'z) server_scheme"

type_synonym ('t, 'k, 'e, 'a) bare_loop =
  "('t, conn_handler, 'k, 'e, 'a srv_callback conn_functor) event_loop"

definition switch :: "nat \<Rightarrow> ('t, 'k, 'e, 's, 'a, 'z) srv \<Rightarrow> ('t, 'k, 'e, 's, 'a, 'z) srv" where
  "switch i w = (if i = here w then w
     else (event_loop.extend (parked w i) (event_loop.more w))
            \<lparr>parked := (parked w)(here w := event_loop.truncate w), here := i\<rparr>)"

text \<open>Doing something to an object of another loop, and coming back.\<close>

definition at_loop :: "nat \<Rightarrow> (('t, 'k, 'e, 's, 'a, 'z) srv \<Rightarrow> ('t, 'k, 'e, 's, 'a, 'z) srv) \<Rightarrow>
    ('t, 'k, 'e, 's, 'a, 'z) srv \<Rightarrow> ('t, 'k, 'e, 's, 'a, 'z) srv" where
  "at_loop i f w = switch (here w) (f (switch i w))"

text \<open>\<^verbatim>\<open>loop->QueueInLoop\<close> and \<^verbatim>\<open>loop->RunInLoop\<close> of any loop, from this thread.\<close>

definition queue_to :: "('k, 'e, 's) net_sys \<Rightarrow> nat \<Rightarrow> 'a srv_callback conn_functor \<Rightarrow>
    ('t, 'k, 'e, 's, 'a, 'z) srv \<Rightarrow> ('t, 'k, 'e, 's, 'a, 'z) srv" where
  "queue_to sys i f w = at_loop i (QueueInLoop (lsys sys) (i = here w) (UserF f)) w"

definition run_to :: "('k, 'e, 's) net_sys \<Rightarrow>
    ('a srv_callback conn_functor \<Rightarrow> ('t, 'k, 'e, 's, 'a, 'z) srv \<Rightarrow> ('t, 'k, 'e, 's, 'a, 'z) srv res) \<Rightarrow>
    nat \<Rightarrow> 'a srv_callback conn_functor \<Rightarrow>
    ('t, 'k, 'e, 's, 'a, 'z) srv \<Rightarrow> ('t, 'k, 'e, 's, 'a, 'z) srv res" where
  "run_to sys run i f w = (if i = here w then run f w else Inr (queue_to sys i f w))"

section \<open>Removing a connection\<close>

definition RemoveConnectionInLoop :: "('k, 'e, 's) net_sys \<Rightarrow> nat \<Rightarrow>
    ('t, 'k, 'e, 's, 'a, 'z) srv \<Rightarrow> ('t, 'k, 'e, 's, 'a, 'z) srv" where
  "RemoveConnectionInLoop sys c w =
     queue_to sys (conn_loop w c) (ConnectDestoryedF c)
       (w\<lparr>connections := (connections w)(conn_name (conns w c) := None)\<rparr>)"

definition RemoveConnection :: "('k, 'e, 's) net_sys \<Rightarrow> nat \<Rightarrow>
    ('t, 'k, 'e, 's, 'a, 'z) srv \<Rightarrow> ('t, 'k, 'e, 's, 'a, 'z) srv" where
  "RemoveConnection sys c w =
     (if BaseLoop (ThreadPool w) = here w then RemoveConnectionInLoop sys c w
      else queue_to sys (BaseLoop (ThreadPool w)) (UserCallF (CloseCall RemoveConnectionInLoopCb c)) w)"

text \<open>What a call of a callback does: the server's own are functions of this theory.\<close>

fun srv_usr :: "('k, 'e, 's) net_sys \<Rightarrow>
    ('a srv_callback user_call \<Rightarrow> ('t, 'k, 'e, 's, 'a, 'z) srv \<Rightarrow> ('t, 'k, 'e, 's, 'a, 'z) srv res) \<Rightarrow>
    'a srv_callback user_call \<Rightarrow> ('t, 'k, 'e, 's, 'a, 'z) srv \<Rightarrow> ('t, 'k, 'e, 's, 'a, 'z) srv res" where
  "srv_usr sys app (CloseCall RemoveConnectionCb c) w = Inr (RemoveConnection sys c w)"
| "srv_usr sys app (CloseCall RemoveConnectionInLoopCb c) w = Inr (RemoveConnectionInLoop sys c w)"
| "srv_usr sys app u w = app u w"

abbreviation run_srv :: "('k, 'e, 's) net_sys \<Rightarrow>
    ('a srv_callback user_call \<Rightarrow> ('t, 'k, 'e, 's, 'a, 'z) srv \<Rightarrow> ('t, 'k, 'e, 's, 'a, 'z) srv res) \<Rightarrow>
    'a srv_callback conn_functor \<Rightarrow> ('t, 'k, 'e, 's, 'a, 'z) srv \<Rightarrow> ('t, 'k, 'e, 's, 'a, 'z) srv res" where
  "run_srv sys app \<equiv> run_conn_functor sys (srv_usr sys app)"

section \<open>A new connection\<close>

text \<open>The name in the map: server, address and a number.\<close>

definition connection_name :: "string \<Rightarrow> string \<Rightarrow> 32 word \<Rightarrow> string" where
  "connection_name name ip cid = name @ snprintf_buf 64 (''-'' @ ip @ ''#'' @ dec_int (sint cid))"

text \<open>
  \<open>c\<close> and \<open>r\<close> are the addresses of the new connection and its channel. \<^verbatim>\<open>getsockname\<close>
  only fills in the local address.
\<close>

definition NewConnection :: "('k, 'e, 's) net_sys \<Rightarrow>
    ('a srv_callback user_call \<Rightarrow> ('t, 'k, 'e, 's, 'a, 'z) srv \<Rightarrow> ('t, 'k, 'e, 's, 'a, 'z) srv res) \<Rightarrow>
    nat \<Rightarrow> nat \<Rightarrow> int \<Rightarrow> ('t, 'k, 'e, 's, 'a, 'z) srv \<Rightarrow> ('t, 'k, 'e, 's, 'a, 'z) srv res" where
  "NewConnection sys app c r sockfd w =
     bindR (GetNextLoop (ThreadPool w)) (\<lambda>(ioloop, pool).
       let w = w\<lparr>ThreadPool := pool\<rparr>;
           name = connection_name (srv_name w) (srv_IpPort w) (NextConnectionId w)
       in if sint (NextConnectionId w) = 2 ^ 31 - 1 then Inl SignedOverflow
          else (let w = w\<lparr>NextConnectionId := NextConnectionId w + 1\<rparr>;
                    w = at_loop ioloop (new_TcpConnection c name sockfd r) w;
                    w = w\<lparr>conn_loop := (conn_loop w)(c := ioloop), connections := (connections w)(name \<mapsto> c)\<rparr>;
                    w = upd_conn c (\<lambda>conn. conn_SetCloseCallback (Some RemoveConnectionCb)
                          (conn_SetWriteCompleteCallback (map_option AppCallback (srv_WriteCompleteCallback w))
                          (conn_SetMessageCallback (map_option AppCallback (srv_MessageCallback w))
                          (conn_SetConnectionCallback (map_option AppCallback (srv_ConnectionCallback w)) conn)))) w
                in run_to sys (run_srv sys app) ioloop (ConnectEstablishedF c) w))"

section \<open>The acceptor\<close>

text \<open>
  The constructor, with \<open>r\<close> the address of its channel. Descriptors of the kernel are those
  of the state \<open>sockets\<close>.
\<close>

definition new_Acceptor :: "'s sock_sys \<Rightarrow> nat \<Rightarrow> sockaddr_in \<Rightarrow> bool \<Rightarrow>
    ('t, 'k, 'e, 's, 'a, 'z) srv \<Rightarrow> ('t, 'k, 'e, 's, 'a, 'z) srv res" where
  "new_Acceptor sock r ListenAddress reuseport w =
     bindR (CreateSocket sock (sockets w)) (\<lambda>(sockfd, s).
       let s = SetReuseAddr sock sockfd True s;
           s = SetReusePort sock sockfd reuseport s
       in bindR (BindAddress sock sockfd ListenAddress s)
            (\<lambda>s. Inr (w\<lparr>sockets := s, acceptor_fd := sockfd, acceptor_channel := r, listenning := False,
               NewConnectionCallback := False,
               poller_of := upd_chan r (\<lambda>_. SetReadCallback (Handler AcceptorRead) (new_Channel sockfd))
                 (poller_of w)\<rparr>)))"

definition Acceptor_listen :: "'s sock_sys \<Rightarrow> ('k, 'e, 's) net_sys \<Rightarrow>
    ('t, 'k, 'e, 's, 'a, 'z) srv \<Rightarrow> ('t, 'k, 'e, 's, 'a, 'z) srv res" where
  "Acceptor_listen sock sys w =
     (let w = w\<lparr>listenning := True\<rparr> in
      bindR (Socket_listen sock (acceptor_fd w) (sockets w)) (\<lambda>s.
        with_poller (EnableReading (sys_ctl (lsys sys)) (acceptor_channel w)) (w\<lparr>sockets := s\<rparr>)))"

text \<open>\<open>c\<close> and \<open>r\<close> are the memory for the connection, if there is one.\<close>

definition Acceptor_HandleRead :: "'s sock_sys \<Rightarrow> ('k, 'e, 's) net_sys \<Rightarrow>
    ('a srv_callback user_call \<Rightarrow> ('t, 'k, 'e, 's, 'a, 'z) srv \<Rightarrow> ('t, 'k, 'e, 's, 'a, 'z) srv res) \<Rightarrow>
    nat \<Rightarrow> nat \<Rightarrow> ('t, 'k, 'e, 's, 'a, 'z) srv \<Rightarrow> ('t, 'k, 'e, 's, 'a, 'z) srv res" where
  "Acceptor_HandleRead sock sys app c r w =
     (let ((connfd, peeraddr), s) = Socket_accept sock (acceptor_fd w) zero_sockaddr (sockets w);
          w = w\<lparr>sockets := s\<rparr>
      in if 0 \<le> connfd then
           (if NewConnectionCallback w then NewConnection sys app c r connfd w
            else Inr (w\<lparr>sockets := sock_close sock (sockets w) connfd\<rparr>))
         else Inr w)"

text \<open>\<^verbatim>\<open>~Acceptor\<close>; the members are destroyed after its body, the socket last.\<close>

definition delete_Acceptor :: "'s sock_sys \<Rightarrow> ('k, 'e, 's) net_sys \<Rightarrow>
    ('t, 'k, 'e, 's, 'a, 'z) srv \<Rightarrow> ('t, 'k, 'e, 's, 'a, 'z) srv res" where
  "delete_Acceptor sock sys w =
     bindR (with_poller (DisableAll (sys_ctl (lsys sys)) (acceptor_channel w)) w)
       (\<lambda>w. bindR (loop_RemoveChannel (lsys sys) (acceptor_channel w) w)
         (\<lambda>w. Inr (w\<lparr>sockets := delete_Socket sock (acceptor_fd w) (sockets w)\<rparr>)))"

section \<open>Construction, start, destruction\<close>

text \<open>The constructor, in the thread of the base loop.\<close>

definition new_TcpServer :: "'s sock_sys \<Rightarrow> nat \<Rightarrow> sockaddr_in \<Rightarrow> string \<Rightarrow> bool \<Rightarrow>
    ('t, 'k, 'e, 's, 'a, 'z) srv \<Rightarrow> ('t, 'k, 'e, 's, 'a, 'z) srv res" where
  "new_TcpServer sock r ListenAddr name ReusePort w =
     bindR (IpPort ListenAddr) (\<lambda>ip.
       bindR (new_Acceptor sock r ListenAddr ReusePort (w\<lparr>srv_IpPort := ip, srv_name := name\<rparr>))
         (\<lambda>w. Inr (w\<lparr>ThreadPool := new_EventLoopThreadPool (here w) name,
            srv_ConnectionCallback := None, srv_MessageCallback := None,
            srv_WriteCompleteCallback := None, srv_started := 0, NextConnectionId := 1,
            connections := Map.empty, NewConnectionCallback := True\<rparr>)))"

definition server_SetThreadNum :: "32 word \<Rightarrow>
    ('t, 'k, 'e, 's, 'a, 'z) srv \<Rightarrow> ('t, 'k, 'e, 's, 'a, 'z) srv" where
  "server_SetThreadNum num w = w\<lparr>ThreadPool := SetThreadNum num (ThreadPool w)\<rparr>"

definition srv_SetConnectionCallback :: "'a option \<Rightarrow> ('t, 'k, 'e, 's, 'a, 'z) srv \<Rightarrow> ('t, 'k, 'e, 's, 'a, 'z) srv" where
  "srv_SetConnectionCallback f w = w\<lparr>srv_ConnectionCallback := f\<rparr>"

definition srv_SetMessageCallback :: "'a option \<Rightarrow> ('t, 'k, 'e, 's, 'a, 'z) srv \<Rightarrow> ('t, 'k, 'e, 's, 'a, 'z) srv" where
  "srv_SetMessageCallback f w = w\<lparr>srv_MessageCallback := f\<rparr>"

definition srv_SetWriteCompleteCallback :: "'a option \<Rightarrow> ('t, 'k, 'e, 's, 'a, 'z) srv \<Rightarrow> ('t, 'k, 'e, 's, 'a, 'z) srv" where
  "srv_SetWriteCompleteCallback f w = w\<lparr>srv_WriteCompleteCallback := f\<rparr>"

text \<open>
  What the system gives to one thread of the pool: whether \<^verbatim>\<open>std::thread\<close> could start it, the
  address of the \<^verbatim>\<open>EventLoop\<close> on its stack and those of its timer and wake-up channels, the
  answers of \<^verbatim>\<open>epoll_create1\<close>, \<^verbatim>\<open>timerfd_create\<close> and \<^verbatim>\<open>eventfd\<close> with
  the kernel objects behind them, the memory and the clock.
\<close>

record ('k, 'e) thread_answers =
  thread_made :: bool
  loop_addr :: nat
  loop_refs :: "nat \<times> nat"
  loop_fds :: "int \<times> int \<times> int"
  loop_epoll :: 'k
  loop_eventfd :: 'e
  loop_heap :: "nat \<Rightarrow> conn_handler handler channel"
  loop_clock :: "nat \<Rightarrow> timestamp"

text \<open>
  \<^verbatim>\<open>EventLoopThread::StartLoop\<close> with the constructor of the loop in
  \<^verbatim>\<open>ThreadFunciton\<close>, which may end the process; it returns when the loop is there (the
  handshake is in \<open>Loop_Pool\<close>).
\<close>

definition StartLoop :: "('k, 'e, 's) net_sys \<Rightarrow> (nat \<Rightarrow> ('k, 'e) thread_answers) \<Rightarrow> nat \<Rightarrow>
    ('t, 'k, 'e, 's, 'a, 'z) srv \<Rightarrow> (nat \<times> ('t, 'k, 'e, 's, 'a, 'z) srv) res" where
  "StartLoop sys threads i w =
     (let a = threads i in
      if \<not> thread_made a then Inl SystemError
      else bindR (new_EventLoop (lsys sys) False (loop_heap a) (loop_epoll a) (loop_eventfd a) (loop_fds a)
                    (loop_refs a) (TotalNum w) (loop_clock a))
             (\<lambda>l. Inr (loop_addr a, w\<lparr>parked := (parked w)(loop_addr a := l)\<rparr>)))"

text \<open>
  \<^verbatim>\<open>start\<close>, called in the thread of the base loop, which is where \<^verbatim>\<open>RunInLoop\<close> runs
  the acceptor's \<^verbatim>\<open>listen\<close> at once; the answer has the loops the initial callback is called
  with. The counter is atomic, it wraps.
\<close>

definition start_server :: "'s sock_sys \<Rightarrow> ('k, 'e, 's) net_sys \<Rightarrow> (nat \<Rightarrow> ('k, 'e) thread_answers) \<Rightarrow> bool \<Rightarrow>
    ('t, 'k, 'e, 's, 'a, 'z) srv \<Rightarrow> (nat list \<times> ('t, 'k, 'e, 's, 'a, 'z) srv) res" where
  "start_server sock sys threads callback_set w =
     (let old = srv_started w; w = w\<lparr>srv_started := old + 1\<rparr> in
      if old = 0 then
        bindR (start_pool (StartLoop sys threads) callback_set (ThreadPool w) w) (\<lambda>(inits, pool, w).
          bindR (Acceptor_listen sock sys (w\<lparr>ThreadPool := pool\<rparr>)) (\<lambda>w. Inr (inits, w)))
      else Inr ([], w))"

text \<open>
  The destructor, with the names in the order of the map's iteration: every entry gives up its
  reference to the connection.
\<close>

definition delete_TcpServer :: "('k, 'e, 's) net_sys \<Rightarrow>
    ('a srv_callback user_call \<Rightarrow> ('t, 'k, 'e, 's, 'a, 'z) srv \<Rightarrow> ('t, 'k, 'e, 's, 'a, 'z) srv res) \<Rightarrow>
    string list \<Rightarrow> ('t, 'k, 'e, 's, 'a, 'z) srv \<Rightarrow> ('t, 'k, 'e, 's, 'a, 'z) srv res" where
  "delete_TcpServer sys app names w =
     foldR (\<lambda>name w. case connections w name of
         None \<Rightarrow> Inl NullPointer
       | Some c \<Rightarrow> run_to sys (run_srv sys app) (conn_loop w c) (ConnectDestoryedF c)
                     (w\<lparr>connections := (connections w)(name := None)\<rparr>)) names w"

section \<open>Switching between loops\<close>

lemma switch_here [simp]: "switch (here w) w = w"
  by (simp add: switch_def)

lemma switch_fields [simp]:
  "here (switch i w) = i" "conns (switch i w) = conns w" "conn_alive (switch i w) = conn_alive w"
  "sockets (switch i w) = sockets w" "strings (switch i w) = strings w"
  "user_buffers (switch i w) = user_buffers w" "conn_loop (switch i w) = conn_loop w"
  "srv_IpPort (switch i w) = srv_IpPort w" "srv_name (switch i w) = srv_name w"
  "ThreadPool (switch i w) = ThreadPool w" "NextConnectionId (switch i w) = NextConnectionId w"
  "connections (switch i w) = connections w"
  "srv_ConnectionCallback (switch i w) = srv_ConnectionCallback w"
  "srv_MessageCallback (switch i w) = srv_MessageCallback w"
  "srv_WriteCompleteCallback (switch i w) = srv_WriteCompleteCallback w"
  by (cases w; simp add: switch_def event_loop.defs)+

text \<open>The loop \<open>i\<close>, whichever thread runs.\<close>

definition loop_at :: "nat \<Rightarrow> ('t, 'k, 'e, 's, 'a, 'z) srv \<Rightarrow> ('t, 'k, 'e, 'a) bare_loop" where
  "loop_at i w = (if i = here w then event_loop.truncate w else parked w i)"

lemma switch_other:
  "i \<noteq> here w \<Longrightarrow> parked (switch i w) = (parked w)(here w := event_loop.truncate w)"
  "i \<noteq> here w \<Longrightarrow> event_loop.truncate (switch i w) = parked w i"
  by (cases w; simp add: switch_def event_loop.defs)+

lemma loop_at_switch [simp]: "loop_at j (switch i w) = loop_at j w"
  by (cases "i = here w") (simp_all add: loop_at_def switch_other)

lemma loop_at_here: "event_loop.truncate w = loop_at (here w) w"
  by (simp add: loop_at_def)

lemma truncate_simps [simp]:
  "poller_of (event_loop.truncate w) = poller_of w" "functors (event_loop.truncate w) = functors w"
  "wakeupFd (event_loop.truncate w) = wakeupFd w" "callable (event_loop.truncate w) = callable w"
  by (simp_all add: event_loop.defs)

lemma current_loop:
  "poller_of w = poller_of (loop_at (here w) w)" "functors w = functors (loop_at (here w) w)"
  "wakeupFd w = wakeupFd (loop_at (here w) w)"
  by (simp_all add: loop_at_def)

text \<open>What an operation on the current loop alone does to the whole.\<close>

lemma truncate_QueueInLoop:
  "event_loop.truncate (QueueInLoop s b f w) = QueueInLoop s b f (event_loop.truncate w)"
  by (simp add: QueueInLoop_def wakeup_def event_loop.defs Let_def)

lemma QueueInLoop_fields [simp]:
  "here (QueueInLoop s b f w) = here w" "parked (QueueInLoop s b f w) = parked w"
  "conns (QueueInLoop s b f w) = conns w" "conn_alive (QueueInLoop s b f w) = conn_alive w"
  "sockets (QueueInLoop s b f w) = sockets w" "conn_loop (QueueInLoop s b f w) = conn_loop w"
  "srv_IpPort (QueueInLoop s b f w) = srv_IpPort w" "srv_name (QueueInLoop s b f w) = srv_name w"
  "ThreadPool (QueueInLoop s b f w) = ThreadPool w"
  "NextConnectionId (QueueInLoop s b f w) = NextConnectionId w"
  "connections (QueueInLoop s b f w) = connections w"
  by (simp_all add: QueueInLoop_def wakeup_def Let_def)

lemma queue_to_fields [simp]:
  "here (queue_to sys i f w) = here w" "conns (queue_to sys i f w) = conns w"
  "conn_alive (queue_to sys i f w) = conn_alive w" "sockets (queue_to sys i f w) = sockets w"
  "conn_loop (queue_to sys i f w) = conn_loop w" "srv_IpPort (queue_to sys i f w) = srv_IpPort w"
  "srv_name (queue_to sys i f w) = srv_name w" "ThreadPool (queue_to sys i f w) = ThreadPool w"
  "NextConnectionId (queue_to sys i f w) = NextConnectionId w"
  "connections (queue_to sys i f w) = connections w"
  by (simp_all add: queue_to_def at_loop_def)

text \<open>An operation at the loop \<open>i\<close> that stays there changes that loop only.\<close>

lemma loop_at_at_loop:
  assumes "here (f (switch i w)) = i" and "parked (f (switch i w)) = parked (switch i w)"
  shows "loop_at j (at_loop i f w) = (if j = i then event_loop.truncate (f (switch i w)) else loop_at j w)"
proof -
  have "loop_at j (at_loop i f w) = loop_at j (f (switch i w))" by (simp add: at_loop_def)
  also have "\<dots> = (if j = i then event_loop.truncate (f (switch i w)) else parked (switch i w) j)"
    using assms by (simp add: loop_at_def)
  also have "parked (switch i w) j = loop_at j w" if "j \<noteq> i"
    using loop_at_switch [of j i w] that by (simp add: loop_at_def)
  ultimately show ?thesis by simp
qed

lemma truncate_switch: "event_loop.truncate (switch i w) = loop_at i w"
  using loop_at_here [of "switch i w"] by simp

lemma loop_at_queue_to:
  "loop_at j (queue_to sys i f w) =
     (if j = i then QueueInLoop (lsys sys) (i = here w) (UserF f) (loop_at i w) else loop_at j w)"
  by (simp add: queue_to_def loop_at_at_loop truncate_QueueInLoop truncate_switch)

lemma functors_QueueInLoop [simp]: "functors (QueueInLoop s b f l) = functors l @ [f]"
  by (simp add: QueueInLoop_def wakeup_def Let_def)

lemma poller_QueueInLoop [simp]: "poller_of (QueueInLoop s b f l) = poller_of l"
  by (simp add: QueueInLoop_def wakeup_def Let_def)

lemma poller_queue_to [simp]: "poller_of (queue_to sys i f w) = poller_of w"
  using current_loop(1) [of "queue_to sys i f w"] current_loop(1) [of w] by (simp add: loop_at_queue_to)


lemma upd_conn_server [simp]:
  "here (upd_conn c f w) = here w" "parked (upd_conn c f w) = parked w"
  "conn_loop (upd_conn c f w) = conn_loop w" "srv_IpPort (upd_conn c f w) = srv_IpPort w"
  "srv_name (upd_conn c f w) = srv_name w" "ThreadPool (upd_conn c f w) = ThreadPool w"
  "NextConnectionId (upd_conn c f w) = NextConnectionId w"
  "connections (upd_conn c f w) = connections w"
  by (simp_all add: upd_conn_def)

lemma truncate_upd_conn [simp]: "event_loop.truncate (upd_conn c f w) = event_loop.truncate w"
  by (simp add: upd_conn_def event_loop.defs)

lemma loop_at_upd_conn [simp]: "loop_at j (upd_conn c f w) = loop_at j w"
  by (simp add: loop_at_def)

text \<open>The fields behind those of the server are never touched.\<close>

lemma server_more_switch [simp]: "server.more (switch i w) = server.more w"
  by (cases w; simp add: switch_def event_loop.defs)

lemma server_more_upd_conn [simp]: "server.more (upd_conn c g w) = server.more w"
  by (simp add: upd_conn_def)

lemma server_more_QueueInLoop [simp]: "server.more (QueueInLoop s b g w) = server.more w"
  by (simp add: QueueInLoop_def wakeup_def Let_def)

lemma server_more [simp]:
  "server.more (queue_to sys i f w) = server.more w"
  "server.more (new_TcpConnection c name sockfd r w) = server.more w"
  by (simp_all add: queue_to_def at_loop_def new_TcpConnection_def)

lemma loop_at_simps [simp]:
  "loop_at j (conn_loop_update g w) = loop_at j w" "loop_at j (connections_update h w) = loop_at j w"
  "loop_at j (ThreadPool_update p w) = loop_at j w"
  "loop_at j (NextConnectionId_update n w) = loop_at j w"
  by (simp_all add: loop_at_def event_loop.defs)

lemma new_TcpConnection_fields [simp]:
  "here (new_TcpConnection c name f r w) = here w" "parked (new_TcpConnection c name f r w) = parked w"
  "conn_loop (new_TcpConnection c name f r w) = conn_loop w"
  "srv_IpPort (new_TcpConnection c name f r w) = srv_IpPort w"
  "srv_name (new_TcpConnection c name f r w) = srv_name w"
  "ThreadPool (new_TcpConnection c name f r w) = ThreadPool w"
  "NextConnectionId (new_TcpConnection c name f r w) = NextConnectionId w"
  "connections (new_TcpConnection c name f r w) = connections w"
  "srv_ConnectionCallback (new_TcpConnection c name f r w) = srv_ConnectionCallback w"
  "srv_MessageCallback (new_TcpConnection c name f r w) = srv_MessageCallback w"
  "srv_WriteCompleteCallback (new_TcpConnection c name f r w) = srv_WriteCompleteCallback w"
  "functors (new_TcpConnection c name f r w) = functors w"
  "sockets (new_TcpConnection c name f r w) = sockets w"
  "conn_alive (new_TcpConnection c name f r w) = (conn_alive w)(c := True)"
  "d \<noteq> c \<Longrightarrow> conns (new_TcpConnection c name f r w) d = conns w d"
  "conn_name (conns (new_TcpConnection c name f r w) c) = name"
  "conn_fd (conns (new_TcpConnection c name f r w) c) = f"
  "state (conns (new_TcpConnection c name f r w) c) = kConnecting"
  by (simp_all add: new_TcpConnection_def) (simp_all add: upd_conn_def)

section \<open>The map of the connections\<close>

text \<open>Every entry is a connection under its own name, made by an earlier \<^verbatim>\<open>NewConnection\<close>.\<close>

definition srv_inv :: "('t, 'k, 'e, 's, 'a, 'z) srv \<Rightarrow> bool" where
  "srv_inv w \<longleftrightarrow> pool_inv (ThreadPool w) \<and> 0 < sint (NextConnectionId w) \<and>
     (\<forall>name c. connections w name = Some c \<longrightarrow> conn_name (conns w c) = name \<and>
        (\<exists>i. 0 < sint i \<and> sint i < sint (NextConnectionId w) \<and>
           name = connection_name (srv_name w) (srv_IpPort w) i))"

lemma srv_invD:
  assumes "srv_inv w"
  shows "pool_inv (ThreadPool w)" and "0 < sint (NextConnectionId w)"
    and "connections w name = Some c \<Longrightarrow> conn_name (conns w c) = name"
    and "connections w name = Some c \<Longrightarrow> \<exists>i. 0 < sint i \<and> sint i < sint (NextConnectionId w) \<and>
           name = connection_name (srv_name w) (srv_IpPort w) i"
  using assms unfolding srv_inv_def by blast+

lemma connection_name_inject:
  assumes "length ip \<le> 40"
  shows "connection_name name ip i = connection_name name ip j \<longleftrightarrow> i = j"
proof -
  have fits: "length (''-'' @ ip @ ''#'' @ dec_int (sint k)) < 64" for k :: "32 word"
  proof -
    have "- (2 ^ 31) \<le> sint k" "sint k < 2 ^ 31"
      using sint_greater_eq [of k] sint_less [of k] by simp_all
    then have "nat (sint k) < 10 ^ 10" "nat (- sint k) < 10 ^ 10" by auto
    then have "length (dec_int (sint k)) \<le> Suc 10"
      using dec_nat_length [of "nat (sint k)" 10] dec_nat_length [of "nat (- sint k)" 10]
      by (simp add: dec_int_def)
    with assms show ?thesis by simp
  qed
  show ?thesis
    unfolding connection_name_def snprintf_buf_fits [OF fits] by (auto intro: signed_word_eqI)
qed

text \<open>The new connection and its channel.\<close>

definition served_conn :: "('t, 'k, 'e, 's, 'a, 'z) srv \<Rightarrow> string \<Rightarrow> int \<Rightarrow> nat \<Rightarrow>
    'a srv_callback tcp_connection" where
  "served_conn w name sockfd r =
     \<lparr>state = kConnecting, conn_name = name, conn_fd = sockfd, channel_of = r,
      ConnectionCallback = map_option AppCallback (srv_ConnectionCallback w),
      MessageCallback = map_option AppCallback (srv_MessageCallback w),
      WriteCompleteCallback = map_option AppCallback (srv_WriteCompleteCallback w),
      conn_CloseCallback = Some RemoveConnectionCb, HighWaterMarkCallback = None,
      HighWaterMark = 64 * 1024 * 1024,
      InputBuffer = new_Buffer kInitialSize, OutputBuffer = new_Buffer kInitialSize\<rparr>"

definition conn_channel :: "nat \<Rightarrow> int \<Rightarrow> conn_handler handler channel" where
  "conn_channel c sockfd = SetWriteCallback (Handler (HandleWriteOf c))
     (SetReadCallback (Handler (HeadleReadOf c)) (new_Channel sockfd))"

lemma truncate_new_TcpConnection:
  "event_loop.truncate (new_TcpConnection c name f r w) =
     (event_loop.truncate w)\<lparr>poller_of := upd_chan r (\<lambda>_. conn_channel c f) (poller_of w)\<rparr>"
  by (simp add: new_TcpConnection_def conn_channel_def) (simp add: event_loop.defs)

text \<open>The state in which \<^verbatim>\<open>ConnectEstablished\<close> is run or queued, for any loop \<open>i\<close>.\<close>

lemma NewConnection_prepares:
  assumes inv: "srv_inv w" and ip: "length (srv_IpPort w) \<le> 40"
    and id: "sint (NextConnectionId w) < 2 ^ 31 - 1" and c: "\<forall>name. connections w name \<noteq> Some c"
    and i: "i = AllLoops (ThreadPool w) ! unat (next_loop (ThreadPool w))"
    and name: "name = connection_name (srv_name w) (srv_IpPort w) (NextConnectionId w)"
  obtains v where "NewConnection sys app c r sockfd w = run_to sys (run_srv sys app) i (ConnectEstablishedF c) v"
    and "srv_inv v" and "connections w name = None" and "connections v = (connections w)(name \<mapsto> c)"
    and "conns v = (conns w)(c := served_conn w name sockfd r)"
    and "conn_alive v = (conn_alive w)(c := True)" and "sockets v = sockets w"
    and "conn_loop v = (conn_loop w)(c := i)" and "here v = here w" and "srv_IpPort v = srv_IpPort w"
    and "srv_name v = srv_name w" and "sint (NextConnectionId v) = sint (NextConnectionId w) + 1"
    and "AllLoops (ThreadPool v) = AllLoops (ThreadPool w)"
    and "\<And>j. loop_at j v = (if j = i then (loop_at i w)\<lparr>poller_of :=
        upd_chan r (\<lambda>_. conn_channel c sockfd) (poller_of (loop_at i w))\<rparr> else loop_at j w)"
    and "server.more v = server.more w"
proof -
  note I = srv_invD [OF inv]
  let ?id = "NextConnectionId w"
  from GetNextLoop_exact [OF I(1)] obtain pool where
    pool: "GetNextLoop (ThreadPool w) = Inr (i, pool)" "pool_inv pool"
      "pool_loops pool = pool_loops (ThreadPool w)" "BaseLoop pool = BaseLoop (ThreadPool w)"
    unfolding i by blast
  have suc: "sint (?id + 1) = sint ?id + 1"
    using id I(2) by (simp add: sint_word_ariths signed_take_bit_int_eq_self)
  have fresh: "connections w name = None"
  proof (rule ccontr)
    assume "connections w name \<noteq> None"
    then obtain d where "connections w name = Some d" by blast
    from I(4) [OF this] obtain k where "sint k < sint ?id" "name = connection_name (srv_name w) (srv_IpPort w) k"
      by blast
    with connection_name_inject [OF ip] show False by (simp add: name)
  qed
  let ?w1 = "w\<lparr>ThreadPool := pool, NextConnectionId := ?id + 1\<rparr>"
  define w2 where "w2 = at_loop i (new_TcpConnection c name sockfd r) ?w1"
  define v where "v = upd_conn c (\<lambda>conn. conn\<lparr>
      ConnectionCallback := map_option AppCallback (srv_ConnectionCallback w),
      MessageCallback := map_option AppCallback (srv_MessageCallback w),
      WriteCompleteCallback := map_option AppCallback (srv_WriteCompleteCallback w),
      conn_CloseCallback := Some RemoveConnectionCb\<rparr>)
    (w2\<lparr>conn_loop := (conn_loop w2)(c := i), connections := (connections w2)(name \<mapsto> c)\<rparr>)"
  have w2: "connections w2 = connections w" "srv_name w2 = srv_name w" "srv_IpPort w2 = srv_IpPort w"
    "NextConnectionId w2 = ?id + 1" "ThreadPool w2 = pool" "here w2 = here w" "conn_loop w2 = conn_loop w"
    "conn_alive w2 = (conn_alive w)(c := True)" "sockets w2 = sockets w" "server.more w2 = server.more w"
    by (simp_all add: w2_def at_loop_def)
  have conns: "conns v = (conns w)(c := served_conn w name sockfd r)"
    by (simp add: v_def w2_def at_loop_def) (simp add: new_TcpConnection_def served_conn_def)
  have queue: "event_loop.truncate (new_TcpConnection c name sockfd r (switch i ?w1)) =
      (loop_at i w)\<lparr>poller_of := upd_chan r (\<lambda>_. conn_channel c sockfd) (poller_of (loop_at i w))\<rparr>"
    using current_loop(1) [of "switch i ?w1"] by (simp add: truncate_new_TcpConnection truncate_switch)
  have loops: "loop_at j w2 = (if j = i then (loop_at i w)\<lparr>poller_of :=
        upd_chan r (\<lambda>_. conn_channel c sockfd) (poller_of (loop_at i w))\<rparr> else loop_at j w)" for j
    by (simp add: w2_def loop_at_at_loop queue)
  show thesis
  proof (rule that [of v])
    show "NewConnection sys app c r sockfd w = run_to sys (run_srv sys app) i (ConnectEstablishedF c) v"
      using id by (simp add: NewConnection_def Let_def pool(1) w2_def v_def name at_loop_def)
    show "srv_inv v"
      unfolding srv_inv_def
    proof (intro conjI allI impI)
      fix n d assume "connections v n = Some d"
      then have n: "n = name \<and> d = c \<or> n \<noteq> name \<and> connections w n = Some d"
        by (simp add: v_def w2 split: if_splits)
      with c I(3) show "conn_name (conns v d) = n" unfolding conns by (auto simp: served_conn_def)
      have "\<exists>k. 0 < sint k \<and> sint k < sint ?id + 1 \<and> n = connection_name (srv_name w) (srv_IpPort w) k"
        using n I(2) name I(4) [of n d] by force
      then show "\<exists>k. 0 < sint k \<and> sint k < sint (NextConnectionId v) \<and>
          n = connection_name (srv_name v) (srv_IpPort v) k"
        by (simp add: v_def w2 suc)
    qed (use pool(2) I(2) suc in \<open>simp_all add: v_def w2\<close>)
    show "loop_at j v = (if j = i then (loop_at i w)\<lparr>poller_of :=
        upd_chan r (\<lambda>_. conn_channel c sockfd) (poller_of (loop_at i w))\<rparr> else loop_at j w)" for j
      by (simp add: v_def) (simp add: loops)
  qed (use fresh conns pool(3,4) suc in \<open>simp_all add: v_def w2 AllLoops_def\<close>)
qed

lemma NewConnection_effect:
  assumes inv: "srv_inv w" and ip: "length (srv_IpPort w) \<le> 40"
    and id: "sint (NextConnectionId w) < 2 ^ 31 - 1" and c: "\<forall>name. connections w name \<noteq> Some c"
    and i: "i = AllLoops (ThreadPool w) ! unat (next_loop (ThreadPool w))" "i \<noteq> here w"
    and name: "name = connection_name (srv_name w) (srv_IpPort w) (NextConnectionId w)"
  obtains w' where "NewConnection sys app c r sockfd w = Inr w'" and "srv_inv w'"
    and "connections w name = None" and "connections w' = (connections w)(name \<mapsto> c)"
    and "conns w' = (conns w)(c := served_conn w name sockfd r)"
    and "conn_alive w' = (conn_alive w)(c := True)" and "sockets w' = sockets w"
    and "conn_loop w' = (conn_loop w)(c := i)" and "here w' = here w" and "srv_IpPort w' = srv_IpPort w"
    and "AllLoops (ThreadPool w') = AllLoops (ThreadPool w)"
    and "loop_at i w' = QueueInLoop (lsys sys) False (UserF (ConnectEstablishedF c))
      ((loop_at i w)\<lparr>poller_of := upd_chan r (\<lambda>_. conn_channel c sockfd) (poller_of (loop_at i w))\<rparr>)"
    and "\<And>j. j \<noteq> i \<Longrightarrow> loop_at j w' = loop_at j w"
proof -
  obtain v where v: "NewConnection sys app c r sockfd w = run_to sys (run_srv sys app) i (ConnectEstablishedF c) v"
    "srv_inv v" "connections w name = None" "connections v = (connections w)(name \<mapsto> c)"
    "conns v = (conns w)(c := served_conn w name sockfd r)"
    "conn_alive v = (conn_alive w)(c := True)" "sockets v = sockets w"
    "conn_loop v = (conn_loop w)(c := i)" "here v = here w" "srv_IpPort v = srv_IpPort w"
    "AllLoops (ThreadPool v) = AllLoops (ThreadPool w)"
    and loops: "\<And>j. loop_at j v = (if j = i then (loop_at i w)\<lparr>poller_of :=
        upd_chan r (\<lambda>_. conn_channel c sockfd) (poller_of (loop_at i w))\<rparr> else loop_at j w)"
    by (rule NewConnection_prepares [OF inv ip id c i(1) name, of sys app r sockfd]) (rule that)
  let ?w' = "queue_to sys i (ConnectEstablishedF c) v"
  show thesis
  proof (rule that [of ?w'])
    show "NewConnection sys app c r sockfd w = Inr ?w'" using i(2) v(1,9) by (simp add: run_to_def)
    show "srv_inv ?w'" using v(2) by (simp add: srv_inv_def)
    show "loop_at i ?w' = QueueInLoop (lsys sys) False (UserF (ConnectEstablishedF c))
      ((loop_at i w)\<lparr>poller_of := upd_chan r (\<lambda>_. conn_channel c sockfd) (poller_of (loop_at i w))\<rparr>)"
      using i(2) v(9) by (simp add: loop_at_queue_to loops)
    show "loop_at j ?w' = loop_at j w" if "j \<noteq> i" for j
      using that by (simp add: loop_at_queue_to loops)
  qed (use v in simp_all)
qed

text \<open>
  Accepting a connection: it goes to the next loop of the pool, in state \<^verbatim>\<open>kConnecting\<close>,
  under a name no live connection has, into the map, with the server's own close callback; what
  is left to do, \<^verbatim>\<open>ConnectEstablished\<close>, is queued in that loop, and no other loop is touched.
  (\<open>c\<close> is fresh memory, and the next loop is not the acceptor's own.)
\<close>

theorem new_connection_registered:
  assumes "srv_inv w" and "length (srv_IpPort w) \<le> 40" and "sint (NextConnectionId w) < 2 ^ 31 - 1"
    and "\<forall>name. connections w name \<noteq> Some c"
    and "i = AllLoops (ThreadPool w) ! unat (next_loop (ThreadPool w))" and "i \<noteq> here w"
    and "name = connection_name (srv_name w) (srv_IpPort w) (NextConnectionId w)"
  shows "\<exists>w'. NewConnection sys app c r sockfd w = Inr w' \<and> srv_inv w' \<and>
     connections w name = None \<and> connections w' = (connections w)(name \<mapsto> c) \<and>
     conn_name (conns w' c) = name \<and> conn_fd (conns w' c) = sockfd \<and> state (conns w' c) = kConnecting \<and>
     conn_CloseCallback (conns w' c) = Some RemoveConnectionCb \<and> conn_loop w' c = i \<and>
     functors (loop_at i w') = functors (loop_at i w) @ [UserF (ConnectEstablishedF c)] \<and>
     (\<forall>j. j \<noteq> i \<longrightarrow> loop_at j w' = loop_at j w)"
  by (rule NewConnection_effect [OF assms, of sys app r sockfd]) (auto simp: served_conn_def)

section \<open>Any traffic of the map\<close>

text \<open>What the base loop does to the map: accept into fresh memory, remove.\<close>

datatype srv_op = AcceptOp nat nat int | RemoveOp nat

fun do_srv_op :: "('k, 'e, 's) net_sys \<Rightarrow>
    ('a srv_callback user_call \<Rightarrow> ('t, 'k, 'e, 's, 'a, 'z) srv \<Rightarrow> ('t, 'k, 'e, 's, 'a, 'z) srv res) \<Rightarrow>
    srv_op \<Rightarrow> ('t, 'k, 'e, 's, 'a, 'z) srv \<Rightarrow> ('t, 'k, 'e, 's, 'a, 'z) srv res" where
  "do_srv_op sys app (AcceptOp c r sockfd) w = NewConnection sys app c r sockfd w"
| "do_srv_op sys app (RemoveOp c) w = Inr (RemoveConnectionInLoop sys c w)"

fun new_memory :: "srv_op list \<Rightarrow> nat list" where
  "new_memory [] = []"
| "new_memory (AcceptOp c r sockfd # ops) = c # new_memory ops"
| "new_memory (RemoveOp c # ops) = new_memory ops"

lemma RemoveConnectionInLoop_simps [simp]:
  "here (RemoveConnectionInLoop sys c w) = here w" "conns (RemoveConnectionInLoop sys c w) = conns w"
  "srv_IpPort (RemoveConnectionInLoop sys c w) = srv_IpPort w"
  "ThreadPool (RemoveConnectionInLoop sys c w) = ThreadPool w"
  "connections (RemoveConnectionInLoop sys c w) = (connections w)(conn_name (conns w c) := None)"
  by (simp_all add: RemoveConnectionInLoop_def)

lemma RemoveConnectionInLoop_inv: "srv_inv w \<Longrightarrow> srv_inv (RemoveConnectionInLoop sys c w)"
  by (auto simp: srv_inv_def RemoveConnectionInLoop_def)

lemma next_loop_in_pool: "pool_inv p \<Longrightarrow> AllLoops p ! unat (next_loop p) \<in> set (AllLoops p)"
  by (auto simp: pool_inv_def AllLoops_def split: if_splits)

lemma NewConnection_overflow:
  assumes "pool_inv (ThreadPool w)" and "\<not> sint (NextConnectionId w) < 2 ^ 31 - 1"
  shows "NewConnection sys app c r sockfd w = Inl SignedOverflow"
proof -
  have "sint (NextConnectionId w) = 2 ^ 31 - 1"
    using assms(2) sint_less [of "NextConnectionId w"] by simp
  moreover obtain i p where "GetNextLoop (ThreadPool w) = Inr (i, p)"
    using GetNextLoop_exact [OF assms(1)] by blast
  ultimately show ?thesis by (simp add: NewConnection_def Let_def)
qed

text \<open>
  C14. The map of the connections stays well formed: over any sequence of accepted and removed
  connections, each accepted into fresh memory, every entry is a connection under its own name,
  made from a number that was given out before, no two entries are the same connection, and the
  pool's position stays valid. (The pool's loops are not the acceptor's own.)
\<close>

theorem srv_ops_keep_map:
  assumes "srv_inv w" and "length (srv_IpPort w) \<le> 40" and "here w \<notin> set (AllLoops (ThreadPool w))"
    and "distinct (new_memory ops)" and "set (new_memory ops) \<inter> ran (connections w) = {}"
    and "foldR (do_srv_op sys app) ops w = Inr w'"
  shows "srv_inv w' \<and> ran (connections w') \<subseteq> ran (connections w) \<union> set (new_memory ops) \<and>
     (\<forall>m n c. connections w' m = Some c \<and> connections w' n = Some c \<longrightarrow> m = n)"
proof -
  have "srv_inv w' \<and> ran (connections w') \<subseteq> ran (connections w) \<union> set (new_memory ops)"
    using assms
  proof (induction ops arbitrary: w)
    case (Cons q ops)
    show ?case
    proof (cases q)
      case (RemoveOp c)
      let ?v = "RemoveConnectionInLoop sys c w"
      have sub: "ran (connections ?v) \<subseteq> ran (connections w)" by (auto simp: ran_def split: if_splits)
      then have "set (new_memory ops) \<inter> ran (connections ?v) = {}" using Cons.prems(5) RemoveOp by auto
      then have "srv_inv w' \<and> ran (connections w') \<subseteq> ran (connections ?v) \<union> set (new_memory ops)"
        using Cons.prems RemoveOp RemoveConnectionInLoop_inv [OF Cons.prems(1)]
        by (intro Cons.IH [of ?v]) (simp_all del: fun_upd_apply)
      with sub RemoveOp show ?thesis by auto
    next
      case (AcceptOp c r f)
      let ?i = "AllLoops (ThreadPool w) ! unat (next_loop (ThreadPool w))"
      have pool: "pool_inv (ThreadPool w)" using Cons.prems(1) by (simp add: srv_inv_def)
      have i: "?i \<noteq> here w" using next_loop_in_pool [OF pool] Cons.prems(3) by metis
      have free: "\<forall>name. connections w name \<noteq> Some c" using Cons.prems(5) AcceptOp by (auto simp: ran_def)
      have id: "sint (NextConnectionId w) < 2 ^ 31 - 1"
        using Cons.prems(6) AcceptOp NewConnection_overflow [OF pool] by fastforce
      obtain v where v: "NewConnection sys app c r f w = Inr v" "srv_inv v"
        "connections v = (connections w)(connection_name (srv_name w) (srv_IpPort w) (NextConnectionId w) \<mapsto> c)"
        "here v = here w" "srv_IpPort v = srv_IpPort w" "AllLoops (ThreadPool v) = AllLoops (ThreadPool w)"
        by (rule NewConnection_effect [OF Cons.prems(1,2) id free refl i refl, of sys app r f])
      have sub: "ran (connections v) \<subseteq> insert c (ran (connections w))" by (auto simp: v(3) ran_def)
      have "set (new_memory ops) \<inter> ran (connections v) = {}" using Cons.prems(4,5) AcceptOp sub by auto
      then have "srv_inv w' \<and> ran (connections w') \<subseteq> ran (connections v) \<union> set (new_memory ops)"
        using v(1,2,4-6) Cons.prems AcceptOp by (intro Cons.IH [of v]) simp_all
      with sub AcceptOp show ?thesis by auto
    qed
  qed simp
  then show ?thesis using srv_invD(3) by metis
qed

section \<open>The end of a connection\<close>

lemma with_poller_only:
  assumes "with_poller f w = Inr w'"
  obtains p where "w' = w\<lparr>poller_of := p\<rparr>"
  using assms that by (auto simp: with_poller_def)

lemma net_inv_cong:
  assumes "poller_of w' = poller_of w" and "conns w' = conns w" and "sockets w' = sockets w"
  shows "net_inv reg shut L C w' \<longleftrightarrow> net_inv reg shut L C w"
  using assms by (simp add: net_inv_def conn_chan_def)

text \<open>
  C11. How a connection ends, over two loops: when the peer closes, the connection's loop only
  tells the base loop; that erases the entry of the map and queues \<^verbatim>\<open>ConnectDestoryed\<close> back in
  the connection's loop; and that takes the channel out of the poller and the descriptor out of
  the kernel's interest set. Every step returns, and the steps queue exactly these functors.
  (The application's callbacks only look.)
\<close>

theorem connection_removed:
  assumes "epoll_laws (sys_ctl (lsys sys)) reg" and "net_inv reg shut L C w" and "c \<in> C"
    and "conn_CloseCallback (conns w c) = Some RemoveConnectionCb"
    and "conn_loop w c = here w" and "base = BaseLoop (ThreadPool w)" and "base \<noteq> here w"
    and "\<forall>u v. app u v = Inr v"
  shows "\<exists>w1 w2 w3. HandleClose sys (srv_usr sys app) c w = Inr w1 \<and> connections w1 = connections w \<and>
     functors (loop_at base w1) =
       functors (loop_at base w) @ [UserF (UserCallF (CloseCall RemoveConnectionInLoopCb c))] \<and>
     run_srv sys app (UserCallF (CloseCall RemoveConnectionInLoopCb c)) (switch base w1) = Inr w2 \<and>
     connections w2 = (connections w)(conn_name (conns w c) := None) \<and>
     functors (loop_at (here w) w2) = functors (loop_at (here w) w) @ [UserF (ConnectDestoryedF c)] \<and>
     run_srv sys app (ConnectDestoryedF c) (switch (here w) w2) = Inr w3 \<and>
     net_inv reg shut L C w3 \<and> state (conns w3 c) = kDisconnected \<and>
     \<not> hasChannel (channel_of (conns w3 c)) (poller_of w3) \<and>
     reg (epoll (poller_of w3)) (conn_fd (conns w3 c)) = None"
proof -
  let ?off = "upd_conn c (\<lambda>conn. conn\<lparr>state := kDisconnected\<rparr>) w"
  have s: "stream_inv reg shut (\<lambda>_ _. []) L C (\<lambda>_. []) w" using assms(2) net_inv_stream by blast
  obtain v where v: "with_poller (DisableAll (sys_ctl (lsys sys)) (channel_of (conns w c))) ?off = Inr v"
    and vs: "stream_inv reg shut (\<lambda>_ _. []) L C (\<lambda>_. []) v"
    and vc: "conns v = (conns w)(c := (conns w c)\<lparr>state := kDisconnected\<rparr>)"
    by (rule close_channel_keeps [OF assms(1) s assms(3)])
  from v obtain p where vp: "v = ?off\<lparr>poller_of := p\<rparr>" by (rule with_poller_only)
  have v1: "here v = here w" "connections v = connections w" "ThreadPool v = ThreadPool w"
    "conn_loop v = conn_loop w" "functors v = functors w" "parked v = parked w"
    unfolding vp by simp_all
  have parked: "loop_at j v = loop_at j w" if "j \<noteq> here w" for j
    using that v1 by (simp add: loop_at_def)
  define w1 where "w1 = queue_to sys base (UserCallF (CloseCall RemoveConnectionInLoopCb c)) v"
  have user: "call_user (srv_usr sys app) (\<lambda>f. ConnectionCall f c) f v = Inr v" for f
    using assms(8) by (simp add: call_user_def split: option.split)
  have "call_user (srv_usr sys app) (\<lambda>f. CloseCall f c) (conn_CloseCallback (conns v c)) v = Inr w1"
    using assms(4,6,7) by (simp add: vc call_user_def RemoveConnection_def v1 w1_def)
  then have close: "HandleClose sys (srv_usr sys app) c w = Inr w1"
    using v by (simp add: HandleClose_def Let_def user)
  define w2 where "w2 = RemoveConnectionInLoop sys c (switch base w1)"
  have erase: "run_srv sys app (UserCallF (CloseCall RemoveConnectionInLoopCb c)) (switch base w1) = Inr w2"
    by (simp add: w2_def)
  have conns2: "conns w2 = conns v" by (simp add: w2_def RemoveConnectionInLoop_def w1_def)
  have io2: "loop_at (here w) w2 =
      QueueInLoop (lsys sys) False (UserF (ConnectDestoryedF c)) (event_loop.truncate v)"
    using assms(5,7) loop_at_here [of v]
    by (simp add: w2_def RemoveConnectionInLoop_def w1_def loop_at_queue_to v1)
  let ?io = "switch (here w) w2"
  have "poller_of ?io = poller_of v" using current_loop(1) [of ?io] by (simp add: io2)
  then have "net_inv reg shut L C ?io \<longleftrightarrow> net_inv reg shut L C v"
    by (intro net_inv_cong) (simp_all add: conns2 w2_def RemoveConnectionInLoop_def w1_def)
  then have n1: "net_inv reg shut L C ?io" using vs net_inv_stream by (simp add: stream_inv_def)
  have d1: "state (conns ?io c) = kDisconnected" by (simp add: conns2 vc)
  obtain w3 where w3: "\<forall>usr. ConnectDestoryed sys usr c ?io = Inr w3" "net_inv reg shut L C w3"
    "conns w3 = conns ?io" "\<not> hasChannel (channel_of (conns ?io c)) (poller_of w3)"
    "reg (epoll (poller_of w3)) (conn_fd (conns ?io c)) = None"
    by (rule destroy_disconnected [OF assms(1) n1 assms(3) d1])
  have "functors (loop_at base w1) =
      functors (loop_at base w) @ [UserF (UserCallF (CloseCall RemoveConnectionInLoopCb c))]"
    using assms(7) parked by (simp add: w1_def loop_at_queue_to)
  moreover have "connections w2 = (connections w)(conn_name (conns w c) := None)"
    by (simp add: w2_def RemoveConnectionInLoop_def w1_def v1 vc)
  moreover have "functors (loop_at (here w) w2) = functors (loop_at (here w) w) @ [UserF (ConnectDestoryedF c)]"
    unfolding io2 by (simp add: v1 loop_at_def)
  moreover have "connections w1 = connections w" by (simp add: w1_def v1)
  ultimately show ?thesis using close erase w3 d1 by auto
qed

text \<open>
  The destructor of the server, run in the base loop with all connections in other loops: it
  queues \<^verbatim>\<open>ConnectDestoryed\<close> once for every connection of the map, in the connection's own
  loop, behind what is queued there, and drops the map's references. It destroys none itself, so
  the channels are taken out only if those loops still run.
\<close>

theorem destructor_queues_all:
  assumes "distinct names"
    and "\<forall>name\<in>set names. \<exists>c. connections w name = Some c \<and> conn_loop w c \<noteq> here w"
  shows "\<exists>w'. delete_TcpServer sys app names w = Inr w' \<and>
     connections w' = (\<lambda>name. if name \<in> set names then None else connections w name) \<and>
     (\<forall>i. functors (loop_at i w') = functors (loop_at i w) @
        map (\<lambda>c. UserF (ConnectDestoryedF c))
          (filter (\<lambda>c. conn_loop w c = i) (map (\<lambda>name. the (connections w name)) names)))"
  using assms
proof (induction names arbitrary: w)
  case Nil
  then show ?case by (simp add: delete_TcpServer_def)
next
  case (Cons name names)
  then obtain c where c: "connections w name = Some c" "conn_loop w c \<noteq> here w" by auto
  define v where "v = queue_to sys (conn_loop w c) (ConnectDestoryedF c)
      (w\<lparr>connections := (connections w)(name := None)\<rparr>)"
  have v: "connections v = (connections w)(name := None)" "conn_loop v = conn_loop w" "here v = here w"
    by (simp_all add: v_def)
  have step: "delete_TcpServer sys app (name # names) w = delete_TcpServer sys app names v"
    using c by (simp add: delete_TcpServer_def run_to_def v_def)
  have same: "connections v n = connections w n" if "n \<in> set names" for n
    using that Cons.prems(1) by (auto simp: v)
  have "\<forall>n\<in>set names. \<exists>c. connections v n = Some c \<and> conn_loop v c \<noteq> here v"
    using Cons.prems(2) by (simp add: v(2,3) same)
  with Cons.IH [of v] Cons.prems(1) obtain w' where w': "delete_TcpServer sys app names v = Inr w'"
    "connections w' = (\<lambda>n. if n \<in> set names then None else connections v n)"
    "\<And>i. functors (loop_at i w') = functors (loop_at i v) @ map (\<lambda>c. UserF (ConnectDestoryedF c))
        (filter (\<lambda>c. conn_loop v c = i) (map (\<lambda>n. the (connections v n)) names))" by auto
  have queue: "functors (loop_at i v) =
      functors (loop_at i w) @ (if conn_loop w c = i then [UserF (ConnectDestoryedF c)] else [])" for i
    by (simp add: v_def loop_at_queue_to)
  have maps: "map (\<lambda>n. the (connections v n)) names = map (\<lambda>n. the (connections w n)) names"
    using same by simp
  show ?case using w'(1,2) w'(3) [unfolded maps v(2) queue] c by (auto simp: step v)
qed

section \<open>Witnesses\<close>

text \<open>
  A server with the base loop 0 and the loops 1 and 2, seen from loop \<open>h\<close>; the map is \<open>m\<close>, and
  the connection 0 is served by loop 1.
\<close>

type_synonym demo_server = "(unit, int \<Rightarrow> epoll_event option, nat, demo_sockets, unit) server"

definition demo_srv :: "nat \<Rightarrow> (string \<Rightarrow> nat option) \<Rightarrow> demo_server" where
  "demo_srv h m =
     (let p = \<lparr>chans = (\<lambda>r. new_Channel 5), channels = Map.empty, epoll = (\<lambda>_. None),
                events_size = InitEventListSize\<rparr>
      in \<lparr>timers = [], CallingExpiredTimers = False, CancelTimers = {}, timerfd_value = None,
          isLooping = True, quit_flag = False, callable = False, PollreturnTime = ts_zero,
          poller_of = p, wakeupFd = 0, WakeupChannel = 0, ActiveChannels = [], functors = [],
          TotalNum = 0, clock = (\<lambda>n. Timestamp (of_nat n)),
          conns = (\<lambda>_. \<lparr>state = kConnected, conn_name = ''a'', conn_fd = 5, channel_of = 1,
             ConnectionCallback = None, MessageCallback = None, WriteCompleteCallback = None,
             conn_CloseCallback = Some RemoveConnectionCb, HighWaterMarkCallback = None,
             HighWaterMark = 67108864, InputBuffer = new_Buffer kInitialSize,
             OutputBuffer = new_Buffer kInitialSize\<rparr>),
          conn_alive = (\<lambda>_. True),
          sockets = \<lparr>taken = (\<lambda>_. []), closed = (\<lambda>_. False), inbox = (\<lambda>_. [])\<rparr>,
          strings = (\<lambda>_. None), user_buffers = (\<lambda>_. None),
          here = h,
          parked = (\<lambda>_. \<lparr>timers = [], CallingExpiredTimers = False, CancelTimers = {},
             timerfd_value = None, isLooping = True, quit_flag = False, callable = False,
             PollreturnTime = ts_zero, poller_of = p, wakeupFd = 0, WakeupChannel = 0,
             ActiveChannels = [], functors = [], TotalNum = 0, clock = (\<lambda>n. Timestamp (of_nat n))\<rparr>),
          conn_loop = (\<lambda>_. 1), srv_IpPort = ''127.0.0.1:80'', srv_name = ''s'',
          ThreadPool = \<lparr>BaseLoop = 0, pool_name = ''s'', pool_started = True, ThreadNum = 2,
             next_loop = 0, pool_threads = [], pool_loops = [1, 2]\<rparr>,
          srv_ConnectionCallback = None, srv_MessageCallback = None, srv_WriteCompleteCallback = None,
          srv_started = 1, NextConnectionId = 1, connections = m, acceptor_fd = 3,
          acceptor_channel = 9, listenning = True, NewConnectionCallback = True\<rparr>)"

lemma demo_srv_simps [simp]:
  "here (demo_srv h m) = h" "conn_loop (demo_srv h m) c = 1" "connections (demo_srv h m) = m"
  "functors (loop_at i (demo_srv h m)) = []" "BaseLoop (ThreadPool (demo_srv h m)) = 0"
  "NextConnectionId (demo_srv h m) = 1" "length (srv_IpPort (demo_srv h m)) = 12"
  "AllLoops (ThreadPool (demo_srv h m)) = [1, 2]" "next_loop (ThreadPool (demo_srv h m)) = 0"
  "conn_CloseCallback (conns (demo_srv h m) c) = Some RemoveConnectionCb"
  "conn_name (conns (demo_srv h m) c) = ''a''"
  by (simp_all add: demo_srv_def Let_def loop_at_def event_loop.defs AllLoops_def)

lemma demo_srv_inv: "srv_inv (demo_srv h Map.empty)" "net_inv id closed {1} {0} (demo_srv h m)"
  by (simp_all add: srv_inv_def pool_inv_def net_inv_def conn_good_def poller_inv_def isWriting_def
      new_Channel_def conn_chan_def demo_srv_def Let_def)

theorem new_connection_registered_witness:
  "\<exists>w' name. NewConnection demo_net_sys (\<lambda>_. Inr) 7 4 6 (demo_srv 0 Map.empty) = Inr w' \<and> srv_inv w' \<and>
     connections w' = [name \<mapsto> 7] \<and> functors (loop_at 1 w') = [UserF (ConnectEstablishedF 7)]"
  using new_connection_registered [OF demo_srv_inv(1) [of 0], where c = 7 and i = 1 and r = 4 and
      sockfd = 6 and sys = demo_net_sys and app = "\<lambda>_. Inr"] by auto

theorem connection_removed_witness:
  "\<exists>w1 w2 w3. HandleClose demo_net_sys (srv_usr demo_net_sys (\<lambda>_. Inr)) 0 (demo_srv 1 [''a'' \<mapsto> 0]) = Inr w1 \<and>
     run_srv demo_net_sys (\<lambda>_. Inr) (UserCallF (CloseCall RemoveConnectionInLoopCb 0)) (switch 0 w1) = Inr w2 \<and>
     connections w2 = Map.empty \<and>
     run_srv demo_net_sys (\<lambda>_. Inr) (ConnectDestoryedF 0) (switch 1 w2) = Inr w3 \<and>
     epoll (poller_of w3) (conn_fd (conns w3 0)) = None"
  using connection_removed [OF demo_epoll demo_srv_inv(2) [of 1 "[''a'' \<mapsto> 0]"], where c = 0 and base = 0
      and app = "\<lambda>_. Inr"] by fastforce

theorem destructor_queues_all_witness:
  "\<exists>w'. delete_TcpServer demo_net_sys (\<lambda>_. Inr) [''b'', ''a''] (demo_srv 0 [''a'' \<mapsto> 4, ''b'' \<mapsto> 5]) = Inr w' \<and>
     functors (loop_at 1 w') = [UserF (ConnectDestoryedF 5), UserF (ConnectDestoryedF 4)]"
  using destructor_queues_all [of "[''b'', ''a'']" "demo_srv 0 [''a'' \<mapsto> 4, ''b'' \<mapsto> 5]" demo_net_sys "\<lambda>_. Inr"]
  by auto

theorem srv_ops_keep_map_witness:
  "\<exists>w1 w2. foldR (do_srv_op demo_net_sys (\<lambda>_. Inr)) [AcceptOp 7 4 6, RemoveOp 7] (demo_srv 0 Map.empty) = Inr w2 \<and>
     srv_inv w2 \<and> NewConnection demo_net_sys (\<lambda>_. Inr) 7 4 6 (demo_srv 0 Map.empty) = Inr w1 \<and>
     w2 = RemoveConnectionInLoop demo_net_sys 7 w1"
proof -
  obtain w1 where w1: "NewConnection demo_net_sys (\<lambda>_. Inr) 7 4 6 (demo_srv 0 Map.empty) = Inr w1"
    by (rule NewConnection_effect [OF demo_srv_inv(1) [of 0], where c = 7 and i = 1 and r = 4 and
        sockfd = 6 and sys = demo_net_sys and app = "\<lambda>_. Inr"]) auto
  then have run: "foldR (do_srv_op demo_net_sys (\<lambda>_. Inr)) [AcceptOp 7 4 6, RemoveOp 7] (demo_srv 0 Map.empty) =
      Inr (RemoveConnectionInLoop demo_net_sys 7 w1)" by simp
  from srv_ops_keep_map [OF demo_srv_inv(1) _ _ _ _ run] w1 run show ?thesis by simp
qed

end
