(* ===== verification/Http_Request.thy ===== *)
theory Http_Request
  imports Byte_Buffer Timestamps
begin

text \<open>
  \<^verbatim>\<open>HttpRequest\<close> of include/net/http/HttpRequest.h and src/net/http/HttpRequest.cpp, with
  the enumerations of include/net/http/HttpHead.h it uses. Pointers into the buffer are indices
  into its bytes. The loop of \<^verbatim>\<open>parse\<close> is a partial function, shown to return on every
  buffer; \<open>parse_bytes\<close>, \<open>request_line\<close> and \<open>header_line\<close> are the specification on byte
  lists that the index-based code implements.
\<close>

section \<open>Data\<close>

datatype http_method = Method_Unknown | GET | HEAD | POST | PUT | DELETE

datatype http_version = Version_Unknown | http10 | http11 | http20

datatype ParseState = kParseLine | kParseHeader | kdown

record http_request =
  method_of :: http_method
  version_of :: http_version
  url :: string
  query :: string
  ReceiveTime :: timestamp
  parse_state :: ParseState
  headers :: "string \<Rightarrow> string option"

definition new_HttpRequest :: http_request where
  "new_HttpRequest = \<lparr>method_of = Method_Unknown, version_of = http11, url = [], query = [],
     ReceiveTime = ts_zero, parse_state = kParseLine, headers = (\<lambda>_. None)\<rparr>"

definition SetMethod :: "string \<Rightarrow> http_request \<Rightarrow> http_request" where
  "SetMethod m r =
     (if m = ''GET'' then r\<lparr>method_of := GET\<rparr>
      else if m = ''HEAD'' then r\<lparr>method_of := HEAD\<rparr>
      else if m = ''POST'' then r\<lparr>method_of := POST\<rparr>
      else if m = ''PUT'' then r\<lparr>method_of := PUT\<rparr>
      else if m = ''DELETE'' then r\<lparr>method_of := DELETE\<rparr>
      else r\<lparr>method_of := Method_Unknown\<rparr>)"

definition SetVersion :: "http_version \<Rightarrow> http_request \<Rightarrow> http_request" where
  "SetVersion v r = r\<lparr>version_of := v\<rparr>"

definition SetUrl :: "char list \<Rightarrow> nat \<Rightarrow> nat \<Rightarrow> http_request \<Rightarrow> http_request" where
  "SetUrl xs begin' end' r = r\<lparr>url := slice xs begin' end'\<rparr>"

definition SetQuery :: "char list \<Rightarrow> nat \<Rightarrow> nat \<Rightarrow> http_request \<Rightarrow> http_request" where
  "SetQuery xs begin' end' r = r\<lparr>query := slice xs begin' end'\<rparr>"

definition SetReceiveTime :: "timestamp \<Rightarrow> http_request \<Rightarrow> http_request" where
  "SetReceiveTime t r = r\<lparr>ReceiveTime := t\<rparr>"

definition acceptable :: "http_request \<Rightarrow> bool" where
  "acceptable r \<longleftrightarrow> parse_state r = kdown"

text \<open>\<^verbatim>\<open>swap\<close> exchanges everything but \<^verbatim>\<open>state_\<close>.\<close>

definition req_swap :: "http_request \<Rightarrow> http_request \<Rightarrow> http_request \<times> http_request" where
  "req_swap r s = (s\<lparr>parse_state := parse_state r\<rparr>, r\<lparr>parse_state := parse_state s\<rparr>)"

definition AddHeader_string :: "string \<Rightarrow> string \<Rightarrow> http_request \<Rightarrow> http_request" where
  "AddHeader_string k v r = r\<lparr>headers := (headers r)(k \<mapsto> v)\<rparr>"

definition get_header :: "http_request \<Rightarrow> string \<Rightarrow> string" where
  "get_header r filed = (case headers r filed of None \<Rightarrow> [] | Some v \<Rightarrow> v)"

definition MethodToString :: "http_method \<Rightarrow> string" where
  "MethodToString m = (case m of GET \<Rightarrow> ''GET'' | HEAD \<Rightarrow> ''HEAD'' | POST \<Rightarrow> ''POST'' | PUT \<Rightarrow> ''PUT''
     | DELETE \<Rightarrow> ''DELETE'' | Method_Unknown \<Rightarrow> ''Unknown'')"

definition VersionToString :: "http_version \<Rightarrow> string" where
  "VersionToString v = (case v of http10 \<Rightarrow> ''HTTP 1.0'' | http11 \<Rightarrow> ''HTTP 1.1'' | http20 \<Rightarrow> ''HTTP 2.0''
     | Version_Unknown \<Rightarrow> ''Unknown'')"

section \<open>A header line\<close>

text \<open>\<^verbatim>\<open>isspace\<close> in the C locale.\<close>

definition isspace :: "char \<Rightarrow> bool" where
  "isspace c \<longleftrightarrow> c \<in> {CHR 0x20, CHR 0x09, CHR 0x0A, CHR 0x0B, CHR 0x0C, CHR 0x0D}"

function skip_spaces :: "char list \<Rightarrow> nat \<Rightarrow> nat \<Rightarrow> nat" where
  "skip_spaces xs colon end' =
     (if colon < end' \<and> isspace (xs ! colon) then skip_spaces xs (Suc colon) end' else colon)"
  by pat_completeness auto
termination
  by (relation "measure (\<lambda>(xs, colon, end'). end' - colon)") auto

function trim_end :: "char list \<Rightarrow> nat \<Rightarrow> nat \<Rightarrow> nat" where
  "trim_end xs colon end' =
     (if colon < end' \<and> isspace (xs ! end') then trim_end xs colon (end' - 1) else end')"
  by pat_completeness auto
termination
  by (relation "measure (\<lambda>(xs, colon, end'). end')") auto

declare skip_spaces.simps [simp del] trim_end.simps [simp del]

definition AddHeader :: "char list \<Rightarrow> nat \<Rightarrow> nat \<Rightarrow> nat \<Rightarrow> http_request \<Rightarrow> http_request" where
  "AddHeader xs start colon end' r =
     (let key = slice xs start colon;
          colon = skip_spaces xs (Suc colon) end';
          end' = trim_end xs colon end';
          value' = slice xs colon end'
      in r\<lparr>headers := (headers r)(key \<mapsto> value')\<rparr>)"

section \<open>The request line\<close>

definition ParseLine :: "char list \<Rightarrow> nat \<Rightarrow> nat \<Rightarrow> http_request \<Rightarrow> bool \<times> http_request" where
  "ParseLine xs begin' end' r =
     (let start = begin';
          space = find_char xs start end' (CHR '' '')
      in if space \<noteq> end' then
           (let r = SetMethod (slice xs start space) r in
            if method_of r = Method_Unknown then (False, r)
            else
              (let start = Suc space;
                   space = find_char xs start end' (CHR '' '')
               in if space \<noteq> end' then
                    (let question = find_char xs start space (CHR ''?'');
                         r = (if question \<noteq> space
                              then SetQuery xs question space (SetUrl xs start question r)
                              else SetUrl xs start space r);
                         start = Suc space
                     in if end' - start = 8 \<and> slice xs start (end' - 3) = ''HTTP/'' then
                          (if xs ! (end' - 3) = CHR ''2'' then (True, SetVersion http20 r)
                           else if xs ! (end' - 1) = CHR ''0'' then (True, SetVersion http10 r)
                           else if xs ! (end' - 1) = CHR ''1'' then (True, SetVersion http11 r)
                           else (False, r))
                        else (False, r))
                  else (False, r)))
         else (False, r))"

section \<open>The loop\<close>

text \<open>One pass of \<^verbatim>\<open>while(parsing)\<close>: \<open>parsing\<close> and \<open>ok\<close> after it, the buffer and the request.\<close>

definition parse_pass :: "timestamp \<Rightarrow> bool \<Rightarrow> buffer \<Rightarrow> http_request \<Rightarrow>
    bool \<times> bool \<times> buffer \<times> http_request" where
  "parse_pass t ok b r =
     (case parse_state r of
        kParseLine \<Rightarrow>
          (case findCRLF b of
             Some crlf \<Rightarrow>
               (case ParseLine (buf_bytes b) (ReaderIndex b) crlf r of (ok, r) \<Rightarrow>
                  if ok then (True, ok, RetrieveUntil (crlf + 2) b,
                              (SetReceiveTime t r)\<lparr>parse_state := kParseHeader\<rparr>)
                  else (False, ok, b, r))
           | None \<Rightarrow> (False, ok, b, r))
      | kParseHeader \<Rightarrow>
          (case findCRLF b of
             Some crlf \<Rightarrow>
               (let colon = find_char (buf_bytes b) (ReaderIndex b) crlf (CHR '':'') in
                if colon \<noteq> crlf
                then (True, ok, RetrieveUntil (crlf + 2) b,
                      AddHeader (buf_bytes b) (ReaderIndex b) colon crlf r)
                else (False, ok, RetrieveUntil (crlf + 2) b, r\<lparr>parse_state := kdown\<rparr>))
           | None \<Rightarrow> (False, ok, b, r))
      | kdown \<Rightarrow> (False, ok, b, r))"

partial_function (option) parse_loop :: "timestamp \<Rightarrow> bool \<Rightarrow> buffer \<Rightarrow> http_request \<Rightarrow>
    (bool \<times> buffer \<times> http_request) option" where
  "parse_loop t ok b r =
     (case parse_pass t ok b r of (parsing, ok, b, r) \<Rightarrow>
        if parsing then parse_loop t ok b r else Some (ok, b, r))"

definition parse :: "timestamp \<Rightarrow> buffer \<Rightarrow> http_request \<Rightarrow> (bool \<times> buffer \<times> http_request) option" where
  "parse t b r = parse_loop t True b r"

section \<open>The specification on byte lists\<close>

text \<open>
  A request line: method, target and version separated by single spaces. The query keeps its
  question mark; of the version only the two digits' places are looked at.
\<close>

definition version_digits :: "string \<Rightarrow> http_version option" where
  "version_digits v =
     (if length v = 8 \<and> take 5 v = ''HTTP/'' then
        (if v ! 5 = CHR ''2'' then Some http20 else if v ! 7 = CHR ''0'' then Some http10
         else if v ! 7 = CHR ''1'' then Some http11 else None)
      else None)"

definition set_target :: "string \<Rightarrow> http_request \<Rightarrow> http_request" where
  "set_target target r =
     (if CHR ''?'' \<in> set target
      then r\<lparr>url := takeWhile (\<lambda>c. c \<noteq> CHR ''?'') target, query := dropWhile (\<lambda>c. c \<noteq> CHR ''?'') target\<rparr>
      else r\<lparr>url := target\<rparr>)"

definition request_line :: "string \<Rightarrow> http_request \<Rightarrow> bool \<times> http_request" where
  "request_line line r =
     (case dropWhile (\<lambda>c. c \<noteq> CHR '' '') line of
        [] \<Rightarrow> (False, r)
      | _ # rest \<Rightarrow>
          let r = SetMethod (takeWhile (\<lambda>c. c \<noteq> CHR '' '') line) r in
          if method_of r = Method_Unknown then (False, r)
          else (case dropWhile (\<lambda>c. c \<noteq> CHR '' '') rest of
                  [] \<Rightarrow> (False, r)
                | _ # v \<Rightarrow>
                    let r = set_target (takeWhile (\<lambda>c. c \<noteq> CHR '' '') rest) r in
                    (case version_digits v of None \<Rightarrow> (False, r) | Some n \<Rightarrow> (True, SetVersion n r))))"

text \<open>A header line: the value is stripped of spaces on both sides and of its last character.\<close>

definition strip_spaces :: "string \<Rightarrow> string" where
  "strip_spaces s = rev (dropWhile isspace (rev (dropWhile isspace s)))"

definition header_line :: "string \<Rightarrow> http_request \<Rightarrow> http_request" where
  "header_line line r =
     r\<lparr>headers := (headers r)(takeWhile (\<lambda>c. c \<noteq> CHR '':'') line \<mapsto>
         butlast (strip_spaces (tl (dropWhile (\<lambda>c. c \<noteq> CHR '':'') line))))\<rparr>"

text \<open>\<open>n\<close> bounds the number of lines; the length of the input is enough.\<close>

fun parse_bytes :: "nat \<Rightarrow> timestamp \<Rightarrow> char list \<Rightarrow> http_request \<Rightarrow> bool \<times> char list \<times> http_request" where
  "parse_bytes 0 t xs r = (True, xs, r)"
| "parse_bytes (Suc n) t xs r =
     (case search_crlf xs of
        None \<Rightarrow> (True, xs, r)
      | Some k \<Rightarrow>
          (case parse_state r of
             kParseLine \<Rightarrow>
               (case request_line (take k xs) r of (ok, r) \<Rightarrow>
                  if ok then parse_bytes n t (drop (k + 2) xs)
                               ((SetReceiveTime t r)\<lparr>parse_state := kParseHeader\<rparr>)
                  else (False, xs, r))
           | kParseHeader \<Rightarrow>
               if CHR '':'' \<in> set (take k xs)
               then parse_bytes n t (drop (k + 2) xs) (header_line (take k xs) r)
               else (True, drop (k + 2) xs, r\<lparr>parse_state := kdown\<rparr>)
           | kdown \<Rightarrow> (True, xs, r)))"

section \<open>The index loops compute the list functions\<close>

lemma find_char_slice:
  assumes "i \<le> j" and "j \<le> length xs"
  shows "slice xs i (find_char xs i j c) = takeWhile (\<lambda>x. x \<noteq> c) (slice xs i j)"
    and "slice xs (find_char xs i j c) j = dropWhile (\<lambda>x. x \<noteq> c) (slice xs i j)"
proof -
  have "slice xs i (find_char xs i j c) = takeWhile (\<lambda>x. x \<noteq> c) (slice xs i j) \<and>
      slice xs (find_char xs i j c) j = dropWhile (\<lambda>x. x \<noteq> c) (slice xs i j)"
    using assms
  proof (induction xs i j c rule: find_char.induct)
    case (1 xs i j c)
    note b = find_char_bounds [of "Suc i" j xs c]
    show ?case
    proof (cases "i < j \<and> xs ! i \<noteq> c")
      case True
      then have f: "find_char xs i j c = find_char xs (Suc i) j c" by (simp add: find_char.simps [of xs i j c])
      have h: "slice xs i k = xs ! i # slice xs (Suc i) k" if "i < k" for k
        using that True "1.prems" by (intro slice_Cons) simp_all
      have "i < find_char xs (Suc i) j c" using b True by simp
      with "1.IH" True "1.prems" show ?thesis by (simp add: f h)
    next
      case False
      with "1.prems" have "find_char xs i j c = i"
        by (auto simp: find_char.simps [of xs i j c])
      with False "1.prems" show ?thesis by (cases "i < j") (simp_all add: slice_Cons)
    qed
  qed
  then show "slice xs i (find_char xs i j c) = takeWhile (\<lambda>x. x \<noteq> c) (slice xs i j)"
    and "slice xs (find_char xs i j c) j = dropWhile (\<lambda>x. x \<noteq> c) (slice xs i j)" by simp_all
qed

lemma find_char_tail:
  assumes "i \<le> j" and "j \<le> length xs" and "find_char xs i j c \<noteq> j"
  shows "dropWhile (\<lambda>x. x \<noteq> c) (slice xs i j) = c # slice xs (Suc (find_char xs i j c)) j"
    and "find_char xs i j c < j"
proof -
  show l: "find_char xs i j c < j" using find_char_bounds [OF assms(1), of xs c] assms(3) by simp
  with find_char_slice(2) [OF assms(1,2), of c] assms(2) find_char_hit [OF l]
  show "dropWhile (\<lambda>x. x \<noteq> c) (slice xs i j) = c # slice xs (Suc (find_char xs i j c)) j"
    by (simp add: slice_Cons)
qed

lemma find_char_end:
  assumes "i \<le> j" and "j \<le> length xs" and "find_char xs i j c = j"
  shows "dropWhile (\<lambda>x. x \<noteq> c) (slice xs i j) = []"
  using find_char_slice(2) [OF assms(1,2), of c] assms(3) by simp

lemma find_char_mem:
  assumes "i \<le> j" and "j \<le> length xs"
  shows "find_char xs i j c \<noteq> j \<longleftrightarrow> c \<in> set (slice xs i j)"
proof
  assume "find_char xs i j c \<noteq> j"
  from find_char_tail(1) [OF assms this] have "c \<in> set (dropWhile (\<lambda>x. x \<noteq> c) (slice xs i j))" by simp
  then show "c \<in> set (slice xs i j)" by (rule set_dropWhileD)
next
  assume c: "c \<in> set (slice xs i j)"
  show "find_char xs i j c \<noteq> j"
  proof
    assume "find_char xs i j c = j"
    from find_char_end [OF assms this] c show False by (auto simp: dropWhile_eq_Nil_conv)
  qed
qed

lemma skip_spaces_spec:
  assumes "i \<le> e" and "e \<le> length xs"
  shows "i \<le> skip_spaces xs i e" "skip_spaces xs i e \<le> e"
    "skip_spaces xs i e < e \<Longrightarrow> \<not> isspace (xs ! skip_spaces xs i e)"
    "slice xs (skip_spaces xs i e) e = dropWhile isspace (slice xs i e)"
proof -
  have "i \<le> skip_spaces xs i e \<and> skip_spaces xs i e \<le> e \<and>
    (skip_spaces xs i e < e \<longrightarrow> \<not> isspace (xs ! skip_spaces xs i e)) \<and>
    slice xs (skip_spaces xs i e) e = dropWhile isspace (slice xs i e)"
    using assms
  proof (induction xs i e rule: skip_spaces.induct)
    case (1 xs i e)
    show ?case
    proof (cases "i < e \<and> isspace (xs ! i)")
      case True
      with 1 show ?thesis by (simp add: skip_spaces.simps [of xs i e] slice_Cons)
    next
      case False
      then have "skip_spaces xs i e = i" by (auto simp: skip_spaces.simps [of xs i e])
      with False "1.prems" show ?thesis by (cases "i < e") (simp_all add: slice_Cons)
    qed
  qed
  then show "i \<le> skip_spaces xs i e" "skip_spaces xs i e \<le> e"
    "skip_spaces xs i e < e \<Longrightarrow> \<not> isspace (xs ! skip_spaces xs i e)"
    "slice xs (skip_spaces xs i e) e = dropWhile isspace (slice xs i e)" by blast+
qed

lemma trim_end_spec:
  assumes "i \<le> e" and "\<not> isspace (xs ! i)"
  shows "i \<le> trim_end xs i e \<and> trim_end xs i e \<le> e \<and> \<not> isspace (xs ! trim_end xs i e) \<and>
    (\<forall>k. trim_end xs i e < k \<and> k \<le> e \<longrightarrow> isspace (xs ! k))"
  using assms
proof (induction xs i e rule: trim_end.induct)
  case (1 xs i e)
  show ?case
  proof (cases "i < e \<and> isspace (xs ! e)")
    case True
    then have t: "trim_end xs i e = trim_end xs i (e - 1)" by (simp add: trim_end.simps [of xs i e])
    have IH: "i \<le> trim_end xs i (e - 1) \<and> trim_end xs i (e - 1) \<le> e - 1 \<and>
        \<not> isspace (xs ! trim_end xs i (e - 1)) \<and>
        (\<forall>k. trim_end xs i (e - 1) < k \<and> k \<le> e - 1 \<longrightarrow> isspace (xs ! k))"
    proof (rule "1.IH" [OF True _ "1.prems"(2)])
      show "i \<le> e - 1" using True by linarith
    qed
    have "k \<le> e - 1 \<or> k = e" if "k \<le> e" for k using that by linarith
    with IH True show ?thesis unfolding t by fastforce
  next
    case False
    with "1.prems" have "trim_end xs i e = e" by (auto simp: trim_end.simps [of xs i e])
    with False "1.prems" show ?thesis by (cases "i = e") auto
  qed
qed

lemma trim_end_slice:
  assumes "i < e" and "e < length xs" and "\<not> isspace (xs ! i)" and "isspace (xs ! e)"
  shows "slice xs i (trim_end xs i e) = butlast (rev (dropWhile isspace (rev (slice xs i e))))"
proof -
  let ?t = "trim_end xs i e"
  from trim_end_spec [of i e xs] assms have t: "i \<le> ?t" "?t \<le> e" "\<not> isspace (xs ! ?t)"
    "\<And>k. ?t < k \<Longrightarrow> k \<le> e \<Longrightarrow> isspace (xs ! k)" by auto
  with assms(4) have te: "?t < e" by (metis le_neq_implies_less)
  have split1: "slice xs i e = slice xs i (Suc ?t) @ slice xs (Suc ?t) e"
    using t te by (simp add: slice_join)
  have split2: "slice xs i (Suc ?t) = slice xs i ?t @ [xs ! ?t]"
    using slice_join [of i ?t "Suc ?t" xs] t te assms(2) by (simp add: slice_Cons)
  have "isspace x" if x: "x \<in> set (slice xs (Suc ?t) e)" for x
  proof -
    obtain k where k: "k < length (slice xs (Suc ?t) e)" "x = slice xs (Suc ?t) e ! k"
      using x by (auto simp: in_set_conv_nth)
    with te assms(2) have "x = xs ! (Suc ?t + k)" "Suc ?t + k < e"
      by (simp_all add: slice_nth length_slice)
    with t(4) [of "Suc ?t + k"] show ?thesis by simp
  qed
  then have "dropWhile isspace (rev (slice xs (Suc ?t) e) @ rev (slice xs i (Suc ?t))) =
      rev (slice xs i (Suc ?t))"
    by (subst dropWhile_append2) (simp_all add: split2 t(3))
  then show ?thesis by (simp add: split1 split2)
qed

lemma AddHeader_eq:
  assumes "i \<le> e" and "e < length xs" and "isspace (xs ! e)" and "find_char xs i e (CHR '':'') \<noteq> e"
  shows "AddHeader xs i (find_char xs i e (CHR '':'')) e r = header_line (slice xs i e) r"
proof -
  let ?c = "find_char xs i e (CHR '':'')"
  let ?s = "skip_spaces xs (Suc ?c) e"
  have e: "e \<le> length xs" using assms(2) by simp
  note T = find_char_tail [OF assms(1) e assms(4)]
  have c: "Suc ?c \<le> e" using T(2) by simp
  note S = skip_spaces_spec [OF c e]
  have "slice xs ?s (trim_end xs ?s e) = butlast (strip_spaces (slice xs (Suc ?c) e))"
  proof (cases "?s < e")
    case True
    from trim_end_slice [OF True assms(2) S(3) [OF True] assms(3)] S(4) show ?thesis
      by (simp add: strip_spaces_def)
  next
    case False
    with S(2) have s: "?s = e" by simp
    with S(4) have d: "dropWhile isspace (slice xs (Suc ?c) e) = []" by (simp only: slice_empty)
    show ?thesis unfolding strip_spaces_def d s by (simp add: trim_end.simps [of xs e e])
  qed
  with find_char_slice(1) [OF assms(1) e, of "CHR '':''"] T(1) show ?thesis
    by (simp add: AddHeader_def header_line_def Let_def)
qed

lemma SetMethod_frame [simp]:
  "url (SetMethod m r) = url r" "query (SetMethod m r) = query r" "version_of (SetMethod m r) = version_of r"
  "parse_state (SetMethod m r) = parse_state r" "headers (SetMethod m r) = headers r"
  "ReceiveTime (SetMethod m r) = ReceiveTime r"
  by (simp_all add: SetMethod_def)

lemma version_test:
  assumes "j \<le> length xs"
  shows "(if j - i = 8 \<and> slice xs i (j - 3) = ''HTTP/'' then
       (if xs ! (j - 3) = CHR ''2'' then (True, SetVersion http20 r)
        else if xs ! (j - 1) = CHR ''0'' then (True, SetVersion http10 r)
        else if xs ! (j - 1) = CHR ''1'' then (True, SetVersion http11 r)
        else (False, r))
     else (False, r)) =
    (case version_digits (slice xs i j) of None \<Rightarrow> (False, r) | Some n \<Rightarrow> (True, SetVersion n r))"
proof (cases "j - i = 8")
  case True
  then have j: "j = i + 8" by simp
  have "length (slice xs i j) = 8" "take 5 (slice xs i j) = slice xs i (j - 3)"
    "slice xs i j ! 5 = xs ! (j - 3)" "slice xs i j ! 7 = xs ! (j - 1)"
    using assms by (simp_all add: j length_slice take_slice slice_nth add.commute)
  with True show ?thesis by (simp add: version_digits_def)
next
  case False
  have "length (slice xs i j) = j - i" using assms by (rule length_slice)
  with False show ?thesis by (simp add: version_digits_def)
qed

lemma ParseLine_eq:
  assumes "i \<le> j" and "j \<le> length xs"
  shows "ParseLine xs i j r = request_line (slice xs i j) r"
proof (cases "find_char xs i j (CHR '' '') = j")
  case True
  then show ?thesis
    unfolding request_line_def find_char_end [OF assms True] by (simp add: ParseLine_def)
next
  case False
  let ?s = "find_char xs i j (CHR '' '')"
  note T = find_char_tail [OF assms False] and F = find_char_slice [OF assms, of "CHR '' ''"]
  let ?r = "SetMethod (slice xs i ?s) r"
  show ?thesis
  proof (cases "method_of ?r = Method_Unknown")
    case True
    with False T F show ?thesis by (simp add: ParseLine_def request_line_def Let_def)
  next
    case known: False
    from T(2) have i2: "Suc ?s \<le> j" by simp
    let ?s2 = "find_char xs (Suc ?s) j (CHR '' '')"
    show ?thesis
    proof (cases "?s2 = j")
      case True
      with known False F(1) show ?thesis
        unfolding request_line_def T(1) list.case(2) find_char_end [OF i2 assms(2) True]
        by (simp add: ParseLine_def Let_def)
    next
      case False2: False
      note T2 = find_char_tail [OF i2 assms(2) False2]
        and F2 = find_char_slice [OF i2 assms(2), of "CHR '' ''"]
        and b2 = find_char_bounds [OF i2, of xs "CHR '' ''"]
      have s2: "?s2 \<le> length xs" using b2 assms(2) by simp
      let ?q = "find_char xs (Suc ?s) ?s2 (CHR ''?'')"
      have target: "(if ?q \<noteq> ?s2 then SetQuery xs ?q ?s2 (SetUrl xs (Suc ?s) ?q ?r)
           else SetUrl xs (Suc ?s) ?s2 ?r) = set_target (slice xs (Suc ?s) ?s2) ?r"
        using find_char_mem [of "Suc ?s" ?s2 xs "CHR ''?''"]
          find_char_slice [of "Suc ?s" ?s2 xs "CHR ''?''"] b2 s2
        by (simp add: set_target_def SetQuery_def SetUrl_def)
      have "ParseLine xs i j r =
          (let r = set_target (slice xs (Suc ?s) ?s2) ?r; i = Suc ?s2 in
           if j - i = 8 \<and> slice xs i (j - 3) = ''HTTP/'' then
             (if xs ! (j - 3) = CHR ''2'' then (True, SetVersion http20 r)
              else if xs ! (j - 1) = CHR ''0'' then (True, SetVersion http10 r)
              else if xs ! (j - 1) = CHR ''1'' then (True, SetVersion http11 r)
              else (False, r))
           else (False, r))"
        unfolding target [symmetric] using False known False2 by (simp add: ParseLine_def Let_def)
      also have "\<dots> = (case version_digits (slice xs (Suc ?s2) j) of
            None \<Rightarrow> (False, set_target (slice xs (Suc ?s) ?s2) ?r)
          | Some n \<Rightarrow> (True, SetVersion n (set_target (slice xs (Suc ?s) ?s2) ?r)))"
        unfolding Let_def by (rule version_test [OF assms(2)])
      also have "\<dots> = request_line (slice xs i j) r"
        using known by (simp only: request_line_def T(1) T2(1) list.case Let_def F(1) [symmetric]
            F2(1) [symmetric] if_False)
      finally show ?thesis .
    qed
  qed
qed

section \<open>The loop returns, and it implements the specification\<close>

lemma parse_loop_spec:
  assumes "buf_inv b" and "length (readable b) < n"
  shows "case parse_bytes n t (readable b) r of (ok, rest, r') \<Rightarrow>
     \<exists>b'. parse_loop t True b r = Some (ok, b', r') \<and> buf_inv b' \<and> readable b' = rest"
  using assms
proof (induction n arbitrary: b r)
  case 0
  then show ?case by simp
next
  case (Suc n)
  note inv = Suc.prems(1)
  have none: "search_crlf (readable b) = None" if "findCRLF b = None"
    using that lines.no_line by blast
  show ?case
  proof (cases "findCRLF b")
    case None
    then show ?thesis
      using none inv by (cases "parse_state r") (simp_all add: parse_loop.simps parse_pass_def)
  next
    case (Some p)
    obtain k where k: "search_crlf (readable b) = Some k" "p = ReaderIndex b + k"
      and line: "slice (buf_bytes b) (ReaderIndex b) p = take k (readable b)"
      and rest: "buf_inv (RetrieveUntil (p + 2) b)"
        "readable (RetrieveUntil (p + 2) b) = drop (k + 2) (readable b)"
      and kl: "k + 2 \<le> length (readable b)"
      by (rule lines.next_line [OF inv Some])
    note F = findCRLF_Some [OF Some inv] and I = buf_invD [OF inv]
    have p: "ReaderIndex b \<le> p" "p \<le> length (buf_bytes b)" "p < length (buf_bytes b)"
      using F I by simp_all
    have "length (readable (RetrieveUntil (p + 2) b)) < n" using Suc.prems(2) lines.line_shrinks [OF inv Some] by simp
    note IH = Suc.IH [OF rest(1) this, unfolded rest(2)]
    show ?thesis
    proof (cases "parse_state r")
      case kParseLine
      obtain ok r1 where rl: "request_line (take k (readable b)) r = (ok, r1)" by fastforce
      then have pl: "ParseLine (buf_bytes b) (ReaderIndex b) p r = (ok, r1)"
        using ParseLine_eq [OF p(1,2)] line by simp
      show ?thesis
        using IH [of "(SetReceiveTime t r1)\<lparr>parse_state := kParseHeader\<rparr>"] kParseLine Some k rl pl inv
        by (cases ok) (simp_all add: parse_loop.simps [of t True b r] parse_pass_def)
    next
      case kParseHeader
      have colon: "find_char (buf_bytes b) (ReaderIndex b) p (CHR '':'') \<noteq> p \<longleftrightarrow>
          CHR '':'' \<in> set (take k (readable b))"
        using find_char_mem [OF p(1,2)] line by simp
      have sp: "isspace (buf_bytes b ! p)" using F(3) by (simp add: isspace_def)
      show ?thesis
      proof (cases "CHR '':'' \<in> set (take k (readable b))")
        case True
        then have "AddHeader (buf_bytes b) (ReaderIndex b)
            (find_char (buf_bytes b) (ReaderIndex b) p (CHR '':'')) p r = header_line (take k (readable b)) r"
          using AddHeader_eq [OF p(1,3) sp] colon line by simp
        with IH [of "header_line (take k (readable b)) r"] kParseHeader Some k True colon
        show ?thesis by (simp add: parse_loop.simps [of t True b r] parse_pass_def Let_def)
      next
        case False
        with kParseHeader Some k colon rest show ?thesis
          by (simp add: parse_loop.simps [of t True b r] parse_pass_def Let_def)
      qed
    next
      case kdown
      with Some k inv show ?thesis by (simp add: parse_loop.simps [of t True b r] parse_pass_def)
    qed
  qed
qed

lemma parse_spec:
  assumes "buf_inv b"
  shows "case parse_bytes (Suc (length (readable b))) t (readable b) r of (ok, rest, r') \<Rightarrow>
     \<exists>b'. parse t b r = Some (ok, b', r') \<and> buf_inv b' \<and> readable b' = rest"
  using parse_loop_spec [OF assms, of "Suc (length (readable b))" t r] by (simp add: parse_def)

text \<open>
  C6. \<^verbatim>\<open>parse\<close> returns on every well-formed buffer and request, and its result is
  that of the specification on the readable bytes: the lines it understands are consumed, the
  buffer stays well formed and holds the bytes after them.
\<close>

theorem parse_implements:
  assumes "buf_inv b"
  shows "case parse_bytes (Suc (length (readable b))) t (readable b) r of (ok, rest, r') \<Rightarrow>
     \<exists>b'. parse t b r = Some (ok, b', r') \<and> buf_inv b' \<and> readable b' = rest"
  by (rule parse_spec [OF assms])

text \<open>A buffer that holds the given bytes.\<close>

lemma filled_buffer:
  assumes "length xs \<le> 1024"
  obtains b where "buf_inv b" and "readable b = xs"
proof -
  obtain b where "append_buf xs (new_Buffer kInitialSize) = Inr b"
    using append_in_place [OF kInitialSize_inv, of xs] assms by (auto simp: kInitialSize_def)
  with append_buf_content [OF kInitialSize_inv this] that show thesis by simp
qed

text \<open>What evaluating the specification on a concrete request unfolds.\<close>

lemmas request_eval = eval_nat_numeral kCRLF_def request_line_def header_line_def SetMethod_def
  set_target_def version_digits_def SetVersion_def SetReceiveTime_def new_HttpRequest_def
  strip_spaces_def isspace_def Let_def

theorem parse_implements_witness:
  "\<exists>b b' r'. readable b = ''GET /a?b HTTP/1.1'' @ kCRLF @ ''A: xy'' @ kCRLF @ kCRLF @ ''rest'' \<and>
     parse ts_zero b new_HttpRequest = Some (True, b', r') \<and> readable b' = ''rest'' \<and>
     method_of r' = GET \<and> url r' = ''/a'' \<and> query r' = ''?b'' \<and> acceptable r' \<and>
     headers r' ''A'' = Some ''x''"
proof -
  let ?xs = "''GET /a?b HTTP/1.1'' @ kCRLF @ ''A: xy'' @ kCRLF @ kCRLF @ ''rest''"
  have "length ?xs \<le> 1024" by (simp add: kCRLF_def)
  then obtain b where b: "buf_inv b" "readable b = ?xs" by (rule filled_buffer)
  let ?r = "new_HttpRequest\<lparr>method_of := GET, url := ''/a'', query := ''?b'', parse_state := kdown,
      headers := [''A'' \<mapsto> ''x'']\<rparr>"
  have "parse_bytes (Suc (length ?xs)) ts_zero ?xs new_HttpRequest = (True, ''rest'', ?r)"
    by (simp add: request_eval)
  with parse_implements [OF b(1), of ts_zero new_HttpRequest]
  obtain b' where "parse ts_zero b new_HttpRequest = Some (True, b', ?r)" "readable b' = ''rest''"
    unfolding b(2) by auto
  with b(2) show ?thesis by (auto simp: acceptable_def)
qed

section \<open>What the lines mean\<close>

text \<open>
  A header loses the last character of its value: the trimming starts at the line end's CR,
  itself a space, and the string ends before the last character it stops at. So
  \<^verbatim>\<open>Content-Length: 5\<close> has an empty value.
\<close>

theorem header_value_loses_last:
  assumes "CHR '':'' \<notin> set key" and "value' \<noteq> []" and "\<not> isspace (hd value')" and "\<not> isspace (last value')"
    and "xs = key @ '': '' @ value' @ kCRLF @ rest"
  shows "get_header (AddHeader xs 0 (length key) (length key + 2 + length value') r) key = butlast value'"
proof -
  let ?line = "key @ '': '' @ value'"
  let ?e = "length key + 2 + length value'"
  have line: "slice xs 0 ?e = ?line" by (simp add: assms(5) slice_def)
  have e: "?e < length xs" and sp: "isspace (xs ! ?e)"
    by (simp_all add: assms(5) kCRLF_def nth_append isspace_def)
  have colon: "find_char xs 0 ?e (CHR '':'') = length key"
  proof (rule find_char_eqI)
    show "xs ! m \<noteq> CHR '':''" if "m < length key" for m
    proof
      assume "xs ! m = CHR '':''"
      then have "key ! m = CHR '':''" using that by (simp add: assms(5) nth_append)
      with assms(1) nth_mem [OF that] show False by metis
    qed
  qed (simp_all add: assms(5) nth_append)
  have tw: "takeWhile (\<lambda>c. c \<noteq> CHR '':'') ?line = key" "dropWhile (\<lambda>c. c \<noteq> CHR '':'') ?line = '': '' @ value'"
    using assms(1) by (induction key) auto
  have sp1: "isspace (CHR '' '')" by (simp add: isspace_def)
  have "dropWhile isspace value' = value'" using assms(2,3) by (cases value') simp_all
  moreover have "dropWhile isspace (rev value') = rev value'"
    using assms(2,4) by (cases value' rule: rev_cases) simp_all
  ultimately have "strip_spaces ('' '' @ value') = value'" by (simp add: strip_spaces_def sp1)
  with AddHeader_eq [OF _ e sp, of 0 r] tw show ?thesis
    unfolding colon line by (simp add: header_line_def get_header_def)
qed

theorem header_value_loses_last_witness:
  "get_header (AddHeader (''Content-Length: 5'' @ kCRLF) 0 14 17 new_HttpRequest) ''Content-Length'' = []"
  using header_value_loses_last [of "''Content-Length''" "''5''" "''Content-Length: 5'' @ kCRLF" "[]" new_HttpRequest]
  by (simp add: isspace_def eval_nat_numeral)

text \<open>
  C28. Reading back a printed request line: for each of the five methods, a path without spaces
  and question marks, a query that is empty or starts with a question mark and has no space,
  and version 1.0 or 1.1, \<^verbatim>\<open>ParseLine\<close> accepts the line and recovers method, path,
  query and version; an absent query leaves the request's query as it was.
\<close>

theorem ParseLine_roundtrip:
  assumes "m \<noteq> Method_Unknown" and "CHR '' '' \<notin> set path" and "CHR ''?'' \<notin> set path"
    and "CHR '' '' \<notin> set q" and "q \<noteq> [] \<longrightarrow> hd q = CHR ''?''"
    and "v = http10 \<or> v = http11"
    and "line = MethodToString m @ '' '' @ path @ q @ '' HTTP/1.'' @ (if v = http10 then ''0'' else ''1'')"
  shows "ParseLine (line @ rest) 0 (length line) r =
     (True, r\<lparr>method_of := m, url := path, query := (if q = [] then query r else q), version_of := v\<rparr>)"
proof -
  let ?v = "''HTTP/1.'' @ (if v = http10 then ''0'' else ''1'')"
  let ?target = "path @ q"
  have eq: "ParseLine (line @ rest) 0 (length line) r = request_line line r"
    by (subst ParseLine_eq) (simp_all add: slice_append1)
  have line: "line = MethodToString m @ CHR '' '' # (?target @ CHR '' '' # ?v)" by (simp add: assms(7))
  have before: "takeWhile (\<lambda>c. c \<noteq> d) (a @ d # b) = a" "dropWhile (\<lambda>c. c \<noteq> d) (a @ d # b) = d # b"
    if "d \<notin> set a" for d :: char and a b using that by (induction a) auto
  have ms: "CHR '' '' \<notin> set (MethodToString m)" by (cases m) (simp_all add: MethodToString_def)
  have sm: "SetMethod (MethodToString m) r = r\<lparr>method_of := m\<rparr>"
    using assms(1) by (cases m) (simp_all add: MethodToString_def SetMethod_def)
  have ts: "CHR '' '' \<notin> set ?target" using assms(2,4) by simp
  have st: "set_target ?target s = s\<lparr>url := path, query := (if q = [] then query s else q)\<rparr>" for s
  proof (cases q)
    case Nil
    with assms(3) show ?thesis by (simp add: set_target_def)
  next
    case (Cons x q')
    with assms(5) have "x = CHR ''?''" by simp
    with Cons before [OF assms(3), of q'] show ?thesis by (simp add: set_target_def)
  qed
  have vd: "version_digits ?v = Some v" using assms(6) by (auto simp: version_digits_def)
  have "request_line line r = (True, SetVersion v (set_target ?target (r\<lparr>method_of := m\<rparr>)))"
    unfolding line request_line_def before [OF ms] list.case sm Let_def before [OF ts] vd
    using assms(1) by simp
  then show ?thesis unfolding eq by (simp add: st SetVersion_def)
qed

theorem ParseLine_roundtrip_witness:
  "ParseLine (''PUT /i?x=1 HTTP/1.0'' @ kCRLF) 0 19 new_HttpRequest =
     (True, new_HttpRequest\<lparr>method_of := PUT, url := ''/i'', query := ''?x=1'', version_of := http10\<rparr>)"
  using ParseLine_roundtrip [of PUT "''/i''" "''?x=1''" http10 "''PUT /i?x=1 HTTP/1.0''" kCRLF new_HttpRequest]
  by (simp add: MethodToString_def eval_nat_numeral)

section \<open>Requests in pieces\<close>

lemma parse_bytes_fuel:
  assumes "length xs < n" and "length xs < m"
  shows "parse_bytes n t xs r = parse_bytes m t xs r"
  using assms
proof (induction n arbitrary: m xs r)
  case (Suc n)
  then obtain m' where m: "m = Suc m'" by (cases m) auto
  show ?case
  proof (cases "search_crlf xs")
    case None
    then show ?thesis by (simp add: m)
  next
    case (Some k)
    then have "Suc k < length xs" by (simp add: search_crlf_Some crlf_at_def)
    then have "length (drop (k + 2) xs) < n" "length (drop (k + 2) xs) < m'"
      using Suc.prems m by simp_all
    from Suc.IH [OF this] Some show ?thesis
      by (simp add: m split: ParseState.split prod.split)
  qed
qed simp

lemma search_crlf_append:
  assumes "search_crlf xs = Some k"
  shows "search_crlf (xs @ ys) = Some k" and "k + 2 \<le> length xs"
proof -
  from assms have "crlf_at xs k" "\<forall>j<k. \<not> crlf_at xs j" by (simp_all add: search_crlf_Some)
  then have l: "Suc k < length xs" by (simp add: crlf_at_def)
  moreover have "crlf_at (xs @ ys) j = crlf_at xs j" if "Suc j < length xs" for j
    using that by (simp add: crlf_at_def nth_append)
  ultimately show "search_crlf (xs @ ys) = Some k"
    using \<open>crlf_at xs k\<close> \<open>\<forall>j<k. \<not> crlf_at xs j\<close> by (simp add: search_crlf_Some)
  show "k + 2 \<le> length xs" using l by simp
qed

lemma parse_bytes_append:
  assumes "length xs < n" and "parse_bytes n t xs r = (True, rest, r')"
    and "length (xs @ ys) < m" and "length (rest @ ys) < m'"
  shows "parse_bytes m t (xs @ ys) r = parse_bytes m' t (rest @ ys) r'"
  using assms
proof (induction n arbitrary: xs r m)
  case (Suc n)
  obtain m1 where m: "m = Suc m1" using Suc.prems(3) by (cases m) auto
  obtain m2 where m': "m' = Suc m2" using Suc.prems(4) by (cases m') auto
  have stop: "parse_bytes m' t zs s = (True, zs, s)" if "parse_state s = kdown" for zs s
    using that by (cases "search_crlf zs") (simp_all add: m')
  show ?case
  proof (cases "search_crlf xs")
    case None
    with Suc.prems have "rest = xs" "r' = r" by simp_all
    with Suc.prems show ?thesis using parse_bytes_fuel by blast
  next
    case (Some k)
    note A = search_crlf_append [OF Some]
    have d: "drop (k + 2) (xs @ ys) = drop (k + 2) xs @ ys" "take k (xs @ ys) = take k xs"
      using A(2) by simp_all
    have l: "length (drop (k + 2) xs) < n" "length (drop (k + 2) xs @ ys) < m1"
      using A(2) Suc.prems(1,3) m by simp_all
    note IH = Suc.IH [OF l(1) _ l(2) Suc.prems(4)]
    show ?thesis
    proof (cases "parse_state r")
      case kParseLine
      with Suc.prems(2) Some A(1) d IH show ?thesis
        by (auto simp: m simp del: take_append drop_append split: prod.splits if_splits)
    next
      case kParseHeader
      show ?thesis
      proof (cases "CHR '':'' \<in> set (take k xs)")
        case True
        with kParseHeader Suc.prems(2) Some A(1) d IH show ?thesis
          by (simp add: m del: take_append drop_append)
      next
        case False
        with kParseHeader Suc.prems(2) Some A(1) d show ?thesis
          by (auto simp: m stop simp del: take_append drop_append)
      qed
    next
      case kdown
      with Suc.prems(2) Some have "rest = xs" "r' = r" by simp_all
      with Suc.prems show ?thesis using parse_bytes_fuel by blast
    qed
  qed
qed simp

text \<open>
  C27. A request may come in any pieces as long as the parser is kept: if the bytes so far were
  parsed without an error, parsing what was left together with the next bytes gives what
  parsing everything at once gives. (\<^verbatim>\<open>HttpServer\<close>, which makes a new parser for every
  piece, does not profit from it.)
\<close>

theorem parse_in_pieces:
  assumes "buf_inv b1" and "parse t b1 r = Some (True, b1', r1)"
    and "buf_inv b2" and "readable b2 = readable b1' @ ys"
    and "buf_inv b3" and "readable b3 = readable b1 @ ys"
  shows "\<exists>ok r' b2' b3'. parse t b2 r1 = Some (ok, b2', r') \<and> parse t b3 r = Some (ok, b3', r') \<and>
     readable b2' = readable b3'"
proof -
  from parse_spec [OF assms(1), of t r] assms(2)
  have p1: "parse_bytes (Suc (length (readable b1))) t (readable b1) r = (True, readable b1', r1)"
    by (auto split: prod.splits)
  have "parse_bytes (Suc (length (readable b3))) t (readable b3) r =
      parse_bytes (Suc (length (readable b2))) t (readable b2) r1"
    unfolding assms(4,6) by (rule parse_bytes_append [OF _ p1]) simp_all
  with parse_spec [OF assms(3), of t r1] parse_spec [OF assms(5), of t r]
  show ?thesis by (auto split: prod.splits)
qed

theorem parse_in_pieces_witness:
  "\<exists>b1 b1' r1 b2 b2' r'. readable b1 = ''GET / HT'' \<and>
     parse ts_zero b1 new_HttpRequest = Some (True, b1', r1) \<and>
     readable b2 = readable b1' @ ''TP/1.1'' @ kCRLF @ kCRLF \<and>
     parse ts_zero b2 r1 = Some (True, b2', r') \<and> acceptable r'"
proof -
  let ?x = "''GET / HT''" and ?y = "''TP/1.1'' @ kCRLF @ kCRLF"
  have len: "length ?x \<le> 1024" "length (?x @ ?y) \<le> 1024" by (simp_all add: kCRLF_def)
  obtain b1 where b1: "buf_inv b1" "readable b1 = ?x" by (rule filled_buffer [OF len(1)])
  obtain b3 where b3: "buf_inv b3" "readable b3 = ?x @ ?y" by (rule filled_buffer [OF len(2)])
  have "parse_bytes (Suc (length ?x)) ts_zero ?x new_HttpRequest = (True, ?x, new_HttpRequest)"
    by (simp add: request_eval)
  with parse_spec [OF b1(1), of ts_zero new_HttpRequest]
  obtain b1' where p1: "parse ts_zero b1 new_HttpRequest = Some (True, b1', new_HttpRequest)"
    and r1: "readable b1' = ?x"
    unfolding b1(2) by auto
  have b3': "readable b3 = readable b1' @ ?y" "readable b3 = readable b1 @ ?y"
    by (simp_all add: b3 r1 b1)
  let ?r = "new_HttpRequest\<lparr>method_of := GET, url := ''/'', parse_state := kdown\<rparr>"
  have "parse_bytes (Suc (length (?x @ ?y))) ts_zero (?x @ ?y) new_HttpRequest = (True, [], ?r)"
    by (simp add: request_eval)
  with parse_spec [OF b3(1), of ts_zero new_HttpRequest]
  obtain b3'' where p3: "parse ts_zero b3 new_HttpRequest = Some (True, b3'', ?r)"
    unfolding b3(2) by auto
  have "acceptable ?r" by (simp add: acceptable_def)
  from parse_in_pieces [OF b1(1) p1 b3(1) b3'(1) b3(1) b3'(2)] p3
  obtain b2' where p2: "parse ts_zero b3 new_HttpRequest = Some (True, b2', ?r)" by auto
  show ?thesis
    by (rule exI [of _ b1], rule exI [of _ b1'], rule exI [of _ new_HttpRequest], rule exI [of _ b3],
        rule exI [of _ b2'], rule exI [of _ ?r], intro conjI)
      (fact b1(2) p1 b3'(1) p2 \<open>acceptable ?r\<close>)+
qed

end
