(* ===== verification/Http_Response.thy ===== *)
theory Http_Response
  imports Http_Request Decimal "HOL-Library.List_Lexorder" "HOL-Library.Char_ord"
begin

text \<open>
  \<^verbatim>\<open>HttpResponse\<close> of include/net/http/HttpResponse.h and src/net/http/HttpResponse.cpp.
  The headers are a map; the order in which the loop over the \<^verbatim>\<open>unordered_map\<close> visits
  them is a parameter. The response is written through \<^verbatim>\<open>Buffer::append\<close>, of which
  the proofs use only the interface \<open>byte_queue\<close>.
\<close>

section \<open>State\<close>

record http_response =
  res_version :: http_version
  StateCode :: int
  StateMessage :: string
  res_headers :: "string \<Rightarrow> string option"
  body :: string

text \<open>The codes of \<^verbatim>\<open>http::StateCode\<close> (HttpHead.h), and the setters.\<close>

datatype state_code =
    Unknown
  | OK | NoContent | PartialContent
  | MovedPermanently | Found | SeeOther | NotModified | TemporaryRedirect
  | BadRequest | Unauthorized | Forbidden | NotFound
  | InternalServerError | NotImplemented | ServiceUnavailable

fun code_number :: "state_code \<Rightarrow> int" where
  "code_number Unknown = 0"
| "code_number OK = 200"
| "code_number NoContent = 204"
| "code_number PartialContent = 206"
| "code_number MovedPermanently = 301"
| "code_number Found = 302"
| "code_number SeeOther = 303"
| "code_number NotModified = 304"
| "code_number TemporaryRedirect = 307"
| "code_number BadRequest = 400"
| "code_number Unauthorized = 401"
| "code_number Forbidden = 403"
| "code_number NotFound = 404"
| "code_number InternalServerError = 500"
| "code_number NotImplemented = 501"
| "code_number ServiceUnavailable = 503"

definition res_SetVersion :: "http_version \<Rightarrow> http_response \<Rightarrow> http_response" where
  "res_SetVersion v r = r\<lparr>res_version := v\<rparr>"

definition SetStateCode :: "state_code \<Rightarrow> http_response \<Rightarrow> http_response" where
  "SetStateCode code r = r\<lparr>StateCode := code_number code\<rparr>"

definition SetStateCode_int :: "int \<Rightarrow> http_response \<Rightarrow> http_response" where
  "SetStateCode_int code r = r\<lparr>StateCode := code\<rparr>"

definition SetSateMessage :: "string \<Rightarrow> http_response \<Rightarrow> http_response" where
  "SetSateMessage msg r = r\<lparr>StateMessage := msg\<rparr>"

definition SetBody :: "string \<Rightarrow> http_response \<Rightarrow> http_response" where
  "SetBody b r = r\<lparr>body := b\<rparr>"

definition SetHeader :: "string \<Rightarrow> string \<Rightarrow> http_response \<Rightarrow> http_response" where
  "SetHeader k v r = r\<lparr>res_headers := (res_headers r)(k \<mapsto> v)\<rparr>"

definition SetKeepAlive :: "bool \<Rightarrow> http_response \<Rightarrow> http_response" where
  "SetKeepAlive on r = SetHeader ''Connection'' (if on then ''Keep-Alive'' else ''close'') r"

definition new_HttpResponse :: http_response where
  "new_HttpResponse = SetKeepAlive True \<lparr>res_version = http11, StateCode = code_number Unknown,
     StateMessage = [], res_headers = (\<lambda>_. None), body = []\<rparr>"

text \<open>\<^verbatim>\<open>headers_.at("Connection")\<close> throws if there is no such header.\<close>

definition KeepAlive :: "http_response \<Rightarrow> bool res" where
  "KeepAlive r = (case res_headers r ''Connection'' of
     None \<Rightarrow> Inl OutOfRange | Some v \<Rightarrow> Inr (v \<noteq> ''close''))"

text \<open>Assigning a \<^verbatim>\<open>size_t\<close> to a string assigns one character.\<close>

definition SetContentLength :: "nat \<Rightarrow> http_response \<Rightarrow> http_response" where
  "SetContentLength len r = SetHeader ''Content-Length'' [char_of len] r"

definition response_version :: "http_response \<Rightarrow> string" where
  "response_version r = (if res_version r = http10 then ''HTTP/1.0''
     else if res_version r = http11 then ''HTTP/1.1'' else ''HTTP/2.0'')"

section \<open>Writing the response\<close>

definition append_header :: "string \<times> string \<Rightarrow> buffer \<Rightarrow> buffer res" where
  "append_header s output =
     bindR (append_string (fst s) output)
       (\<lambda>output. bindR (append_string '': '' output)
         (\<lambda>output. bindR (append_string (snd s) output)
           (\<lambda>output. append_string kCRLF output)))"

definition response :: "((string \<Rightarrow> string option) \<Rightarrow> string list) \<Rightarrow> http_response \<Rightarrow> buffer \<Rightarrow>
    (http_response \<times> buffer) res" where
  "response order r output =
     (let prot = response_version r @ '' '' @ dec_int (StateCode r) @ '' '' @ StateMessage r @ kCRLF in
      bindR (append_string prot output)
        (\<lambda>output. let r = SetHeader ''Content-Length'' (dec_nat (length (body r))) r in
          bindR (foldR append_header (map (\<lambda>k. (k, the (res_headers r k))) (order (res_headers r))) output)
            (\<lambda>output. bindR (append_string kCRLF output)
              (\<lambda>output. bindR (if body r \<noteq> [] then append_string (body r) output else Inr output)
                (\<lambda>output. Inr (r, output))))))"

text \<open>What the code relies on of the map's iteration: every key once.\<close>

definition order_law :: "((string \<Rightarrow> string option) \<Rightarrow> string list) \<Rightarrow> bool" where
  "order_law order \<longleftrightarrow> (\<forall>m. finite (dom m) \<longrightarrow> distinct (order m) \<and> set (order m) = dom m)"

section \<open>What is written\<close>

definition header_bytes :: "string \<times> string \<Rightarrow> string" where
  "header_bytes s = fst s @ '': '' @ snd s @ kCRLF"

definition response_bytes :: "((string \<Rightarrow> string option) \<Rightarrow> string list) \<Rightarrow> http_response \<Rightarrow> string" where
  "response_bytes order r =
     (let hs = (res_headers r)(''Content-Length'' \<mapsto> dec_nat (length (body r))) in
      response_version r @ '' '' @ dec_int (StateCode r) @ '' '' @ StateMessage r @ kCRLF @
      concat (map (\<lambda>k. header_bytes (k, the (hs k))) (order hs)) @ kCRLF @ body r)"

text \<open>A response is a sequence of appends.\<close>

definition response_pieces :: "((string \<Rightarrow> string option) \<Rightarrow> string list) \<Rightarrow> http_response \<Rightarrow> string list" where
  "response_pieces order r =
     (let hs = (res_headers r)(''Content-Length'' \<mapsto> dec_nat (length (body r))) in
      [response_version r @ '' '' @ dec_int (StateCode r) @ '' '' @ StateMessage r @ kCRLF] @
      concat (map (\<lambda>k. [k, '': '', the (hs k), kCRLF]) (order hs)) @ [kCRLF] @
      (if body r \<noteq> [] then [body r] else []))"

lemma append_header_pieces: "append_header (k, v) b = foldR append_buf [k, '': '', v, kCRLF] b"
  by (simp add: append_header_def append_string_def foldR_Cons_fun foldR_Nil_fun)

lemma append_headers: "foldR append_header (map (\<lambda>k. (k, f k)) ks) b =
    foldR append_buf (concat (map (\<lambda>k. [k, '': '', f k, kCRLF]) ks)) b"
proof (induction ks arbitrary: b)
  case (Cons k ks)
  have "foldR append_header (map (\<lambda>k. (k, f k)) (k # ks)) b =
      bindR (foldR append_buf [k, '': '', f k, kCRLF] b)
        (foldR append_buf (concat (map (\<lambda>k. [k, '': '', f k, kCRLF]) ks)))"
    by (simp only: list.map foldR.simps append_header_pieces Cons.IH cong: bindR_cong)
  then show ?case by (simp only: foldR_append [symmetric] list.map concat.simps)
qed simp

lemma response_foldR:
  "response order r b = bindR (foldR append_buf (response_pieces order r) b)
     (\<lambda>b. Inr (SetHeader ''Content-Length'' (dec_nat (length (body r))) r, b))"
proof -
  have last: "(if body r \<noteq> [] then append_string (body r) b else Inr b) =
      foldR append_buf (if body r \<noteq> [] then [body r] else []) b" for b
    by (simp add: append_string_def bindR_def split: sum.split)
  show ?thesis
    unfolding response_def response_pieces_def Let_def append_headers
    by (simp add: foldR_append bindR_assoc append_string_def SetHeader_def last cong: if_cong)
qed

lemma response_pieces_bytes: "concat (response_pieces order r) = response_bytes order r"
proof -
  have "concat (concat (map (\<lambda>k. [k, '': '', f k, kCRLF]) ks)) =
      concat (map (\<lambda>k. header_bytes (k, f k)) ks)" for f ks
    by (induction ks) (simp_all add: header_bytes_def)
  then show ?thesis by (simp add: response_pieces_def response_bytes_def Let_def)
qed

lemma response_spec:
  assumes "buf_inv b"
  shows "case response order r b of
      Inl e \<Rightarrow> writeable b < length (response_bytes order r)
    | Inr (r', b') \<Rightarrow> buf_inv b' \<and> readable b' = readable b @ response_bytes order r"
proof (cases "foldR append_buf (response_pieces order r) b")
  case (Inl e)
  then have "\<not> length (concat (response_pieces order r)) \<le> writeable b"
    using buf.put_all_returns [OF assms, of "response_pieces order r"] by auto
  with Inl show ?thesis by (simp add: response_foldR response_pieces_bytes)
next
  case (Inr b')
  from buf.put_all_sound [OF assms Inr] Inr show ?thesis
    by (simp add: response_foldR response_pieces_bytes)
qed

text \<open>
  C29. Writing a response appends exactly the status line, the headers in the map's order with
  the content length of the body among them, an empty line and the body; it always does while
  the buffer has room for all of it, and fails only beyond that.
\<close>

theorem response_writes:
  assumes "buf_inv b"
  shows "case response order r b of
      Inl e \<Rightarrow> writeable b < length (response_bytes order r)
    | Inr (r', b') \<Rightarrow> buf_inv b' \<and> readable b' = readable b @ response_bytes order r"
  by (rule response_spec [OF assms])

text \<open>The keys of the concrete responses below, in one fixed order.\<close>

definition demo_order :: "(string \<Rightarrow> string option) \<Rightarrow> string list" where
  "demo_order m = filter (\<lambda>k. m k \<noteq> None) [''Connection'', ''Content-Length'']"

definition demo_response :: http_response where
  "demo_response = (SetKeepAlive False new_HttpResponse)\<lparr>StateCode := 404, StateMessage := ''Not Found'',
     body := ''no''\<rparr>"

lemma demo_response_bytes: "response_bytes demo_order demo_response =
    ''HTTP/1.1 404 Not Found'' @ kCRLF @ ''Connection: close'' @ kCRLF @ ''Content-Length: 2'' @ kCRLF @
    kCRLF @ ''no''"
  by (simp add: response_bytes_def demo_response_def demo_order_def new_HttpResponse_def SetKeepAlive_def
      SetHeader_def response_version_def header_bytes_def dec_int_def dec_nat.simps digit_char_def char_of_eq_iff Let_def)

theorem response_writes_witness:
  "\<exists>r b. response demo_order demo_response (new_Buffer kInitialSize) = Inr (r, b) \<and>
     readable b = ''HTTP/1.1 404 Not Found'' @ kCRLF @ ''Connection: close'' @ kCRLF @
       ''Content-Length: 2'' @ kCRLF @ kCRLF @ ''no''"
  using response_writes [OF kInitialSize_inv, of demo_order demo_response]
  by (auto simp: demo_response_bytes kInitialSize_def kCRLF_def split: sum.splits prod.splits)

text \<open>
  The response declares the length of its body: whatever headers were set before, one of
  the lines written is a content length that reads back as the number of bytes of the body,
  and after the empty line nothing but the body follows.
\<close>

theorem response_declares_length:
  assumes "order_law order" and "finite (dom (res_headers r))"
  shows "\<exists>front back digits. response_bytes order r =
      front @ ''Content-Length: '' @ digits @ kCRLF @ back @ kCRLF @ body r \<and>
      undec_nat digits = length (body r)"
proof -
  let ?hs = "(res_headers r)(''Content-Length'' \<mapsto> dec_nat (length (body r)))"
  have "finite (dom ?hs)" using assms(2) by simp
  then have "''Content-Length'' \<in> set (order ?hs)" using assms(1) by (auto simp: order_law_def)
  then obtain ks ls where o: "order ?hs = ks @ ''Content-Length'' # ls" by (auto dest: split_list)
  let ?f = "\<lambda>k. header_bytes (k, the (?hs k))"
  have "concat (map ?f (order ?hs)) = concat (map ?f ks) @
      (''Content-Length: '' @ dec_nat (length (body r)) @ kCRLF) @ concat (map ?f ls)"
    by (simp add: o header_bytes_def)
  then have "response_bytes order r =
      (response_version r @ '' '' @ dec_int (StateCode r) @ '' '' @ StateMessage r @ kCRLF @ concat (map ?f ks)) @
      ''Content-Length: '' @ dec_nat (length (body r)) @ kCRLF @ concat (map ?f ls) @ kCRLF @ body r"
    by (simp add: response_bytes_def Let_def)
  with undec_dec_nat show ?thesis by blast
qed

theorem response_declares_length_witness:
  "\<exists>front back digits. response_bytes (\<lambda>m. sorted_list_of_set (dom m)) new_HttpResponse =
      front @ ''Content-Length: '' @ digits @ kCRLF @ back @ kCRLF @ body new_HttpResponse \<and>
      undec_nat digits = 0"
proof -
  have o: "order_law (\<lambda>m. sorted_list_of_set (dom m))" by (simp add: order_law_def)
  have f: "finite (dom (res_headers new_HttpResponse))"
    by (simp add: new_HttpResponse_def SetKeepAlive_def SetHeader_def)
  have "length (body new_HttpResponse) = 0"
    by (simp add: new_HttpResponse_def SetKeepAlive_def SetHeader_def)
  with response_declares_length [OF o f] show ?thesis by simp
qed

text \<open>
  \<^verbatim>\<open>SetContentLength\<close> has no effect on what is sent: it stores a single character as
  the value, and writing the response replaces it.
\<close>

theorem SetContentLength_is_lost:
  "res_headers (SetContentLength n r) ''Content-Length'' = Some [char_of n] \<and>
   response order (SetContentLength n r) b = response order r b"
proof -
  have "response_pieces order (SetContentLength n r) = response_pieces order r"
    by (simp add: response_pieces_def SetContentLength_def SetHeader_def response_version_def Let_def)
  then show ?thesis
    by (simp add: response_foldR bindR_assoc SetContentLength_def SetHeader_def)
qed

end
