(* ===== verification/Http_Server.thy ===== *)
theory Http_Server
  imports Tcp_Stream Http_Response
begin

text \<open>
  \<^verbatim>\<open>HttpServer\<close> of include/net/http/HttpServer.h and src/net/http/HttpServer.cpp: the
  message callback of the server's connections. The user's \<^verbatim>\<open>HttpCallback\<close> is a function
  from the request and the fresh response to the filled response. The callback runs in the
  connection's loop thread, so its sends and shutdowns are direct.
\<close>

section \<open>The callbacks\<close>

definition DefaultHttpCallback :: "http_request \<Rightarrow> http_response \<Rightarrow> http_response" where
  "DefaultHttpCallback req r = SetKeepAlive False (SetSateMessage ''Not Found'' (SetStateCode NotFound r))"

definition bad_request :: string where
  "bad_request = ''HTTP/1.1 400 Bad Request'' @ kCRLF @ kCRLF"

text \<open>\<^verbatim>\<open>conn->send\<close> of a temporary string or a local buffer, in the loop's thread.\<close>

definition send_here :: "('k, 'e, 's) net_sys \<Rightarrow> nat \<Rightarrow> char list \<Rightarrow>
    ('t, 'k, 'e, 's, 'x, 'z) net_scheme \<Rightarrow> ('t, 'k, 'e, 's, 'x, 'z) net_scheme res" where
  "send_here sys c d w = (if state (conns w c) = kConnected then SendInLoop sys c d w else Inr w)"

definition OnRequest :: "('k, 'e, 's) net_sys \<Rightarrow>
    ('x user_call \<Rightarrow> ('t, 'k, 'e, 's, 'x, 'z) net_scheme \<Rightarrow> ('t, 'k, 'e, 's, 'x, 'z) net_scheme res) \<Rightarrow>
    ((string \<Rightarrow> string option) \<Rightarrow> string list) \<Rightarrow> (http_request \<Rightarrow> http_response \<Rightarrow> http_response) \<Rightarrow>
    nat \<Rightarrow> http_request \<Rightarrow>
    ('t, 'k, 'e, 's, 'x, 'z) net_scheme \<Rightarrow> ('t, 'k, 'e, 's, 'x, 'z) net_scheme res" where
  "OnRequest sys usr order HttpCallback c req w =
     (let r = HttpCallback req new_HttpResponse in
      bindR (response order r (new_Buffer kInitialSize))
        (\<lambda>(r, b). bindR (send_here sys c
             (slice (buf_bytes b) (ReaderIndex b) (ReaderIndex b + ReadableBytes b)) w)
          (\<lambda>w. bindR (KeepAlive r)
            (\<lambda>keep. if \<not> keep then shutdown sys usr True c w else Inr w))))"

text \<open>
  Every message gets a new \<^verbatim>\<open>HttpRequest\<close>. After the answer 400 the code goes on to test
  \<^verbatim>\<open>acceptable\<close>.
\<close>

definition OnMessage :: "('k, 'e, 's) net_sys \<Rightarrow>
    ('x user_call \<Rightarrow> ('t, 'k, 'e, 's, 'x, 'z) net_scheme \<Rightarrow> ('t, 'k, 'e, 's, 'x, 'z) net_scheme res) \<Rightarrow>
    ((string \<Rightarrow> string option) \<Rightarrow> string list) \<Rightarrow> (http_request \<Rightarrow> http_response \<Rightarrow> http_response) \<Rightarrow>
    nat \<Rightarrow> timestamp \<Rightarrow>
    ('t, 'k, 'e, 's, 'x, 'z) net_scheme \<Rightarrow> ('t, 'k, 'e, 's, 'x, 'z) net_scheme res" where
  "OnMessage sys usr order HttpCallback c t w =
     (case parse t (InputBuffer (conns w c)) new_HttpRequest of
        None \<Rightarrow> Inl Diverges
      | Some (ok, b, request) \<Rightarrow>
          (let w = upd_conn c (\<lambda>conn. conn\<lparr>InputBuffer := b\<rparr>) w in
           bindR (if \<not> ok
                  then bindR (send_here sys c bad_request w) (\<lambda>w. shutdown sys usr True c w)
                  else Inr w)
             (\<lambda>w. if acceptable request then OnRequest sys usr order HttpCallback c request w
                  else Inr w)))"

section \<open>What sending and shutting down leave alone\<close>

lemma SendInLoop_frame:
  assumes sock: "socket_laws sys accepted shut" and epoll: "epoll_laws (sys_ctl (lsys sys)) reg"
    and inv: "net_inv reg shut L C w" and c: "c \<in> C" and len: "length d \<le> max_size"
    and ret: "SendInLoop sys c d w = Inr w'"
  shows "\<exists>b. conns w' = (conns w)(c := (conns w c)\<lparr>OutputBuffer := b\<rparr>)" and "conn_alive w' = conn_alive w"
proof -
  obtain nwrite remain err w1 where wd: "write_direct sys c d w = (nwrite, remain, err, w1)"
    by (metis prod_cases4)
  note W = write_direct_spec [OF sock inv c len wd]
  have inv1: "net_inv reg shut L C w1" using inv by (simp add: net_inv_def conn_chan_def W)
  have same: "(conns w)(c := (conns w c)\<lparr>OutputBuffer := OutputBuffer (conns w c)\<rparr>) = conns w" by auto
  have "(\<exists>b. conns w' = (conns w)(c := (conns w c)\<lparr>OutputBuffer := b\<rparr>)) \<and> conn_alive w' = conn_alive w"
  proof (cases "\<not> err \<and> 0 < remain")
    case False
    with ret wd have "w' = w1" by (auto simp: SendInLoop_def)
    with same show ?thesis by (metis W(5,7))
  next
    case True
    with ret wd have "keep_rest sys c (take remain (drop nwrite d)) w1 = Inr w'"
      by (simp add: SendInLoop_def)
    with keep_rest_spec [OF epoll inv1 c, of "take remain (drop nwrite d)"] show ?thesis
      by (auto simp: W split: sum.splits)
  qed
  then show "\<exists>b. conns w' = (conns w)(c := (conns w c)\<lparr>OutputBuffer := b\<rparr>)" "conn_alive w' = conn_alive w"
    by simp_all
qed

lemma shutdown_effect:
  assumes sock: "socket_laws sys accepted shut" and inv: "net_inv reg shut L C w" and c: "c \<in> C"
    and st: "state (conns w c) = kConnected" and alive: "conn_alive w c"
  shows "\<exists>w'. shutdown sys usr True c w = Inr w' \<and> net_inv reg shut L C w' \<and>
     conns w' = (conns w)(c := (conns w c)\<lparr>state := kDisconnecting\<rparr>) \<and>
     (\<forall>d. stream accepted d w' = stream accepted d w)"
proof -
  let ?w = "upd_conn c (\<lambda>conn. conn\<lparr>state := kDisconnecting\<rparr>) w"
  let ?w' = "ShutdownInLoop sys c ?w"
  have ret: "shutdown sys usr True c w = Inr ?w'"
    using st alive by (simp add: shutdown_def run_in_loop_def RunInLoop_def)
  have "stream_inv reg shut accepted L C (\<lambda>_. []) w" using inv by (simp add: stream_inv_def)
  from shutdown_keeps [OF sock this c ret] have "net_inv reg shut L C ?w'" by (simp add: stream_inv_def)
  moreover have "conns ?w' = (conns w)(c := (conns w c)\<lparr>state := kDisconnecting\<rparr>)"
    by (simp add: ShutdownInLoop_def ShutdownWrite_def)
  moreover have "accepted (sockets ?w') = accepted (sockets w)"
    by (simp add: ShutdownInLoop_def ShutdownWrite_sockets [OF sock])
  ultimately show ?thesis using ret by (intro exI [of _ ?w']) (simp add: stream_def)
qed

lemma input_inv:
  assumes inv: "net_inv reg shut L C w" and c: "c \<in> C" and b: "buf_inv b"
  shows "net_inv reg shut L C (upd_conn c (\<lambda>conn. conn\<lparr>InputBuffer := b\<rparr>) w)"
proof -
  note I = net_invD [OF inv c]
  let ?w = "upd_conn c (\<lambda>conn. conn\<lparr>InputBuffer := b\<rparr>) w"
  have ch: "conn_chan ?w c = conn_chan w c" by (simp add: conn_chan_def)
  show ?thesis
  proof (rule net_inv_change [OF inv c])
    show "conn_good ((conns w c)\<lparr>InputBuffer := b\<rparr>) (fd (conn_chan ?w c)) (isWriting (conn_chan ?w c))
        (shut (sockets ?w) (conn_fd ((conns w c)\<lparr>InputBuffer := b\<rparr>)))"
      using I(3,5,6,7) b unfolding ch by (simp add: conn_good_def)
  qed (simp_all add: I)
qed

section \<open>Serving\<close>

text \<open>
  A complete request is answered: if the input buffer of a connected connection holds a
  request that parses, the message callback returns, exactly the bytes of the response the
  user's callback makes are added to the connection's stream, the bytes after the request stay
  in the input buffer, and the connection is shut down exactly if the response's connection
  header says close (for a response that fits the empty buffers, on a socket that is not
  broken).
\<close>

theorem OnMessage_serves:
  assumes "socket_laws sys accepted shut" and "epoll_laws (sys_ctl (lsys sys)) reg"
    and "net_inv reg shut L C w" and "c \<in> C" and "state (conns w c) = kConnected" and "conn_alive w c"
    and "parse_bytes (Suc (length (readable (InputBuffer (conns w c))))) t
           (readable (InputBuffer (conns w c))) new_HttpRequest = (True, rest, req)"
    and "acceptable req"
    and "answer = response_bytes order (HttpCallback req new_HttpResponse)"
    and "length answer \<le> kInitialSize" and "length answer \<le> writeable (OutputBuffer (conns w c))"
    and "res_headers (HttpCallback req new_HttpResponse) ''Connection'' = Some keep"
    and "fst (sys_write sys (sockets w) (conn_fd (conns w c)) answer) \<noteq> WrErr EPIPE"
    and "fst (sys_write sys (sockets w) (conn_fd (conns w c)) answer) \<noteq> WrErr ECONNRESET"
  shows "\<exists>w'. OnMessage sys usr order HttpCallback c t w = Inr w' \<and> net_inv reg shut L C w' \<and>
     stream accepted c w' = stream accepted c w @ answer \<and>
     readable (InputBuffer (conns w' c)) = rest \<and>
     state (conns w' c) = (if keep = ''close'' then kDisconnecting else kConnected)"
proof -
  note I = net_invD [OF assms(3,4)]
  from parse_spec [OF I(4), of t new_HttpRequest] assms(7)
  obtain b where p: "parse t (InputBuffer (conns w c)) new_HttpRequest = Some (True, b, req)"
    and b: "buf_inv b" "readable b = rest" by auto
  let ?w1 = "upd_conn c (\<lambda>conn. conn\<lparr>InputBuffer := b\<rparr>) w"
  let ?r = "HttpCallback req new_HttpResponse"
  have inv1: "net_inv reg shut L C ?w1" by (rule input_inv [OF assms(3,4) b(1)])
  obtain r' o' where resp: "response order ?r (new_Buffer kInitialSize) = Inr (r', o')"
    and o: "buf_inv o'" "readable o' = answer"
    using response_spec [OF kInitialSize_inv, of order ?r] assms(9,10)
    by (auto split: sum.splits prod.splits)
  have r': "r' = SetHeader ''Content-Length'' (dec_nat (length (body ?r))) ?r"
    using resp by (auto simp: response_foldR)
  have keep: "KeepAlive r' = Inr (keep \<noteq> ''close'')"
    using assms(12) by (simp add: KeepAlive_def r' SetHeader_def)
  have out: "OutputBuffer (conns ?w1 c) = OutputBuffer (conns w c)" by simp
  have len: "length answer \<le> max_size" using assms(10) max_size_big by (simp add: kInitialSize_def)
  obtain w2 where w2: "SendInLoop sys c answer ?w1 = Inr w2"
    using SendInLoop_returns [OF assms(1,2) inv1 assms(4), of answer] assms(11) by auto
  obtain ob where f: "conns w2 = (conns ?w1)(c := (conns ?w1 c)\<lparr>OutputBuffer := ob\<rparr>)" "conn_alive w2 = conn_alive w"
    using SendInLoop_frame [OF assms(1,2) inv1 assms(4) len w2] by auto
  have str1: "stream accepted c ?w1 = stream accepted c w" by (simp add: stream_def)
  from SendInLoop_keeps [OF assms(1,2) inv1 assms(4) len w2] assms(13,14)
  have inv2: "net_inv reg shut L C w2" and str2: "stream accepted c w2 = stream accepted c w @ answer"
    by (simp_all add: str1)
  have st2: "state (conns w2 c) = kConnected" "conn_alive w2 c" using assms(5,6) by (simp_all add: f)
  have run: "OnMessage sys usr order HttpCallback c t w =
      (if keep = ''close'' then shutdown sys usr True c w2 else Inr w2)"
    using p assms(5,8) w2
    by (simp add: OnMessage_def OnRequest_def Let_def resp send_here_def peek_all [OF o(1)] o(2) keep)
  show ?thesis
  proof (cases "keep = ''close''")
    case True
    from shutdown_effect [OF assms(1) inv2 assms(4) st2, of usr] str2 b(2) True show ?thesis
      unfolding run by (auto simp: f)
  next
    case False
    with run inv2 str2 b(2) st2 show ?thesis by (simp add: f)
  qed
qed

text \<open>
  A request that arrives in two messages is refused. The first message, ending after the
  request line, is consumed without an answer; the next one, starting with a header, meets a
  new parser, which takes the header for a request line, answers 400 and shuts the connection
  down.
\<close>

theorem split_request_refused:
  assumes "net_inv reg shut L C w" and "c \<in> C" and "state (conns w c) = kConnected"
  shows "(CHR 0x0D \<notin> set line \<and> readable (InputBuffer (conns w c)) = line @ kCRLF \<and>
        request_line line new_HttpRequest = (True, req) \<longrightarrow>
      (\<exists>b. readable b = [] \<and> OnMessage sys usr order HttpCallback c t w =
         Inr (upd_conn c (\<lambda>conn. conn\<lparr>InputBuffer := b\<rparr>) w))) \<and>
    (CHR 0x0D \<notin> set (key @ v) \<and> CHR '' '' \<notin> set key \<and>
        readable (InputBuffer (conns w c)) = key @ '': '' @ v @ kCRLF @ rest \<longrightarrow>
      (\<exists>b. readable b = readable (InputBuffer (conns w c)) \<and>
         OnMessage sys usr order HttpCallback c t w =
           bindR (SendInLoop sys c bad_request (upd_conn c (\<lambda>conn. conn\<lparr>InputBuffer := b\<rparr>) w))
             (shutdown sys usr True c)))"
proof (intro conjI impI; elim conjE)
  note I = net_invD [OF assms(1,2)]
  let ?in = "InputBuffer (conns w c)"
  note P = parse_spec [OF I(4), of t new_HttpRequest]
  have new: "parse_state new_HttpRequest = kParseLine" "\<not> acceptable new_HttpRequest"
    by (simp_all add: new_HttpRequest_def acceptable_def)
  {
    assume cr: "CHR 0x0D \<notin> set line" and xs: "readable ?in = line @ kCRLF"
      and rl: "request_line line new_HttpRequest = (True, req)"
    have s: "search_crlf (line @ kCRLF) = Some (length line)" using search_crlf_line [OF cr, of "[]"] by simp
    have none: "parse_bytes n t [] r = (True, [], r)" for n r by (cases n) simp_all
    have "parse_bytes (Suc (length (readable ?in))) t (readable ?in) new_HttpRequest =
        (True, [], (SetReceiveTime t req)\<lparr>parse_state := kParseHeader\<rparr>)"
      using s rl none by (simp add: xs new kCRLF_def)
    with P obtain b where "parse t ?in new_HttpRequest =
        Some (True, b, (SetReceiveTime t req)\<lparr>parse_state := kParseHeader\<rparr>)" "readable b = []"
      by auto
    then show "\<exists>b. readable b = [] \<and> OnMessage sys usr order HttpCallback c t w =
         Inr (upd_conn c (\<lambda>conn. conn\<lparr>InputBuffer := b\<rparr>) w)"
      by (auto simp: OnMessage_def acceptable_def)
  next
    assume cr: "CHR 0x0D \<notin> set (key @ v)" and sp: "CHR '' '' \<notin> set key"
      and xs: "readable ?in = key @ '': '' @ v @ kCRLF @ rest"
    let ?line = "key @ '': '' @ v"
    have "search_crlf (?line @ kCRLF @ rest) = Some (length ?line)"
      by (rule search_crlf_line) (use cr in simp)
    then have s: "search_crlf (readable ?in) = Some (length ?line)" by (simp add: xs)
    have line: "take (length ?line) (readable ?in) = ?line" by (simp add: xs)
    have tw: "takeWhile (\<lambda>c. c \<noteq> CHR '' '') ?line = key @ '':''"
      "dropWhile (\<lambda>c. c \<noteq> CHR '' '') ?line = CHR '' '' # v"
      using sp by (induction key) auto
    have "last (key @ '':'') = CHR '':''" by simp
    then have m: "method_of (SetMethod (key @ '':'') new_HttpRequest) = Method_Unknown"
      by (auto simp: SetMethod_def)
    let ?r = "SetMethod (key @ '':'') new_HttpRequest"
    have "request_line ?line new_HttpRequest = (False, ?r)"
      unfolding request_line_def tw list.case Let_def using m by simp
    with s line have "parse_bytes (Suc (length (readable ?in))) t (readable ?in) new_HttpRequest =
        (False, readable ?in, ?r)" by (simp add: new)
    with P obtain b where b: "parse t ?in new_HttpRequest = Some (False, b, ?r)" "readable b = readable ?in"
      by auto
    have na: "\<not> acceptable ?r" using new by (simp add: acceptable_def)
    show "\<exists>b. readable b = readable ?in \<and> OnMessage sys usr order HttpCallback c t w =
           bindR (SendInLoop sys c bad_request (upd_conn c (\<lambda>conn. conn\<lparr>InputBuffer := b\<rparr>) w))
             (shutdown sys usr True c)"
      using b na assms(3) by (intro exI [of _ b]) (simp add: OnMessage_def send_here_def Let_def)
  }
qed

section \<open>The server over any traffic\<close>

text \<open>The user callbacks of a server with the connections \<open>C\<close>: only messages are handled.\<close>

definition http_usr :: "('k, 'e, 's) net_sys \<Rightarrow> ((string \<Rightarrow> string option) \<Rightarrow> string list) \<Rightarrow>
    (http_request \<Rightarrow> http_response \<Rightarrow> http_response) \<Rightarrow> nat set \<Rightarrow>
    'x user_call \<Rightarrow> ('t, 'k, 'e, 's, 'x, 'z) net_scheme \<Rightarrow> ('t, 'k, 'e, 's, 'x, 'z) net_scheme res" where
  "http_usr sys order HttpCallback C u w =
     (case u of
        MessageCall f c t \<Rightarrow> if c \<in> C then OnMessage sys (\<lambda>_. Inr) order HttpCallback c t w else Inr w
      | _ \<Rightarrow> Inr w)"

lemma send_here_keeps:
  assumes "socket_laws sys accepted shut" and "epoll_laws (sys_ctl (lsys sys)) reg"
    and "stream_inv reg shut accepted L C S w" and "c \<in> C" and "length d \<le> max_size"
    and "send_here sys c d w = Inr w'"
  shows "stream_inv reg shut accepted L C S w'"
  using assms SendInLoop_keeps_inv [OF assms(1-5)] by (auto simp: send_here_def split: if_splits)

lemma OnRequest_keeps:
  assumes sock: "socket_laws sys accepted shut" and epoll: "epoll_laws (sys_ctl (lsys sys)) reg"
    and inv: "stream_inv reg shut accepted L C S w" and c: "c \<in> C"
    and ret: "OnRequest sys usr order HttpCallback c req w = Inr w'"
  shows "stream_inv reg shut accepted L C S w'"
proof -
  obtain r b where rb: "response order (HttpCallback req new_HttpResponse) (new_Buffer kInitialSize) = Inr (r, b)"
    using ret by (auto simp: OnRequest_def Let_def)
  have b: "buf_inv b"
    using response_spec [OF kInitialSize_inv, of order "HttpCallback req new_HttpResponse"] by (simp add: rb)
  then have len: "length (readable b) \<le> max_size"
    using length_readable [OF b] buf_sizes(1) [OF b] buf_invD(3,4) [OF b] by simp
  from ret obtain w1 keep where w1: "send_here sys c (readable b) w = Inr w1"
    and k: "(if \<not> keep then shutdown sys usr True c w1 else Inr w1) = Inr w'"
    by (auto simp: OnRequest_def Let_def rb peek_all [OF b])
  have "stream_inv reg shut accepted L C S w1" by (rule send_here_keeps [OF sock epoll inv c len w1])
  with k shutdown_keeps [OF sock this c] show ?thesis by (auto split: if_splits)
qed

lemma OnMessage_keeps:
  assumes sock: "socket_laws sys accepted shut" and epoll: "epoll_laws (sys_ctl (lsys sys)) reg"
    and inv: "stream_inv reg shut accepted L C S w" and c: "c \<in> C"
    and ret: "OnMessage sys usr order HttpCallback c t w = Inr w'"
  shows "stream_inv reg shut accepted L C S w'"
proof -
  have n: "net_inv reg shut L C w" using inv by (simp add: stream_inv_def)
  note I = net_invD [OF n c]
  obtain ok b req where p: "parse t (InputBuffer (conns w c)) new_HttpRequest = Some (ok, b, req)"
    using ret by (auto simp: OnMessage_def split: option.splits)
  have b: "buf_inv b" using parse_spec [OF I(4), of t new_HttpRequest] by (auto simp: p split: prod.splits)
  let ?w1 = "upd_conn c (\<lambda>conn. conn\<lparr>InputBuffer := b\<rparr>) w"
  have "net_inv reg shut L C ?w1" by (rule input_inv [OF n c b])
  moreover have "stream accepted d ?w1 = stream accepted d w" for d by (simp add: stream_def)
  ultimately have inv1: "stream_inv reg shut accepted L C S ?w1" using inv by (simp add: stream_inv_def)
  from ret obtain w2 where
    w2: "(if \<not> ok then bindR (send_here sys c bad_request ?w1) (\<lambda>w. shutdown sys usr True c w)
          else Inr ?w1) = Inr w2"
    and fin: "(if acceptable req then OnRequest sys usr order HttpCallback c req w2 else Inr w2) = Inr w'"
    by (auto simp: OnMessage_def p Let_def)
  have len: "length bad_request \<le> max_size" using max_size_big by (simp add: bad_request_def kCRLF_def)
  have "stream_inv reg shut accepted L C S w2"
  proof (cases ok)
    case True
    with w2 inv1 show ?thesis by simp
  next
    case False
    with w2 obtain v where v: "send_here sys c bad_request ?w1 = Inr v" "shutdown sys usr True c v = Inr w2"
      by auto
    from shutdown_keeps [OF sock send_here_keeps [OF sock epoll inv1 c len v(1)] c v(2)] show ?thesis .
  qed
  with fin OnRequest_keeps [OF sock epoll this c] show ?thesis by (auto split: if_splits)
qed

text \<open>
  C26. A server run: over any sequence of arriving bytes, closings, writable sockets and removals
  on its connections, with any user callback and any header order, the HTTP server keeps every
  connection's stream (no part of an answer is lost, doubled or mixed up), and keeps waiting
  for writing while output is left.
\<close>

theorem http_server_keeps_streams:
  assumes "socket_laws sys accepted shut" and "epoll_laws (sys_ctl (lsys sys)) reg"
    and "net_inv reg shut L C w"
    and "\<forall>q\<in>set ops. op_conn q \<in> C \<and> op_size q \<le> max_size"
    and "foldR (do_conn_op sys (http_usr sys order HttpCallback C)) ops w = Inr w'"
  shows "net_inv reg shut L C w' \<and> (\<forall>c\<in>C. prefix (stream accepted c w) (stream accepted c w'))"
proof -
  have "usr_keeps (http_usr sys order HttpCallback C) (stream_inv reg shut accepted L C S)" for S
    unfolding usr_keeps_def
  proof (intro allI impI)
    fix u v v'
    assume "stream_inv reg shut accepted L C S v" "http_usr sys order HttpCallback C u v = Inr v'"
    with OnMessage_keeps [OF assms(1,2)] show "stream_inv reg shut accepted L C S v'"
      by (auto simp: http_usr_def split: user_call.splits if_splits)
  qed
  from conn_ops_inv [OF assms(1,2) this assms(3-5)] show ?thesis by (simp add: stream_inv_def)
qed

section \<open>Witnesses\<close>

text \<open>A connected connection whose input buffer holds the bytes \<open>xs\<close>.\<close>

lemma demo_request:
  assumes "length xs \<le> 1024"
  obtains w :: demo_net where "net_inv id closed {1} {0} w" and "readable (InputBuffer (conns w 0)) = xs"
    and "state (conns w 0) = kConnected" and "conn_alive w 0" and "conn_fd (conns w 0) = 5"
    and "OutputBuffer (conns w 0) = new_Buffer kInitialSize"
    and "sockets w = sockets (demo_net 5 kConnected [])"
proof -
  obtain b where b: "buf_inv b" "readable b = xs" by (rule filled_buffer [OF assms])
  let ?w = "upd_conn 0 (\<lambda>conn. conn\<lparr>InputBuffer := b\<rparr>) (demo_net 5 kConnected [])"
  have "net_inv id closed {1} {0} ?w" by (rule input_inv [OF demo_net_inv _ b(1)]) simp
  then show thesis by (rule that) (simp_all add: b(2))
qed

lemma demo_write_answer:
  "sockets w = sockets (demo_net 5 kConnected []) \<Longrightarrow> conn_fd (conns w 0) = 5 \<Longrightarrow>
     fst (sys_write demo_net_sys (sockets w) (conn_fd (conns w 0)) d) = WrOk (min 4 (length d))"
  by (simp add: demo_net_sys_def demo_write_def)

lemma default_callback:
  "DefaultHttpCallback req r = SetKeepAlive False (r\<lparr>StateCode := 404, StateMessage := ''Not Found''\<rparr>)"
  by (simp add: DefaultHttpCallback_def SetStateCode_def SetSateMessage_def)

lemma default_answer: "response_bytes demo_order (DefaultHttpCallback req new_HttpResponse) =
    ''HTTP/1.1 404 Not Found'' @ kCRLF @ ''Connection: close'' @ kCRLF @ ''Content-Length: 0'' @ kCRLF @ kCRLF"
  by (simp add: response_bytes_def default_callback demo_order_def new_HttpResponse_def SetKeepAlive_def
      SetHeader_def response_version_def header_bytes_def dec_int_def dec_nat.simps digit_char_def
      char_of_eq_iff Let_def)

theorem OnMessage_serves_witness:
  "\<exists>w w' :: demo_net. readable (InputBuffer (conns w 0)) = ''GET / HTTP/1.1'' @ kCRLF @ kCRLF \<and>
     OnMessage demo_net_sys echo demo_order DefaultHttpCallback 0 ts_zero w = Inr w' \<and>
     stream taken 0 w' = ''HTTP/1.1 404 Not Found'' @ kCRLF @ ''Connection: close'' @ kCRLF @
        ''Content-Length: 0'' @ kCRLF @ kCRLF \<and>
     state (conns w' 0) = kDisconnecting"
proof -
  let ?xs = "''GET / HTTP/1.1'' @ kCRLF @ kCRLF"
  let ?r = "new_HttpRequest\<lparr>method_of := GET, url := ''/'', parse_state := kdown\<rparr>"
  let ?a = "''HTTP/1.1 404 Not Found'' @ kCRLF @ ''Connection: close'' @ kCRLF @ ''Content-Length: 0'' @ kCRLF @ kCRLF"
  have "length ?xs \<le> 1024" by (simp add: kCRLF_def)
  then obtain w :: demo_net where w: "net_inv id closed {1} {0} w" "readable (InputBuffer (conns w 0)) = ?xs"
    "state (conns w 0) = kConnected" "conn_alive w 0" "conn_fd (conns w 0) = 5"
    "OutputBuffer (conns w 0) = new_Buffer kInitialSize" "sockets w = sockets (demo_net 5 kConnected [])"
    by (rule demo_request)
  have p: "parse_bytes (Suc (length (readable (InputBuffer (conns w 0))))) ts_zero
      (readable (InputBuffer (conns w 0))) new_HttpRequest = (True, [], ?r)"
    unfolding w(2) by (simp add: request_eval)
  have a: "?a = response_bytes demo_order (DefaultHttpCallback ?r new_HttpResponse)"
    by (simp only: default_answer)
  have k: "res_headers (DefaultHttpCallback ?r new_HttpResponse) ''Connection'' = Some ''close''"
    by (simp add: DefaultHttpCallback_def SetKeepAlive_def SetHeader_def)
  have len: "length ?a \<le> kInitialSize" "length ?a \<le> writeable (OutputBuffer (conns w 0))"
    by (simp_all add: w(6) kCRLF_def kInitialSize_def)
  have acc: "acceptable ?r" by (simp add: acceptable_def)
  have "stream taken 0 w = []" by (simp add: stream_def w(5,6,7))
  moreover have "fst (sys_write demo_net_sys (sockets w) (conn_fd (conns w 0)) ?a) \<noteq> WrErr EPIPE"
    "fst (sys_write demo_net_sys (sockets w) (conn_fd (conns w 0)) ?a) \<noteq> WrErr ECONNRESET"
    by (simp_all only: demo_write_answer [OF w(7,5)] wr_result.distinct not_False_eq_True)
  ultimately show ?thesis
    using OnMessage_serves [where HttpCallback = DefaultHttpCallback and order = demo_order and c = 0
        and req = ?r and usr = echo, OF demo_socket_laws demo_epoll w(1) _ w(3,4) p acc a len k] w(2)
    by auto
qed

theorem split_request_refused_witness:
  "\<exists>(w :: demo_net) b. readable (InputBuffer (conns w 0)) = ''Host: me'' @ kCRLF @ kCRLF \<and>
     OnMessage demo_net_sys echo demo_order DefaultHttpCallback 0 ts_zero w =
       bindR (SendInLoop demo_net_sys 0 bad_request (upd_conn 0 (\<lambda>conn. conn\<lparr>InputBuffer := b\<rparr>) w))
         (shutdown demo_net_sys echo True 0)"
proof -
  let ?xs = "''Host: me'' @ kCRLF @ kCRLF"
  have "length ?xs \<le> 1024" by (simp add: kCRLF_def)
  then obtain w :: demo_net where w: "net_inv id closed {1} {0} w" "readable (InputBuffer (conns w 0)) = ?xs"
    "state (conns w 0) = kConnected" by (rule demo_request)
  have h: "CHR 0x0D \<notin> set (''Host'' @ ''me'') \<and> CHR '' '' \<notin> set ''Host'' \<and>
      readable (InputBuffer (conns w 0)) = ''Host'' @ '': '' @ ''me'' @ kCRLF @ kCRLF"
    by (simp add: w(2))
  from split_request_refused [OF w(1) _ w(3), THEN conjunct2, THEN mp, OF _ h] w(2) show ?thesis by blast
qed

theorem http_server_keeps_streams_witness:
  "\<exists>w'. foldR (do_conn_op demo_net_sys (http_usr demo_net_sys demo_order DefaultHttpCallback {0}))
        [OpWritable 0] demo_draining = Inr w' \<and> prefix (stream taken 0 demo_draining) (stream taken 0 w')"
proof -
  obtain w' where "HandleWrite demo_net_sys 0 demo_draining = Inr w'"
    using HandleWrite_keeps [OF demo_socket_laws demo_epoll demo_draining_inv, of 0] by auto
  then have run: "foldR (do_conn_op demo_net_sys (http_usr demo_net_sys demo_order DefaultHttpCallback {0}))
      [OpWritable 0] demo_draining = Inr w'" by simp
  from http_server_keeps_streams [OF demo_socket_laws demo_epoll demo_draining_inv _ run] run show ?thesis
    by auto
qed

end
