(* ===== verification/Http_Stack.thy ===== *)
theory Http_Stack
  imports Tcp_Server Http_Server
begin

text \<open>
  \<^verbatim>\<open>HttpServer\<close> on top of \<^verbatim>\<open>TcpServer\<close>: its constructor and forwarding functions, and
  the way of a request through the layers, from the acceptor over the pool's loop and the
  channel to the parser, the user's callback, the response and the socket.
\<close>

section \<open>The HTTP server\<close>

text \<open>The only callback the HTTP server sets on its \<^verbatim>\<open>TcpServer\<close> is the message callback.\<close>

definition new_HttpServer :: "'s sock_sys \<Rightarrow> nat \<Rightarrow> sockaddr_in \<Rightarrow> string \<Rightarrow> bool \<Rightarrow>
    ('t, 'k, 'e, 's, unit, 'z) srv \<Rightarrow> ('t, 'k, 'e, 's, unit, 'z) srv res" where
  "new_HttpServer sock r ListenAddr name ReusePort w =
     bindR (new_TcpServer sock r ListenAddr name ReusePort w)
       (\<lambda>w. Inr (srv_SetMessageCallback (Some ()) w))"

definition http_SetThreadNum :: "32 word \<Rightarrow>
    ('t, 'k, 'e, 's, unit, 'z) srv \<Rightarrow> ('t, 'k, 'e, 's, unit, 'z) srv" where
  "http_SetThreadNum num w = server_SetThreadNum num w"

definition http_start :: "'s sock_sys \<Rightarrow> ('k, 'e, 's) net_sys \<Rightarrow> (nat \<Rightarrow> ('k, 'e) thread_answers) \<Rightarrow>
    ('t, 'k, 'e, 's, unit, 'z) srv \<Rightarrow> (nat list \<times> ('t, 'k, 'e, 's, unit, 'z) srv) res" where
  "http_start sock sys threads w = start_server sock sys threads False w"

text \<open>What a call of the message callback does.\<close>

definition http_app :: "('k, 'e, 's) net_sys \<Rightarrow> ((string \<Rightarrow> string option) \<Rightarrow> string list) \<Rightarrow>
    (http_request \<Rightarrow> http_response \<Rightarrow> http_response) \<Rightarrow>
    unit srv_callback user_call \<Rightarrow> ('t, 'k, 'e, 's, unit, 'z) srv \<Rightarrow> ('t, 'k, 'e, 's, unit, 'z) srv res" where
  "http_app sys order HttpCallback u w =
     (case u of MessageCall f c t \<Rightarrow> OnMessage sys (\<lambda>_. Inr) order HttpCallback c t w | _ \<Rightarrow> Inr w)"

section \<open>A connection comes into a loop\<close>

lemma new_channel_inv:
  assumes inv: "poller_inv reg L p" and r: "r \<notin> L"
    and f: "\<forall>q\<in>L. fd (chans p q) \<noteq> f" "channels p f = None" "reg (epoll p) f = None"
  shows "poller_inv reg (insert r L) (upd_chan r (\<lambda>_. conn_channel c f) p)"
  by (rule poller_inv_insert [OF inv r _ _ f])
    (simp_all add: conn_channel_def SetWriteCallback_def SetReadCallback_def new_Channel_def)

lemma new_conn_inv:
  assumes inv: "net_inv reg shut L C v" and fresh: "c \<notin> C" "r \<notin> L"
    and f: "\<forall>q\<in>L. fd (chans (poller_of v) q) \<noteq> f" "channels (poller_of v) f = None"
      "reg (epoll (poller_of v)) f = None" "\<not> shut (sockets v) f"
    and v': "conns v' = (conns v)(c := served_conn w name f r)" "sockets v' = sockets v"
      "poller_of v' = upd_chan r (\<lambda>_. conn_channel c f) (poller_of v)"
  shows "net_inv reg shut (insert r L) (insert c C) v'"
  unfolding net_inv_def
proof (intro conjI ballI)
  have P: "poller_inv reg L (poller_of v)" using inv by (simp add: net_inv_def)
  show "poller_inv reg (insert r L) (poller_of v')"
    unfolding v' by (rule new_channel_inv [OF P fresh(2) f(1-3)])
  have ne: "d \<noteq> c" "channel_of (conns v d) \<noteq> r" if "d \<in> C" for d
    using that fresh net_invD(2) [OF inv that] by auto
  have old: "conns v' d = conns v d" if "d \<in> C" for d using ne(1) [OF that] by (simp add: v')
  have new: "conns v' c = served_conn w name f r" by (simp add: v')
  have "inj_on (\<lambda>d. channel_of (conns v d)) C" using inv by (simp add: net_inv_def)
  then have "inj_on (\<lambda>d. channel_of (conns v' d)) C" by (simp add: inj_on_def old)
  then show "inj_on (\<lambda>d. channel_of (conns v' d)) (insert c C)"
    using ne(2) by (auto simp: old new served_conn_def)
  fix d assume d: "d \<in> insert c C"
  show "channel_of (conns v' d) \<in> insert r L"
    using d net_invD(2) [OF inv] by (auto simp: old new served_conn_def)
  show "conn_good (conns v' d) (fd (conn_chan v' d)) (isWriting (conn_chan v' d))
      (shut (sockets v') (conn_fd (conns v' d)))"
  proof (cases "d = c")
    case True
    have "conn_chan v' c = conn_channel c f"
      by (simp add: conn_chan_def v' served_conn_def upd_chan_def)
    then show ?thesis
      using True f(4) by (simp add: new v'(2) conn_good_def served_conn_def conn_channel_def isWriting_def
          SetWriteCallback_def SetReadCallback_def new_Channel_def kInitialSize_inv)
  next
    case False
    with d have d: "d \<in> C" by simp
    have "conn_chan v' d = conn_chan v d"
      using ne(2) [OF d] by (simp add: conn_chan_def v' old [OF d] upd_chan_def ne(1) [OF d])
    with d inv show ?thesis by (simp add: old v'(2) net_inv_def)
  qed
qed

text \<open>Accepting a connection and establishing it in the loop it goes to.\<close>

lemma connection_opened:
  assumes srv: "srv_inv w" "length (srv_IpPort w) \<le> 40" "sint (NextConnectionId w) < 2 ^ 31 - 1"
      "\<forall>name. connections w name \<noteq> Some c"
      "i = AllLoops (ThreadPool w) ! unat (next_loop (ThreadPool w))" "i \<noteq> here w"
      "name = connection_name (srv_name w) (srv_IpPort w) (NextConnectionId w)"
    and epoll: "epoll_laws (sys_ctl (lsys sys)) reg"
    and loop: "net_inv reg shut L C (switch i w)" "c \<notin> C" "r \<notin> L"
      "\<forall>q\<in>L. fd (chans (poller_of (switch i w)) q) \<noteq> sockfd" "channels (poller_of (switch i w)) sockfd = None"
      "reg (epoll (poller_of (switch i w))) sockfd = None" "\<not> shut (sockets w) sockfd"
    and cb: "srv_ConnectionCallback w = None"
  obtains w1 w2 where "NewConnection sys app c r sockfd w = Inr w1"
    and "run_srv sys app (ConnectEstablishedF c) (switch i w1) = Inr w2"
    and "net_inv reg shut (insert r L) (insert c C) w2"
    and "conns w2 c = (served_conn w name sockfd r)\<lparr>state := kConnected\<rparr>"
    and "sockets w2 = sockets w" and "conn_alive w2 c"
    and "\<exists>ev. reg (epoll (poller_of w2)) sockfd = Some \<lparr>ev_events = ev, ev_ptr = r\<rparr> \<and>
      ev AND (POLLIN OR POLLPRI) \<noteq> 0"
proof -
  obtain w1 where w1: "NewConnection sys app c r sockfd w = Inr w1"
    "conns w1 = (conns w)(c := served_conn w name sockfd r)" "conn_alive w1 = (conn_alive w)(c := True)"
    "sockets w1 = sockets w"
    "loop_at i w1 = QueueInLoop (lsys sys) False (UserF (ConnectEstablishedF c))
      ((loop_at i w)\<lparr>poller_of := upd_chan r (\<lambda>_. conn_channel c sockfd) (poller_of (loop_at i w))\<rparr>)"
    by (rule NewConnection_effect [OF srv])
  let ?v = "switch i w1"
  have v: "poller_of ?v = upd_chan r (\<lambda>_. conn_channel c sockfd) (poller_of (switch i w))"
    using current_loop(1) [of ?v] current_loop(1) [of "switch i w"] by (simp add: w1(5))
  have inv: "net_inv reg shut (insert r L) (insert c C) ?v"
    by (rule new_conn_inv [OF loop(1-6), where v' = ?v and w = w and name = name])
      (use loop(7) w1 v in simp_all)
  then have s: "stream_inv reg shut (\<lambda>_ _. []) (insert r L) (insert c C) (\<lambda>_. []) ?v"
    using net_inv_stream by blast
  have cv: "conns ?v c = served_conn w name sockfd r" by (simp add: w1)
  then have st: "state (conns ?v c) = kConnecting" by (simp add: served_conn_def)
  obtain w2 where w2: "\<And>usr. ConnectEstablished sys usr c ?v =
      call_user usr (\<lambda>f. ConnectionCall f c) (ConnectionCallback (conns w2 c)) w2"
    "stream_inv reg shut (\<lambda>_ _. []) (insert r L) (insert c C) (\<lambda>_. []) w2" "sockets w2 = sockets ?v"
    "conns w2 = (conns ?v)(c := (conns ?v c)\<lparr>state := kConnected\<rparr>)" "conn_alive w2 = conn_alive ?v"
    "isReading (conn_chan w2 c)" "ch_state (conn_chan w2 c) = ADD"
    by (rule ConnectEstablished_opens [OF epoll s _ st]) auto
  have n2: "net_inv reg shut (insert r L) (insert c C) w2" using w2(2) net_inv_stream by blast
  have c2: "conns w2 c = (served_conn w name sockfd r)\<lparr>state := kConnected\<rparr>" by (simp add: w2(4) w1(2))
  have "ConnectionCallback (conns w2 c) = None" using cb by (simp add: c2 served_conn_def)
  then have run: "run_srv sys app (ConnectEstablishedF c) ?v = Inr w2"
    by (simp add: w2(1) call_user_def)
  note I = net_invD [OF n2, of c]
  have "reg (epoll (poller_of w2)) sockfd = Some \<lparr>ev_events = events (conn_chan w2 c), ev_ptr = r\<rparr>"
    using poller_invD(2) [OF I(1,2)] I(3) w2(7) by (simp add: conn_chan_def c2 served_conn_def)
  moreover have "events (conn_chan w2 c) AND (POLLIN OR POLLPRI) \<noteq> 0" using w2(6) by (simp add: isReading_def)
  ultimately show thesis using that w1(1,3,4) run n2 c2 w2(3,5) by simp
qed


text \<open>A request for \<^verbatim>\<open>/\<close> has arrived on the descriptor 6; nothing is served yet.\<close>

definition demo_http :: demo_server where
  "demo_http = (demo_srv 0 Map.empty)\<lparr>srv_MessageCallback := Some (),
     sockets := \<lparr>taken = (\<lambda>_. []), closed = (\<lambda>_. False), inbox = (\<lambda>_. ''GET / HTTP/1.1'' @ kCRLF @ kCRLF)\<rparr>\<rparr>"

lemma demo_http_facts:
  "srv_inv demo_http" "length (srv_IpPort demo_http) \<le> 40" "NextConnectionId demo_http = 1"
  "connections demo_http = Map.empty" "here demo_http = 0" "AllLoops (ThreadPool demo_http) = [1, 2]"
  "next_loop (ThreadPool demo_http) = 0" "srv_ConnectionCallback demo_http = None"
  "srv_MessageCallback demo_http = Some ()" "taken (sockets demo_http) = (\<lambda>_. [])"
  "closed (sockets demo_http) = (\<lambda>_. False)" "inbox (sockets demo_http) = (\<lambda>_. ''GET / HTTP/1.1'' @ kCRLF @ kCRLF)"
  "channels (poller_of (switch (Suc 0) demo_http)) = Map.empty" "epoll (poller_of (switch (Suc 0) demo_http)) = (\<lambda>_. None)"
  "net_inv id closed {} {} (switch (Suc 0) demo_http)"
  using demo_srv_inv(1) [of 0] current_loop(1) [of "switch (Suc 0) demo_http"]
  by (simp_all add: srv_inv_def demo_http_def net_inv_def poller_inv_def)
    (simp_all add: demo_srv_def Let_def loop_at_def event_loop.defs)


end
