(* ===== verification/Loop_Life.thy ===== *)
theory Loop_Life
  imports Event_Loop
begin

unbundle bit_operations_syntax

text \<open>
  The life of a loop, from the constructor of src/net/EventLoop.cpp to the destructor: what a
  new loop has registered in the kernel, and that the destructor takes exactly that back.
\<close>

section \<open>New channels\<close>

text \<open>A channel on an unused descriptor is made, given its callback, and enabled for reading.\<close>

lemma made_channel: "upd_chan r (SetReadCallback h) (upd_chan r (\<lambda>_. new_Channel f) p) =
    upd_chan r (\<lambda>_. SetReadCallback h (new_Channel f)) p"
  by (simp add: upd_chan_def)

lemma poller_inv_new:
  assumes "poller_inv reg L p" and "r \<notin> L" and "\<forall>q\<in>L. fd (chans p q) \<noteq> f"
    and "channels p f = None" and "reg (epoll p) f = None"
  shows "poller_inv reg (insert r L) (upd_chan r (\<lambda>_. SetReadCallback h (new_Channel f)) p)"
  by (rule poller_inv_insert [OF assms(1,2) _ _ assms(3-5)]) (simp_all add: new_Channel_def SetReadCallback_def)

lemma enable_fresh:
  assumes laws: "epoll_laws ctl reg" and inv: "poller_inv reg L p" and r: "r \<notin> L"
    and unused: "\<forall>q\<in>L. fd (chans p q) \<noteq> f" "channels p f = None" "reg (epoll p) f = None"
  obtains p' where "EnableReading ctl r (upd_chan r (\<lambda>_. SetReadCallback h (new_Channel f)) p) = Inr p'"
    and "poller_inv reg (insert r L) p'" and "fd (chans p' r) = f" and "\<And>q. q \<noteq> r \<Longrightarrow> chans p' q = chans p q"
    and "channels p' = (channels p)(f \<mapsto> r)"
    and "reg (epoll p') = (reg (epoll p))(f \<mapsto> \<lparr>ev_events = POLLIN OR POLLPRI, ev_ptr = r\<rparr>)"
    and "ReadCallback (chans p' r) = Some h"
proof -
  let ?p = "upd_chan r (\<lambda>_. SetReadCallback h (new_Channel f)) p"
  have c: "chans ?p r = SetReadCallback h (new_Channel f)" "fd (chans ?p r) = f"
    "events (chans ?p r) = 0" "ch_state (chans ?p r) = NEW"
    "ReadCallback (chans ?p r) = Some h" "channels ?p = channels p" "epoll ?p = epoll p"
    "\<And>q. q \<noteq> r \<Longrightarrow> chans ?p q = chans p q"
    by (simp_all add: upd_chan_def SetReadCallback_def new_Channel_def)
  have r': "r \<in> insert r L" by simp
  note inv' = poller_inv_new [OF inv r unused, of h]
  obtain k' where k: "change_events ctl (\<lambda>e. e OR (POLLIN OR POLLPRI)) r ?p =
      Inr (?p\<lparr>chans := (chans ?p)(r := changed (\<lambda>e. e OR (POLLIN OR POLLPRI)) (chans ?p r)),
             channels := (channels ?p)(fd (chans ?p r) \<mapsto> r), epoll := k'\<rparr>)"
    and reg: "reg k' = (reg (epoll ?p))(fd (chans ?p r) :=
           (if ch_state (chans ?p r) = ADD \<and> events (chans ?p r) OR (POLLIN OR POLLPRI) = 0 then None
            else Some \<lparr>ev_events = events (chans ?p r) OR (POLLIN OR POLLPRI), ev_ptr = r\<rparr>))"
    by (rule change_events_spec [OF laws inv' r'])
  obtain p' where p': "change_events ctl (\<lambda>e. e OR (POLLIN OR POLLPRI)) r ?p = Inr p'" "poller_inv reg (insert r L) p'"
    by (rule change_events_inv [OF laws inv' r'])
  have eq: "p' = ?p\<lparr>chans := (chans ?p)(r := changed (\<lambda>e. e OR (POLLIN OR POLLPRI)) (chans ?p r)),
             channels := (channels ?p)(fd (chans ?p r) \<mapsto> r), epoll := k'\<rparr>"
    using p'(1) k by simp
  show thesis
  proof (rule that [of p'])
    show "EnableReading ctl r ?p = Inr p'" by (simp only: EnableReading_def p'(1))
    show "poller_inv reg (insert r L) p'" by (rule p'(2))
  qed (use reg c in \<open>simp_all add: eq changed_def\<close>)
qed

section \<open>The constructor\<close>

text \<open>
  The channels \<open>L\<close> of the loop's users are in the store already, on descriptors of their own and
  not registered.
\<close>

definition users_ready :: "nat set \<Rightarrow> int set \<Rightarrow> (nat \<Rightarrow> 'cb channel) \<Rightarrow> bool" where
  "users_ready L taken heap \<longleftrightarrow> inj_on (\<lambda>r. fd (heap r)) L \<and>
     (\<forall>r\<in>L. ch_state (heap r) = NEW \<and> fd (heap r) \<notin> taken)"

lemma new_EventLoop_value:
  assumes laws: "epoll_laws (sys_ctl sys) reg" and fresh: "reg k = Map.empty"
    and refs: "tr \<noteq> wr" "tr \<notin> L" "wr \<notin> L" and users: "users_ready L {tfd, evfd} heap" and "tfd \<noteq> evfd"
  obtains p where "new_EventLoop sys other heap k e (epfd, tfd, evfd) (tr, wr) num clk =
     (if epfd < 0 \<or> tfd < 0 \<or> evfd < 0 \<or> other then Inl Abort
      else Inr (timer_queue.extend new_TimerQueue
               \<lparr>isLooping = False, quit_flag = False, callable = False, PollreturnTime = ts_zero,
                poller_of = p, wakeupFd = e, WakeupChannel = wr, ActiveChannels = [],
                functors = [], TotalNum = num, clock = clk\<rparr>))"
    and "poller_inv reg (insert wr (insert tr L)) p"
    and "fd (chans p tr) = tfd" and "fd (chans p wr) = evfd" and "\<And>r. r \<in> L \<Longrightarrow> chans p r = heap r"
    and "reg (epoll p) = [tfd \<mapsto> \<lparr>ev_events = POLLIN OR POLLPRI, ev_ptr = tr\<rparr>,
                          evfd \<mapsto> \<lparr>ev_events = POLLIN OR POLLPRI, ev_ptr = wr\<rparr>]"
    and "channels p = [tfd \<mapsto> tr, evfd \<mapsto> wr]"
proof -
  define p0 where
    "p0 = \<lparr>chans = heap, channels = Map.empty, epoll = k, events_size = InitEventListSize\<rparr>"
  have "poller_inv reg L p0" "\<forall>q\<in>L. fd (chans p0 q) \<noteq> tfd" "channels p0 tfd = None" "reg (epoll p0) tfd = None"
    using fresh users by (auto simp: poller_inv_def p0_def users_ready_def)
  from enable_fresh [OF laws this(1) refs(2) this(2-4), of TimerQueueRead] obtain p1 where
    p1: "EnableReading (sys_ctl sys) tr (upd_chan tr (\<lambda>_. SetReadCallback TimerQueueRead (new_Channel tfd)) p0) = Inr p1"
      "poller_inv reg (insert tr L) p1" "fd (chans p1 tr) = tfd" "channels p1 = (channels p0)(tfd \<mapsto> tr)"
      "reg (epoll p1) = (reg (epoll p0))(tfd \<mapsto> \<lparr>ev_events = POLLIN OR POLLPRI, ev_ptr = tr\<rparr>)"
    and other1: "\<And>q. q \<noteq> tr \<Longrightarrow> chans p1 q = chans p0 q" by blast
  have eq1: "chans p1 q = heap q" if "q \<in> L" for q using other1 [of q] that refs by (auto simp: p0_def)
  have "wr \<notin> insert tr L" "\<forall>q\<in>insert tr L. fd (chans p1 q) \<noteq> evfd" "channels p1 evfd = None"
    "reg (epoll p1) evfd = None"
    using fresh refs assms(7) p1(3-5) eq1 users by (auto simp: p0_def users_ready_def)
  from enable_fresh [OF laws p1(2) this, of EventLoopRead] obtain p3 where
    p3: "EnableReading (sys_ctl sys) wr (upd_chan wr (\<lambda>_. SetReadCallback EventLoopRead (new_Channel evfd)) p1) = Inr p3"
      "poller_inv reg (insert wr (insert tr L)) p3" "fd (chans p3 wr) = evfd"
      "channels p3 = (channels p1)(evfd \<mapsto> wr)"
      "reg (epoll p3) = (reg (epoll p1))(evfd \<mapsto> \<lparr>ev_events = POLLIN OR POLLPRI, ev_ptr = wr\<rparr>)"
    and other3: "\<And>q. q \<noteq> wr \<Longrightarrow> chans p3 q = chans p1 q" by blast
  show thesis
  proof (rule that [of p3])
    show "new_EventLoop sys other heap k e (epfd, tfd, evfd) (tr, wr) num clk =
     (if epfd < 0 \<or> tfd < 0 \<or> evfd < 0 \<or> other then Inl Abort
      else Inr (timer_queue.extend new_TimerQueue
               \<lparr>isLooping = False, quit_flag = False, callable = False, PollreturnTime = ts_zero,
                poller_of = p3, wakeupFd = e, WakeupChannel = wr, ActiveChannels = [],
                functors = [], TotalNum = num, clock = clk\<rparr>))"
      using p1(1) p3(1)
      by (simp add: new_EventLoop_def new_Poller_def new_TimerQueue_in_def CreateTimerfd_def CreateEventfd_def
          p0_def [symmetric] Let_def made_channel)
    show "fd (chans p3 tr) = tfd" using other3 [of tr] refs(1) p1(3) by simp
    show "chans p3 r = heap r" if "r \<in> L" for r using other3 [of r] eq1 [OF that] refs(3) that by auto
  qed (use p3 p1(4,5) fresh in \<open>simp_all add: p0_def\<close>)
qed

lemma new_EventLoop_Inr:
  assumes laws: "epoll_laws (sys_ctl sys) reg" and fresh: "reg k = Map.empty"
    and refs: "tr \<noteq> wr" "tr \<notin> L" "wr \<notin> L" and users: "users_ready L {tfd, evfd} heap" and fds: "tfd \<noteq> evfd"
    and made: "new_EventLoop sys other heap k e (epfd, tfd, evfd) (tr, wr) num clk =
      Inr (l :: ('t, 'c, 'k, 'e, 'u) event_loop)"
  shows "WakeupChannel l = wr" and "channels (poller_of l) = [tfd \<mapsto> tr, evfd \<mapsto> wr]" and "poller_inv reg (insert wr (insert tr L)) (poller_of l)"
    and "fd (chans (poller_of l) tr) = tfd" and "fd (chans (poller_of l) wr) = evfd"
    and "r \<in> L \<Longrightarrow> chans (poller_of l) r = heap r"
    and "reg (epoll (poller_of l)) = [tfd \<mapsto> \<lparr>ev_events = POLLIN OR POLLPRI, ev_ptr = tr\<rparr>,
                          evfd \<mapsto> \<lparr>ev_events = POLLIN OR POLLPRI, ev_ptr = wr\<rparr>]"
proof -
  obtain p where eq: "(new_EventLoop sys other heap k e (epfd, tfd, evfd) (tr, wr) num clk
        :: ('t, 'c, 'k, 'e, 'u) event_loop res) =
     (if epfd < 0 \<or> tfd < 0 \<or> evfd < 0 \<or> other then Inl Abort
      else Inr (timer_queue.extend new_TimerQueue
               \<lparr>isLooping = False, quit_flag = False, callable = False, PollreturnTime = ts_zero,
                poller_of = p, wakeupFd = e, WakeupChannel = wr, ActiveChannels = [],
                functors = [], TotalNum = num, clock = clk\<rparr>))"
    and p: "poller_inv reg (insert wr (insert tr L)) p" "fd (chans p tr) = tfd" "fd (chans p wr) = evfd"
      "\<And>r. r \<in> L \<Longrightarrow> chans p r = heap r"
      "reg (epoll p) = [tfd \<mapsto> \<lparr>ev_events = POLLIN OR POLLPRI, ev_ptr = tr\<rparr>,
                        evfd \<mapsto> \<lparr>ev_events = POLLIN OR POLLPRI, ev_ptr = wr\<rparr>]"
      "channels p = [tfd \<mapsto> tr, evfd \<mapsto> wr]"
    by (rule new_EventLoop_value [OF laws fresh refs users fds, of other e epfd num clk]) (rule that)
  from made eq have "poller_of l = p" "WakeupChannel l = wr"
    by (auto simp: timer_queue.defs split: if_splits)
  with p show "WakeupChannel l = wr" "channels (poller_of l) = [tfd \<mapsto> tr, evfd \<mapsto> wr]" "poller_inv reg (insert wr (insert tr L)) (poller_of l)"
    "fd (chans (poller_of l) tr) = tfd" "fd (chans (poller_of l) wr) = evfd"
    "r \<in> L \<Longrightarrow> chans (poller_of l) r = heap r"
    "reg (epoll (poller_of l)) = [tfd \<mapsto> \<lparr>ev_events = POLLIN OR POLLPRI, ev_ptr = tr\<rparr>,
                          evfd \<mapsto> \<lparr>ev_events = POLLIN OR POLLPRI, ev_ptr = wr\<rparr>]"
    by simp_all
qed

text \<open>
  A new loop. The constructor ends the process exactly if one of the three descriptors
  could not be created or the thread has a loop already. Otherwise the poller's invariant
  holds for its two channels, and in the fresh kernel instance exactly the timer descriptor
  and the eventfd are registered, both for reading; no timer is pending, nothing is queued.
\<close>

theorem new_EventLoop_exact:
  assumes "epoll_laws (sys_ctl sys) reg" and "reg k = Map.empty" and "tr \<noteq> wr" and "tfd \<noteq> evfd"
  shows "case (new_EventLoop sys other heap k e (epfd, tfd, evfd) (tr, wr) num clk
        :: ('t, 'c, 'k, 'e, 'u) event_loop res) of
      Inl f \<Rightarrow> f = Abort \<and> (epfd < 0 \<or> tfd < 0 \<or> evfd < 0 \<or> other)
    | Inr l \<Rightarrow> 0 \<le> epfd \<and> 0 \<le> tfd \<and> 0 \<le> evfd \<and> \<not> other \<and>
        poller_inv reg {tr, wr} (poller_of l) \<and> WakeupChannel l = wr \<and>
        fd (chans (poller_of l) tr) = tfd \<and> fd (chans (poller_of l) wr) = evfd \<and>
        reg (epoll (poller_of l)) = [tfd \<mapsto> \<lparr>ev_events = POLLIN OR POLLPRI, ev_ptr = tr\<rparr>,
                                    evfd \<mapsto> \<lparr>ev_events = POLLIN OR POLLPRI, ev_ptr = wr\<rparr>] \<and>
        timers l = [] \<and> quiet l \<and> functors l = [] \<and> \<not> isLooping l \<and> \<not> quit_flag l"
proof -
  have empty: "users_ready {} {tfd, evfd} heap" "tr \<notin> {}" "wr \<notin> {}" by (simp_all add: users_ready_def)
  obtain p where made: "(new_EventLoop sys other heap k e (epfd, tfd, evfd) (tr, wr) num clk
        :: ('t, 'c, 'k, 'e, 'u) event_loop res) =
     (if epfd < 0 \<or> tfd < 0 \<or> evfd < 0 \<or> other then Inl Abort
      else Inr (timer_queue.extend new_TimerQueue
               \<lparr>isLooping = False, quit_flag = False, callable = False, PollreturnTime = ts_zero,
                poller_of = p, wakeupFd = e, WakeupChannel = wr, ActiveChannels = [],
                functors = [], TotalNum = num, clock = clk\<rparr>))"
    and p: "poller_inv reg {wr, tr} p" "fd (chans p tr) = tfd" "fd (chans p wr) = evfd"
      "reg (epoll p) = [tfd \<mapsto> \<lparr>ev_events = POLLIN OR POLLPRI, ev_ptr = tr\<rparr>,
                        evfd \<mapsto> \<lparr>ev_events = POLLIN OR POLLPRI, ev_ptr = wr\<rparr>]"
    by (rule new_EventLoop_value [OF assms(1-3) empty(2,3,1) assms(4)])
  show ?thesis
    unfolding made using p by (simp add: timer_queue.defs new_TimerQueue_def quiet_def insert_commute)
qed

section \<open>Requests and the destructor\<close>

text \<open>A channel that has been removed stays out: the kernel does not watch its descriptor.\<close>

lemma remove_last:
  assumes "epoll_laws ctl reg" and "poller_inv reg M p" and "r \<in> M"
    and "foldR (do_request ctl) [ReqDisableAll r, ReqRemove r] p = Inr p'"
  shows "ch_state (chans p' r) = NEW"
  using assms(4) by (auto simp: RemoveChannel_def Let_def upd_chan_def SetState_def)

lemma destroy_requests:
  assumes laws: "epoll_laws (sys_ctl sys) reg" and inv: "poller_inv reg M (poller_of l)"
    and only: "watches_only reg M (poller_of l)" and tr: "tr \<in> M" and wr: "WakeupChannel l \<in> M" "tr \<noteq> WakeupChannel l"
  obtains p where "destroy_EventLoop sys tr epfd l =
      Inr ([fd (chans (poller_of l) (WakeupChannel l)), fd (chans (poller_of l) tr), epfd], l\<lparr>poller_of := p\<rparr>)"
    and "poller_inv reg M p" and "watches_only reg M p"
    and "\<And>r. r \<noteq> tr \<Longrightarrow> r \<noteq> WakeupChannel l \<Longrightarrow> chans p r = chans (poller_of l) r"
    and "\<And>r. fd (chans p r) = fd (chans (poller_of l) r)"
    and "ch_state (chans p tr) = NEW" and "ch_state (chans p (WakeupChannel l)) = NEW"
proof -
  let ?w = "WakeupChannel l"
  from requests_frame [OF laws inv only, of "[ReqDisableAll ?w, ReqRemove ?w]" "{?w}"] wr(1) obtain p1 where
    p1: "foldR (do_request (sys_ctl sys)) [ReqDisableAll ?w, ReqRemove ?w] (poller_of l) = Inr p1"
      "poller_inv reg M p1" "watches_only reg M p1" "\<forall>r. r \<notin> {?w} \<longrightarrow> chans p1 r = chans (poller_of l) r"
      "\<forall>r. fd (chans p1 r) = fd (chans (poller_of l) r)" by auto
  from requests_frame [OF laws p1(2,3), of "[ReqDisableAll tr, ReqRemove tr]" "{tr}"] tr obtain p2 where
    p2: "foldR (do_request (sys_ctl sys)) [ReqDisableAll tr, ReqRemove tr] p1 = Inr p2"
      "poller_inv reg M p2" "watches_only reg M p2" "\<forall>r. r \<notin> {tr} \<longrightarrow> chans p2 r = chans p1 r"
      "\<forall>r. fd (chans p2 r) = fd (chans p1 r)" by auto
  have "ch_state (chans p1 ?w) = NEW" by (rule remove_last [OF laws inv wr(1) p1(1)])
  moreover have "ch_state (chans p2 tr) = NEW" by (rule remove_last [OF laws p1(2) tr p2(1)])
  moreover have "destroy_EventLoop sys tr epfd l =
      Inr ([fd (chans (poller_of l) ?w), fd (chans (poller_of l) tr), epfd], l\<lparr>poller_of := p2\<rparr>)"
    using p1(1,5) p2(1,5)
    by (auto simp: destroy_EventLoop_def delete_TimerQueue_def with_poller_def loop_RemoveChannel_def Let_def)
  ultimately show thesis using that [of p2] p2 p1(4,5) wr(2) by simp
qed

text \<open>
  C12. The life of a loop. A loop is made, its users enable, disable and remove their channels in
  any order, and it is destroyed: nothing of this ends the process, the destructor closes the
  eventfd, the timer descriptor and the epoll instance once each, and what the kernel still
  watches before that is exactly the users' channels that are still added. When the users have
  removed theirs, nothing is left.
\<close>

theorem loop_life:
  assumes "epoll_laws (sys_ctl sys) reg" and "reg k = Map.empty"
    and "tr \<noteq> wr" and "tr \<notin> L" and "wr \<notin> L" and "users_ready L {tfd, evfd} heap" and "tfd \<noteq> evfd"
    and "new_EventLoop sys other heap k e (epfd, tfd, evfd) (tr, wr) num clk = Inr l"
    and "request_chan ` set reqs \<subseteq> L"
  shows "\<exists>p l'. foldR (do_request (sys_ctl sys)) reqs (poller_of l) = Inr p \<and>
    destroy_EventLoop sys tr epfd (l\<lparr>poller_of := p\<rparr>) = Inr ([evfd, tfd, epfd], l') \<and>
    poller_inv reg L (poller_of l') \<and> (\<forall>r\<in>L. chans (poller_of l') r = chans p r) \<and>
    (\<forall>f. reg (epoll (poller_of l')) f \<noteq> None \<longleftrightarrow> (\<exists>r\<in>L. fd (heap r) = f \<and> ch_state (chans p r) = ADD))"
proof -
  let ?M = "insert wr (insert tr L)"
  define p0 where "p0 = poller_of l"
  note made = new_EventLoop_Inr [OF assms(1-8), folded p0_def]
  note p0 = p0_def [symmetric] made(1,3-6) and reg = made(2,7)
  have only: "watches_only reg ?M p0"
    using reg p0(4,5) by (auto simp: watches_only_def watched_fds_def split: if_splits)
  obtain p where p: "foldR (do_request (sys_ctl sys)) reqs p0 = Inr p" "poller_inv reg ?M p"
    "watches_only reg ?M p" "\<forall>r. fd (chans p r) = fd (chans p0 r)"
    using requests_frame [OF assms(1) p0(3) only assms(9)] by blast
  let ?l = "l\<lparr>poller_of := p\<rparr>"
  have M: "tr \<in> ?M" "WakeupChannel ?l \<in> ?M" "tr \<noteq> WakeupChannel ?l" using p0(2) assms(3) by simp_all
  obtain p' where d: "destroy_EventLoop sys tr epfd ?l =
      Inr ([fd (chans (poller_of ?l) (WakeupChannel ?l)), fd (chans (poller_of ?l) tr), epfd], ?l\<lparr>poller_of := p'\<rparr>)"
    and p': "poller_inv reg ?M p'" "watches_only reg ?M p'"
      "\<And>r. r \<noteq> tr \<Longrightarrow> r \<noteq> WakeupChannel ?l \<Longrightarrow> chans p' r = chans (poller_of ?l) r"
      "\<And>r. fd (chans p' r) = fd (chans (poller_of ?l) r)"
      "ch_state (chans p' tr) = NEW" "ch_state (chans p' (WakeupChannel ?l)) = NEW"
    by (rule destroy_requests [OF assms(1) _ _ M, of epfd]) (simp_all add: p(2,3))
  have same: "chans p' r = chans p r" if "r \<in> L" for r
    using p'(3) [of r] p0(2) assms(4,5) that by auto
  have fds: "fd (chans p' r) = fd (chans p0 r)" for r using p'(4) [of r] p(4) by simp
  have left: "reg (epoll p') f \<noteq> None \<longleftrightarrow> (\<exists>r\<in>L. fd (heap r) = f \<and> ch_state (chans p r) = ADD)" for f
  proof
    assume f: "reg (epoll p') f \<noteq> None"
    with p'(2) obtain r where r: "r \<in> ?M" "fd (chans p' r) = f" by (auto simp: watches_only_def watched_fds_def)
    with poller_invD(2) [OF p'(1) r(1)] f have "ch_state (chans p' r) = ADD" by (auto split: if_splits)
    with p'(5,6) p0(2) r have "r \<in> L" by auto
    with r same fds p0(6) \<open>ch_state (chans p' r) = ADD\<close>
    show "\<exists>r\<in>L. fd (heap r) = f \<and> ch_state (chans p r) = ADD" by metis
  next
    assume "\<exists>r\<in>L. fd (heap r) = f \<and> ch_state (chans p r) = ADD"
    then obtain r where r: "r \<in> L" "fd (heap r) = f" "ch_state (chans p r) = ADD" by blast
    moreover from r have "fd (chans p' r) = f" "ch_state (chans p' r) = ADD"
      using same fds [of r] p0(6) by simp_all
    ultimately show "reg (epoll p') f \<noteq> None" using poller_invD(2) [OF p'(1), of r] by auto
  qed
  have "poller_inv reg L p'" using p'(1) by (auto simp: poller_inv_def inj_on_def)
  with p(1) d same left p(4) p0(1,2,4,5) show ?thesis by auto
qed

text \<open>A loop with one user channel on the descriptor 7, which is enabled, then removed.\<close>

theorem loop_life_witness:
  "\<exists>l p l'. fresh_loop = Inr l \<and>
     foldR (do_request epoll_step) [ReqEnableReading 2, ReqEnableWriting 2, ReqRemove 2] (poller_of l) = Inr p \<and>
     destroy_EventLoop quiet_sys 1 3 (l\<lparr>poller_of := p\<rparr>) = Inr ([5, 4, 3], l') \<and>
     epoll (poller_of l') 4 = None \<and> epoll (poller_of l') 5 = None"
proof -
  obtain l where l: "fresh_loop = Inr l" by (rule fresh_loop_facts)
  have new_fd: "fd (new_Channel f) = f" for f by (simp add: new_Channel_def)
  have ctl: "sys_ctl quiet_sys = epoll_step" by (simp add: quiet_sys_def)
  have laws: "epoll_laws (sys_ctl quiet_sys) id" by (simp add: ctl epoll_laws_map)
  have ready: "users_ready {2} {4, 5} (\<lambda>r. new_Channel (6 + int r))"
    by (simp add: users_ready_def new_Channel_def)
  have ids: "id (\<lambda>_. None) = Map.empty" "(1 :: nat) \<noteq> 0" "(1 :: nat) \<notin> {2}" "(0 :: nat) \<notin> {2}" "(4 :: int) \<noteq> 5"
    by simp_all
  have reqs: "request_chan ` set [ReqEnableReading 2, ReqEnableWriting 2, ReqRemove 2] \<subseteq> {2}" by simp
  from loop_life [OF laws ids(1-4) ready ids(5) l [unfolded fresh_loop_def] reqs, unfolded ctl new_fd] obtain p l' where
    "foldR (do_request epoll_step) [ReqEnableReading 2, ReqEnableWriting 2, ReqRemove 2] (poller_of l) = Inr p"
    "destroy_EventLoop quiet_sys 1 3 (l\<lparr>poller_of := p\<rparr>) = Inr ([5, 4, 3], l')"
    "\<forall>f. id (epoll (poller_of l')) f \<noteq> None \<longleftrightarrow> (\<exists>r\<in>{2}. 6 + int r = f \<and> ch_state (chans p r) = ADD)"
    by blast
  moreover from this(3) have "\<not> id (epoll (poller_of l')) 4 \<noteq> None" "\<not> id (epoll (poller_of l')) 5 \<noteq> None"
    by (blast | simp)+
  then have "epoll (poller_of l') 4 = None" "epoll (poller_of l') 5 = None" by simp_all
  ultimately show ?thesis using l by blast
qed

end
