(* ===== verification/Server_Frames.thy ===== *)
theory Server_Frames
  imports Tcp_Server Loop_Life
begin

unbundle bit_operations_syntax

text \<open>
  What the functions that run in the thread of a loop leave alone: the other loops, the map, the
  identity of every connection, the channels of the others. An operation is \<open>tame\<close> if it does,
  up to the channels \<open>R\<close>, and \<open>tidy\<close> says that the poller of the running loop serves the
  channels \<open>L\<close> and no others.
\<close>

section \<open>Frames\<close>

text \<open>A channel is known to the loop's poller if it has been added and not removed.\<close>

definition known :: "nat \<Rightarrow> ('t, 'c, 'k, 'e, 'u, 'z) eloop \<Rightarrow> bool" where
  "known r l \<longleftrightarrow> ch_state (chans (poller_of l) r) \<noteq> NEW"

fun call_conn :: "'x user_call \<Rightarrow> nat" where
  "call_conn (ConnectionCall f c) = c"
| "call_conn (MessageCall f c t) = c"
| "call_conn (WriteCompleteCall f c) = c"
| "call_conn (CloseCall f c) = c"
| "call_conn (HighWaterMarkCall f c n) = c"

fun is_close :: "'x user_call \<Rightarrow> bool" where
  "is_close (CloseCall f c) \<longleftrightarrow> True"
| "is_close u \<longleftrightarrow> False"

definition conn_core :: "'x tcp_connection \<Rightarrow> string \<times> int \<times> nat \<times> 'x option" where
  "conn_core conn = (conn_name conn, conn_fd conn, channel_of conn, conn_CloseCallback conn)"

lemma conn_coreD:
  assumes "conn_core conn = conn_core conn'"
  shows "conn_name conn = conn_name conn'" "conn_fd conn = conn_fd conn'" "channel_of conn = channel_of conn'"
    "conn_CloseCallback conn = conn_CloseCallback conn'"
  using assms by (simp_all add: conn_core_def)

definition same_rest :: "('t, 'k, 'e, 's, 'a, 'z) srv \<Rightarrow> ('t, 'k, 'e, 's, 'a, 'z) srv \<Rightarrow> bool" where
  "same_rest w w' \<longleftrightarrow> here w' = here w \<and> parked w' = parked w \<and> conn_alive w' = conn_alive w \<and>
     conn_loop w' = conn_loop w \<and> connections w' = connections w \<and> ThreadPool w' = ThreadPool w \<and>
     NextConnectionId w' = NextConnectionId w \<and> srv_name w' = srv_name w \<and> srv_IpPort w' = srv_IpPort w \<and>
     server.more w' = server.more w \<and> (\<forall>c. conn_core (conns w' c) = conn_core (conns w c))"

lemma same_restD:
  assumes "same_rest w w'"
  shows "here w' = here w" "parked w' = parked w" "conn_alive w' = conn_alive w" "conn_loop w' = conn_loop w"
    "connections w' = connections w" "ThreadPool w' = ThreadPool w" "NextConnectionId w' = NextConnectionId w"
    "srv_name w' = srv_name w" "srv_IpPort w' = srv_IpPort w" "server.more w' = server.more w"
    "conn_name (conns w' c) = conn_name (conns w c)" "conn_fd (conns w' c) = conn_fd (conns w c)"
    "channel_of (conns w' c) = channel_of (conns w c)"
    "conn_CloseCallback (conns w' c) = conn_CloseCallback (conns w c)"
  using assms conn_coreD [of "conns w' c" "conns w c"] by (simp_all add: same_rest_def)

text \<open>A call that the thread of its connection's loop makes.\<close>

definition local_call :: "('t, 'k, 'e, 's, 'a, 'z) srv \<Rightarrow> 'a srv_callback user_call \<Rightarrow> bool" where
  "local_call w u \<longleftrightarrow> conn_alive w (call_conn u) \<and> conn_loop w (call_conn u) = here w \<and> \<not> is_close u"

definition tame :: "nat set \<Rightarrow> ('t, 'k, 'e, 's, 'a, 'z) srv \<Rightarrow> ('t, 'k, 'e, 's, 'a, 'z) srv \<Rightarrow> bool" where
  "tame R w w' \<longleftrightarrow> same_rest w w' \<and>
     (\<exists>us. functors w' = functors w @ map (\<lambda>u. UserF (UserCallF u)) us \<and> (\<forall>u\<in>set us. local_call w u)) \<and>
     (\<forall>r. wiring (chans (poller_of w') r) = wiring (chans (poller_of w) r)) \<and>
     (\<forall>r. r \<notin> R \<longrightarrow> known r w' = known r w) \<and>
     (\<forall>c. channel_of (conns w c) \<notin> R \<longrightarrow> state (conns w' c) = kConnected \<longrightarrow> state (conns w c) = kConnected)"

definition tidy :: "('k \<Rightarrow> int \<Rightarrow> epoll_event option) \<Rightarrow> nat set \<Rightarrow> ('t, 'k, 'e, 's, 'a, 'z) srv \<Rightarrow> bool" where
  "tidy reg L w \<longleftrightarrow> poller_inv reg L (poller_of w) \<and> watches_only reg L (poller_of w) \<and>
     inj_on (\<lambda>c. channel_of (conns w c)) {c. conn_alive w c \<and> conn_loop w c = here w} \<and>
     (\<forall>c. conn_alive w c \<longrightarrow> conn_loop w c = here w \<longrightarrow> channel_of (conns w c) \<in> L \<and>
        (state (conns w c) = kConnected \<longrightarrow> known (channel_of (conns w c)) w))"

lemma tidyD:
  assumes "tidy reg L w"
  shows "poller_inv reg L (poller_of w)" "watches_only reg L (poller_of w)"
    "conn_alive w c \<Longrightarrow> conn_loop w c = here w \<Longrightarrow> channel_of (conns w c) \<in> L"
    "conn_alive w c \<Longrightarrow> conn_loop w c = here w \<Longrightarrow> state (conns w c) = kConnected \<Longrightarrow>
       known (channel_of (conns w c)) w"
    "conn_alive w c \<Longrightarrow> conn_loop w c = here w \<Longrightarrow> conn_alive w d \<Longrightarrow> conn_loop w d = here w \<Longrightarrow>
       channel_of (conns w c) = channel_of (conns w d) \<Longrightarrow> c = d"
  using assms by (auto simp: tidy_def inj_on_def)

lemma tame_refl: "tame R w w"
  by (simp add: tame_def same_rest_def)

lemma same_rest_trans: "same_rest w w1 \<Longrightarrow> same_rest w1 w2 \<Longrightarrow> same_rest w w2"
  by (simp add: same_rest_def)

lemma local_call_same: "same_rest w w' \<Longrightarrow> local_call w' u = local_call w u"
  by (simp add: same_rest_def local_call_def)

lemma tame_trans:
  assumes a: "tame R w w1" and b: "tame R w1 w2"
  shows "tame R w w2"
proof -
  from a obtain us where us: "functors w1 = functors w @ map (\<lambda>u. UserF (UserCallF u)) us" "\<forall>u\<in>set us. local_call w u"
    by (auto simp: tame_def)
  from b obtain vs where vs: "functors w2 = functors w1 @ map (\<lambda>u. UserF (UserCallF u)) vs" "\<forall>u\<in>set vs. local_call w1 u"
    by (auto simp: tame_def)
  have same: "same_rest w w1" "same_rest w1 w2" using a b by (simp_all add: tame_def)
  have "functors w2 = functors w @ map (\<lambda>u. UserF (UserCallF u)) (us @ vs)" using us(1) vs(1) by simp
  moreover have "\<forall>u\<in>set (us @ vs). local_call w u" using us(2) vs(2) local_call_same [OF same(1)] by auto
  ultimately show ?thesis
    using a b same_rest_trans [OF same] same_restD(13) [OF same(1)] unfolding tame_def by metis
qed

lemma tame_mono: "tame R w w' \<Longrightarrow> R \<subseteq> S \<Longrightarrow> tame S w w'"
  by (auto simp: tame_def)

lemma tame_same: "tame R w w' \<Longrightarrow> same_rest w w'"
  by (simp add: tame_def)

lemma tameD:
  assumes "tame R w w'"
  shows "wiring (chans (poller_of w') r) = wiring (chans (poller_of w) r)"
    and "r \<notin> R \<Longrightarrow> known r w' = known r w"
    and "channel_of (conns w c) \<notin> R \<Longrightarrow> state (conns w' c) = kConnected \<Longrightarrow> state (conns w c) = kConnected"
  using assms by (simp_all add: tame_def)

text \<open>A tame operation on a tidy loop is tidy again if the poller is, and its own channels are.\<close>

lemma tidy_tame:
  assumes "tidy reg L w" and "tame R w w'" and "poller_inv reg L (poller_of w')" and "watches_only reg L (poller_of w')"
    and R: "\<And>c. conn_alive w c \<Longrightarrow> conn_loop w c = here w \<Longrightarrow> channel_of (conns w c) \<in> R \<Longrightarrow>
      state (conns w' c) = kConnected \<Longrightarrow> known (channel_of (conns w c)) w'"
  shows "tidy reg L w'"
proof -
  note S = same_restD [OF tame_same [OF assms(2)]]
  have "known (channel_of (conns w c)) w'"
    if "conn_alive w c" "conn_loop w c = here w" "state (conns w' c) = kConnected" for c
    using R [OF that(1,2) _ that(3)] tidyD(4) [OF assms(1) that(1,2)] tameD(2,3) [OF assms(2)] that(3) by blast
  then show ?thesis using assms(1,3,4) by (simp add: tidy_def S)
qed

text \<open>What an operation does that is tame and keeps the loop tidy.\<close>

definition goes :: "('k \<Rightarrow> int \<Rightarrow> epoll_event option) \<Rightarrow> nat set \<Rightarrow> nat set \<Rightarrow>
    ('t, 'k, 'e, 's, 'a, 'z) srv \<Rightarrow> ('t, 'k, 'e, 's, 'a, 'z) srv \<Rightarrow> bool" where
  "goes reg L R w w' \<longleftrightarrow> tame R w w' \<and> tidy reg L w'"

lemma goesD:
  assumes "goes reg L R w w'"
  shows "tame R w w'" "tidy reg L w'" "same_rest w w'"
  using assms by (simp_all add: goes_def tame_def)

lemma goes_refl: "tidy reg L w \<Longrightarrow> goes reg L R w w"
  by (simp add: goes_def tame_refl)

lemma goes_then:
  assumes "goes reg L R w w1" and "tidy reg L w1 \<Longrightarrow> same_rest w w1 \<Longrightarrow> goes reg L R w1 w2"
  shows "goes reg L R w w2"
  using assms tame_trans [of R w w1 w2] by (simp add: goes_def tame_def)

lemma goes_mono: "goes reg L R w w' \<Longrightarrow> R \<subseteq> S \<Longrightarrow> goes reg L S w w'"
  using tame_mono by (auto simp: goes_def)

lemma goes_quiet:
  assumes "tidy reg L w" and "same_rest w w'" and "poller_of w' = poller_of w"
    and "functors w' = functors w @ map (\<lambda>u. UserF (UserCallF u)) us" and "\<forall>u\<in>set us. local_call w u"
    and "\<And>c. state (conns w' c) = kConnected \<Longrightarrow> state (conns w c) = kConnected"
  shows "goes reg L R w w'"
proof -
  have "tame {} w w'" using assms(2-6) by (auto simp: tame_def known_def)
  moreover from tidy_tame [OF assms(1) this] tidyD(1,2) [OF assms(1)] have "tidy reg L w'" by (simp add: assms(3))
  ultimately show ?thesis using tame_mono by (auto simp: goes_def)
qed

lemma goes_sockets: "tidy reg L w \<Longrightarrow> goes reg L R w (w\<lparr>sockets := s\<rparr>)"
  by (rule goes_quiet [where us = "[]"]) (simp_all add: same_rest_def)

lemma goes_upd_conn:
  assumes "tidy reg L w" and "conn_core (g (conns w c)) = conn_core (conns w c)"
    and "state (g (conns w c)) = kConnected \<Longrightarrow> state (conns w c) = kConnected"
  shows "goes reg L R w (upd_conn c g w)"
proof (rule goes_quiet [where us = "[]"])
  show "same_rest w (upd_conn c g w)" using assms(2) by (simp add: same_rest_def)
qed (use assms in \<open>auto split: if_splits\<close>)

lemma goes_queue:
  assumes "tidy reg L w" and "local_call w u"
  shows "goes reg L R w (queue_user sys u w)"
  by (rule goes_quiet [where us = "[u]"])
    (use assms in \<open>auto simp: same_rest_def queue_user_def QueueInLoop_def wakeup_def Let_def split: if_splits\<close>)

lemma goes_shutdown: "tidy reg L w \<Longrightarrow> goes reg L R w (ShutdownInLoop sys c w)"
  by (simp add: ShutdownInLoop_def ShutdownWrite_def goes_sockets goes_refl)

lemma goes_change:
  assumes laws: "epoll_laws (sys_ctl (lsys sys)) reg" and tidy: "tidy reg L w" and r: "r \<in> L"
  obtains p where "with_poller (change_events (sys_ctl (lsys sys)) f r) w = Inr (w\<lparr>poller_of := p\<rparr>)"
    and "goes reg L (if known r w then {} else {r}) w (w\<lparr>poller_of := p\<rparr>)"
    and "known r (w\<lparr>poller_of := p\<rparr>)"
proof -
  obtain p where p: "change_events (sys_ctl (lsys sys)) f r (poller_of w) = Inr p"
    "poller_inv reg L p" "watches_only reg L p" "chans p = (chans (poller_of w))(r := changed f (chans (poller_of w) r))"
    by (rule change_events_frame [OF laws tidyD(1) [OF tidy] r tidyD(2) [OF tidy]])
  let ?w = "w\<lparr>poller_of := p\<rparr>"
  have wiring: "wiring (chans (poller_of ?w) q) = wiring (chans (poller_of w) q)" for q
    by (simp add: p(4) wiring_def changed_def)
  have rest: "same_rest w ?w" by (simp add: same_rest_def)
  have known: "known q ?w = (q = r \<or> known q w)" for q by (simp add: known_def p(4))
  have t: "tame {r} w ?w" using wiring rest known by (simp add: tame_def)
  show thesis
  proof (rule that [of p])
    show "with_poller (change_events (sys_ctl (lsys sys)) f r) w = Inr ?w" using p(1) by (simp add: with_poller_def)
    have tidy': "tidy reg L ?w" by (rule tidy_tame [OF tidy t]) (simp_all add: p known)
    show "goes reg L (if known r w then {} else {r}) w ?w"
      using t wiring rest known tidy' by (auto simp: tame_def goes_def)
  qed (simp add: known)
qed

lemma goes_remove:
  assumes laws: "epoll_laws (sys_ctl (lsys sys)) reg" and tidy: "tidy reg L w" and r: "r \<in> L"
    and off: "\<And>c. conn_alive w c \<Longrightarrow> conn_loop w c = here w \<Longrightarrow> channel_of (conns w c) = r \<Longrightarrow>
      state (conns w c) \<noteq> kConnected"
  obtains p where "loop_RemoveChannel (lsys sys) r w = Inr (w\<lparr>poller_of := p\<rparr>)"
    and "goes reg L {r} w (w\<lparr>poller_of := p\<rparr>)" and "\<not> known r (w\<lparr>poller_of := p\<rparr>)"
proof -
  obtain p where p: "RemoveChannel (sys_ctl (lsys sys)) r (poller_of w) = Inr p"
    "poller_inv reg L p" "watches_only reg L p" "chans p = (chans (poller_of w))(r := SetState NEW (chans (poller_of w) r))"
    by (rule RemoveChannel_frame [OF laws tidyD(1) [OF tidy] r tidyD(2) [OF tidy]])
  let ?w = "w\<lparr>poller_of := p\<rparr>"
  have wiring: "wiring (chans (poller_of ?w) q) = wiring (chans (poller_of w) q)" for q
    by (simp add: p(4) wiring_def SetState_def)
  have rest: "same_rest w ?w" by (simp add: same_rest_def)
  have known: "known q ?w = (q \<noteq> r \<and> known q w)" for q by (simp add: known_def p(4) SetState_def)
  have t: "tame {r} w ?w" using wiring rest known by (simp add: tame_def)
  show thesis
  proof (rule that [of p])
    show "loop_RemoveChannel (lsys sys) r w = Inr ?w" using p(1) by (simp add: loop_RemoveChannel_def with_poller_def)
    have "tidy reg L ?w" by (rule tidy_tame [OF tidy t]) (use off in \<open>auto simp: p\<close>)
    with t show "goes reg L {r} w ?w" by (simp add: goes_def)
  qed (simp_all add: known)
qed

section \<open>The handlers of a connection\<close>

text \<open>A connection the running thread serves, with its channel in the poller.\<close>

definition served_here :: "nat \<Rightarrow> ('t, 'k, 'e, 's, 'a, 'z) srv \<Rightarrow> bool" where
  "served_here c w \<longleftrightarrow> conn_alive w c \<and> conn_loop w c = here w \<and> known (channel_of (conns w c)) w"

lemma served_hereD:
  assumes "served_here c w"
  shows "conn_alive w c" "conn_loop w c = here w" "known (channel_of (conns w c)) w"
    "\<not> is_close u \<Longrightarrow> call_conn u = c \<Longrightarrow> local_call w u"
  using assms by (auto simp: served_here_def local_call_def)

lemma served_here_goes: "goes reg L {} w w' \<Longrightarrow> served_here c w \<Longrightarrow> served_here c w'"
  using same_restD [of w w'] goesD [of reg L "{}" w w'] tameD(2) [of "{}" w w']
  by (simp add: served_here_def)

lemma HandleWrite_goes:
  assumes laws: "epoll_laws (sys_ctl (lsys sys)) reg" and tidy: "tidy reg L w" and c: "served_here c w"
    and ret: "HandleWrite sys c w = Inr w'"
  shows "goes reg L {} w w'"
proof (cases "isWriting (conn_chan w c)")
  case False
  with ret tidy show ?thesis by (simp add: HandleWrite_def goes_refl)
next
  case True
  obtain a s where wr: "sys_write sys (sockets w) (conn_fd (conns w c))
      (slice (buf_bytes (OutputBuffer (conns w c))) (ReaderIndex (OutputBuffer (conns w c)))
         (ReaderIndex (OutputBuffer (conns w c)) + ReadableBytes (OutputBuffer (conns w c)))) = (a, s)" by fastforce
  obtain n e where n: "WriteFromFd a (OutputBuffer (conns w c)) = (n, e)" by fastforce
  define b where "b = retrieve (nat n) (OutputBuffer (conns w c))"
  define w1 where "w1 = w\<lparr>sockets := s\<rparr>"
  define w2 where "w2 = upd_conn c (\<lambda>conn. conn\<lparr>OutputBuffer := b\<rparr>) w1"
  have g1: "goes reg L {} w w1" unfolding w1_def by (rule goes_sockets [OF tidy])
  have g2: "goes reg L {} w w2" unfolding w2_def
    by (rule goes_then [OF g1]) (rule goes_upd_conn, simp_all add: conn_core_def)
  note c2 = served_here_goes [OF g2 c]
  have r: "channel_of (conns w2 c) = channel_of (conns w c)" using same_restD(13) [OF goesD(3) [OF g2]] .
  have rL: "channel_of (conns w c) \<in> L" using tidyD(3) [OF goesD(2) [OF g2] served_hereD(1,2) [OF c2]] by (simp add: r)
  obtain p where p: "with_poller (DisableWriting (sys_ctl (lsys sys)) (channel_of (conns w c))) w2 = Inr (w2\<lparr>poller_of := p\<rparr>)"
    and g: "goes reg L (if known (channel_of (conns w c)) w2 then {} else {channel_of (conns w c)}) w2 (w2\<lparr>poller_of := p\<rparr>)"
    unfolding DisableWriting_def 
    by (rule goes_change [OF laws goesD(2) [OF g2] rL, of "\<lambda>e. e AND NOT POLLOUT"])
  define w3 where "w3 = w2\<lparr>poller_of := p\<rparr>"
  have g3: "goes reg L {} w w3" unfolding w3_def
    by (rule goes_then [OF g2]) (use g served_hereD(3) [OF c2] in \<open>simp add: r\<close>)
  define w4 where "w4 = (case WriteCompleteCallback (conns w c) of
      Some f \<Rightarrow> queue_user sys (WriteCompleteCall f c) w3 | None \<Rightarrow> w3)"
  have local: "local_call w3 (WriteCompleteCall f c)" for f
    using served_hereD(4) [OF served_here_goes [OF g3 c]] by simp
  have g4: "goes reg L {} w w4" unfolding w4_def
    by (rule goes_then [OF g3]) (auto intro: goes_refl goes_queue local split: option.split)
  have g5: "goes reg L {} w (ShutdownInLoop sys c w4)"
    by (rule goes_then [OF g4 goes_shutdown])
  have "w' = w1 \<or> w' = w2 \<or> w' = w4 \<or> w' = ShutdownInLoop sys c w4"
    using ret True wr n p
    by (auto simp: HandleWrite_def Let_def w1_def [symmetric] b_def [symmetric] w2_def [symmetric] w3_def [symmetric]
        w4_def [symmetric] split: if_splits)
  with g1 g2 g4 g5 show ?thesis by blast
qed

section \<open>Callbacks\<close>

text \<open>
  Callbacks of the application are gentle if they keep to this frame: they may send on the
  connections of the loop, read their buffers and queue calls of callbacks, but bring no
  connection back to life and register no channel that is not registered.
\<close>

definition gentle :: "('k \<Rightarrow> int \<Rightarrow> epoll_event option) \<Rightarrow>
    ('a srv_callback user_call \<Rightarrow> ('t, 'k, 'e, 's, 'a, 'z) srv \<Rightarrow> ('t, 'k, 'e, 's, 'a, 'z) srv res) \<Rightarrow> bool" where
  "gentle reg app \<longleftrightarrow> (\<forall>L u w w'. tidy reg L w \<longrightarrow> local_call w u \<longrightarrow> app u w = Inr w' \<longrightarrow> goes reg L {} w w')"

lemma gentleD: "gentle reg app \<Longrightarrow> tidy reg L w \<Longrightarrow> local_call w u \<Longrightarrow> app u w = Inr w' \<Longrightarrow> goes reg L {} w w'"
  by (simp add: gentle_def)

lemma srv_usr_app: "\<not> is_close u \<Longrightarrow> srv_usr sys app u w = app u w"
  by (cases u) simp_all

lemma call_user_goes:
  assumes "gentle reg app" and "tidy reg L w" and "\<And>f. local_call w (arg f)"
    and "call_user (srv_usr sys app) arg f w = Inr w'"
  shows "goes reg L {} w w'"
proof (cases f)
  case None
  with assms(2,4) show ?thesis by (simp add: call_user_def goes_refl)
next
  case (Some g)
  with assms(3) [of g] assms(4) have "app (arg g) w = Inr w'"
    by (simp add: call_user_def srv_usr_app local_call_def)
  with gentleD [OF assms(1,2,3)] show ?thesis .
qed

text \<open>Closing: after a tame part the server is told.\<close>

lemma HandleClose_goes:
  assumes laws: "epoll_laws (sys_ctl (lsys sys)) reg" and app: "gentle reg app"
    and tidy: "tidy reg L w" and c: "served_here c w"
    and cb: "conn_CloseCallback (conns w c) = Some RemoveConnectionCb"
    and ret: "HandleClose sys (srv_usr sys app) c w = Inr w'"
  shows "\<exists>v. goes reg L {} w v \<and> w' = RemoveConnection sys c v"
proof -
  define w1 where "w1 = upd_conn c (\<lambda>conn. conn\<lparr>state := kDisconnected\<rparr>) w"
  have g1: "goes reg L {} w w1" unfolding w1_def
    by (rule goes_upd_conn [OF tidy]) (simp_all add: conn_core_def)
  note c1 = served_here_goes [OF g1 c]
  have r: "channel_of (conns w1 c) = channel_of (conns w c)" using same_restD(13) [OF goesD(3) [OF g1]] .
  have rL: "channel_of (conns w c) \<in> L" using tidyD(3) [OF goesD(2) [OF g1] served_hereD(1,2) [OF c1]] by (simp add: r)
  obtain p where p: "with_poller (DisableAll (sys_ctl (lsys sys)) (channel_of (conns w c))) w1 = Inr (w1\<lparr>poller_of := p\<rparr>)"
    and g: "goes reg L (if known (channel_of (conns w c)) w1 then {} else {channel_of (conns w c)}) w1 (w1\<lparr>poller_of := p\<rparr>)"
    unfolding DisableAll_def by (rule goes_change [OF laws goesD(2) [OF g1] rL, of "\<lambda>e. 0"])
  define w2 where "w2 = w1\<lparr>poller_of := p\<rparr>"
  have g2: "goes reg L {} w w2" unfolding w2_def
    by (rule goes_then [OF g1]) (use g served_hereD(3) [OF c1] in \<open>simp add: r\<close>)
  from ret p obtain v where v: "call_user (srv_usr sys app) (\<lambda>f. ConnectionCall f c) (ConnectionCallback (conns w2 c)) w2 = Inr v"
    and close: "call_user (srv_usr sys app) (\<lambda>f. CloseCall f c) (conn_CloseCallback (conns v c)) v = Inr w'"
    by (auto simp: HandleClose_def Let_def w1_def [symmetric] r w2_def)
  have local: "local_call w2 (ConnectionCall f c)" for f
    using served_hereD(4) [OF served_here_goes [OF g2 c]] by simp
  have g3: "goes reg L {} w v"
    by (rule goes_then [OF g2]) (rule call_user_goes [OF app _ local v])
  moreover have "conn_CloseCallback (conns v c) = Some RemoveConnectionCb"
    using same_restD(14) [OF goesD(3) [OF g3]] cb by simp
  ultimately show ?thesis using close by (auto simp: call_user_def)
qed

lemma HeadleRead_goes:
  assumes laws: "epoll_laws (sys_ctl (lsys sys)) reg" and app: "gentle reg app"
    and tidy: "tidy reg L w" and c: "served_here c w"
    and cb: "conn_CloseCallback (conns w c) = Some RemoveConnectionCb"
    and ret: "HeadleRead sys (srv_usr sys app) c t w = Inr w'"
  shows "\<exists>v. goes reg L {} w v \<and> (w' = v \<or> w' = RemoveConnection sys c v)"
proof -
  obtain r s where rd: "sys_read sys (sockets w) (conn_fd (conns w c))
      (readv_capacity (InputBuffer (conns w c))) = (r, s)" by fastforce
  from ret obtain n e b where b: "ReadFromFd r (InputBuffer (conns w c)) = Inr (n, e, b)"
    by (auto simp: HeadleRead_def rd Let_def)
  define w1 where "w1 = upd_conn c (\<lambda>conn. conn\<lparr>InputBuffer := b\<rparr>) (w\<lparr>sockets := s\<rparr>)"
  have g1: "goes reg L {} w w1" unfolding w1_def
    by (rule goes_then [OF goes_sockets [OF tidy]]) (rule goes_upd_conn, simp_all add: conn_core_def)
  note c1 = served_here_goes [OF g1 c]
  have local: "local_call w1 (MessageCall f c t)" for f using served_hereD(4) [OF c1] by simp
  have cb1: "conn_CloseCallback (conns w1 c) = Some RemoveConnectionCb"
    using same_restD(14) [OF goesD(3) [OF g1]] cb by simp
  note eq = HeadleRead_eq [OF rd b w1_def, of "srv_usr sys app" t]
  consider (message) "0 < n" | (close) "n = 0" | (error) "n < 0" by linarith
  then show ?thesis
  proof cases
    case message
    with ret eq obtain f where f: "app (MessageCall f c t) w1 = Inr w'"
      by (cases "MessageCallback (conns w c)") simp_all
    have "goes reg L {} w w'"
      by (rule goes_then [OF g1]) (rule gentleD [OF app _ local f])
    then show ?thesis by blast
  next
    case close
    with ret eq have "HandleClose sys (srv_usr sys app) c w1 = Inr w'" by simp
    from HandleClose_goes [OF laws app goesD(2) [OF g1] c1 cb1 this] obtain v where
      v: "goes reg L {} w1 v" "w' = RemoveConnection sys c v" by blast
    have "goes reg L {} w v" by (rule goes_then [OF g1]) (rule v(1))
    with v(2) show ?thesis by blast
  next
    case error
    with ret eq g1 show ?thesis by auto
  qed
qed

section \<open>Opening and destroying\<close>

lemma watches_only_quiet:
  assumes "watches_only reg L p" and "\<And>c. fd (f c) = fd c"
  shows "watches_only reg L (upd_chan r f p)"
proof -
  have "watched_fds L (upd_chan r f p) = watched_fds L p"
    by (rule watched_fds_cong) (simp add: upd_chan_def assms(2))
  with assms(1) show ?thesis by (simp add: watches_only_def upd_chan_def)
qed

lemma ConnectEstablished_goes:
  assumes laws: "epoll_laws (sys_ctl (lsys sys)) reg" and app: "gentle reg app"
    and tidy: "tidy reg L w" and c: "conn_alive w c" "conn_loop w c = here w"
    and ret: "ConnectEstablished sys (srv_usr sys app) c w = Inr w'"
  shows "goes reg L {channel_of (conns w c)} w w'" and "known (channel_of (conns w c)) w'"
proof -
  let ?r = "channel_of (conns w c)"
  define p0 where "p0 = upd_chan ?r (set_tie c) (poller_of w)"
  define w1 where "w1 = (upd_conn c (\<lambda>conn. conn\<lparr>state := kConnected\<rparr>) w)\<lparr>poller_of := p0\<rparr>"
  have rL: "?r \<in> L" by (rule tidyD(3) [OF tidy c])
  have p0: "poller_inv reg L p0" "watches_only reg L p0"
    unfolding p0_def by (rule tie_inv [OF tidyD(1) [OF tidy]])
      (rule watches_only_quiet [OF tidyD(2) [OF tidy]], simp add: set_tie_def)
  obtain p where p: "change_events (sys_ctl (lsys sys)) (\<lambda>e. e OR (POLLIN OR POLLPRI)) ?r p0 = Inr p"
    "poller_inv reg L p" "watches_only reg L p" "chans p = (chans p0)(?r := changed (\<lambda>e. e OR (POLLIN OR POLLPRI)) (chans p0 ?r))"
    by (rule change_events_frame [OF laws p0(1) rL p0(2), of "\<lambda>e. e OR (POLLIN OR POLLPRI)"])
  define w2 where "w2 = w1\<lparr>poller_of := p\<rparr>"
  have w2: "w2 = (upd_conn c (\<lambda>conn. conn\<lparr>state := kConnected\<rparr>) w)\<lparr>poller_of := p\<rparr>"
    by (simp add: w2_def w1_def)
  have enabled: "with_poller (EnableReading (sys_ctl (lsys sys)) ?r) w1 = Inr w2"
    using p(1) by (simp add: with_poller_def EnableReading_def w1_def w2_def)
  have known2: "known ?r w2" by (simp add: known_def w2 p(4))
  have t: "tame {?r} w w2"
    unfolding tame_def
  proof (intro conjI allI impI)
    show "same_rest w w2" by (simp add: same_rest_def w2 conn_core_def)
    show "\<exists>us. functors w2 = functors w @ map (\<lambda>u. UserF (UserCallF u)) us \<and> (\<forall>u\<in>set us. local_call w u)"
      by (rule exI [of _ "[]"]) (simp add: w2)
    show "wiring (chans (poller_of w2) r) = wiring (chans (poller_of w) r)" for r
      by (simp add: w2 p(4) p0_def upd_chan_def wiring_def changed_def set_tie_def)
    show "known r w2 = known r w" if "r \<notin> {?r}" for r
      using that by (simp add: known_def w2 p(4) p0_def upd_chan_def)
    show "state (conns w d) = kConnected" if "channel_of (conns w d) \<notin> {?r}" "state (conns w2 d) = kConnected" for d
      using that by (auto simp: w2 split: if_splits)
  qed
  have tidy2: "tidy reg L w2"
    by (rule tidy_tame [OF tidy t]) (use known2 in \<open>simp_all add: w2 p\<close>)
  have call: "call_user (srv_usr sys app) (\<lambda>f. ConnectionCall f c) (ConnectionCallback (conns w2 c)) w2 = Inr w'"
    using ret enabled by (simp add: ConnectEstablished_def Let_def w1_def p0_def)
  note S = same_restD [OF tame_same [OF t]]
  have local: "local_call w2 (ConnectionCall f c)" for f using c by (simp add: local_call_def S)
  note g = call_user_goes [OF app tidy2 local call]
  show "goes reg L {?r} w w'"
    by (rule goes_then [of _ _ _ _ w2]) (use t tidy2 goes_mono [OF g] in \<open>simp_all add: goes_def\<close>)
  show "known ?r w'" using tameD(2) [OF goesD(1) [OF g]] known2 by simp
qed

lemma ConnectDestoryed_goes:
  assumes laws: "epoll_laws (sys_ctl (lsys sys)) reg" and app: "gentle reg app"
    and tidy: "tidy reg L w" and c: "conn_alive w c" "conn_loop w c = here w"
    and ret: "ConnectDestoryed sys (srv_usr sys app) c w = Inr w'"
  shows "goes reg L {channel_of (conns w c)} w w'" and "\<not> known (channel_of (conns w c)) w'"
proof -
  let ?r = "channel_of (conns w c)"
  have "\<exists>v. goes reg L {} w v \<and> state (conns v c) \<noteq> kConnected \<and> loop_RemoveChannel (lsys sys) ?r v = Inr w'"
  proof (cases "state (conns w c) = kConnected")
    case False
    with ret goes_refl [OF tidy] show ?thesis by (auto simp: ConnectDestoryed_def)
  next
    case True
    define w1 where "w1 = upd_conn c (\<lambda>conn. conn\<lparr>state := kDisconnected\<rparr>) w"
    have s: "served_here c w" using c tidyD(4) [OF tidy c True] by (simp add: served_here_def)
    have g1: "goes reg L {} w w1" unfolding w1_def
      by (rule goes_upd_conn [OF tidy]) (simp_all add: conn_core_def)
    note c1 = served_here_goes [OF g1 s]
    have r: "channel_of (conns w1 c) = ?r" using same_restD(13) [OF goesD(3) [OF g1]] .
    have rL: "?r \<in> L" by (rule tidyD(3) [OF tidy c])
    obtain p where p: "with_poller (DisableAll (sys_ctl (lsys sys)) ?r) w1 = Inr (w1\<lparr>poller_of := p\<rparr>)"
      and g: "goes reg L (if known ?r w1 then {} else {?r}) w1 (w1\<lparr>poller_of := p\<rparr>)"
      unfolding DisableAll_def by (rule goes_change [OF laws goesD(2) [OF g1] rL, of "\<lambda>e. 0"])
    define w2 where "w2 = w1\<lparr>poller_of := p\<rparr>"
    have g12: "goes reg L {} w1 w2" using g served_hereD(3) [OF c1] by (simp add: r w2_def)
    have g2: "goes reg L {} w w2" by (rule goes_then [OF g1]) (rule g12)
    have local: "local_call w2 (ConnectionCall f c)" for f
      using served_hereD(4) [OF served_here_goes [OF g2 s]] by simp
    from ret True p obtain v where
      v: "call_user (srv_usr sys app) (\<lambda>f. ConnectionCall f c) (ConnectionCallback (conns w2 c)) w2 = Inr v"
      and rm: "loop_RemoveChannel (lsys sys) (channel_of (conns v c)) v = Inr w'"
      by (auto simp: ConnectDestoryed_def Let_def w1_def [symmetric] r w2_def)
    note g23 = call_user_goes [OF app goesD(2) [OF g2] local v]
    have g3: "goes reg L {} w v" by (rule goes_then [OF g2]) (rule g23)
    have g13: "goes reg L {} w1 v" by (rule goes_then [OF g12]) (rule g23)
    have "state (conns w1 c) \<noteq> kConnected" by (simp add: w1_def)
    with tameD(3) [OF goesD(1) [OF g13], of c] have "state (conns v c) \<noteq> kConnected" by auto
    with g3 rm same_restD(13) [OF goesD(3) [OF g3]] show ?thesis by auto
  qed
  then obtain v where v: "goes reg L {} w v" "state (conns v c) \<noteq> kConnected" "loop_RemoveChannel (lsys sys) ?r v = Inr w'"
    by blast
  note S = same_restD [OF goesD(3) [OF v(1)]]
  have rL: "?r \<in> L" by (rule tidyD(3) [OF tidy c])
  have off: "state (conns v d) \<noteq> kConnected"
    if "conn_alive v d" "conn_loop v d = here v" "channel_of (conns v d) = ?r" for d
    using tidyD(5) [OF tidy c, of d] that v(2) by (auto simp: S)
  obtain p where p: "loop_RemoveChannel (lsys sys) ?r v = Inr (v\<lparr>poller_of := p\<rparr>)"
    "goes reg L {?r} v (v\<lparr>poller_of := p\<rparr>)" "\<not> known ?r (v\<lparr>poller_of := p\<rparr>)"
    by (rule goes_remove [OF laws goesD(2) [OF v(1)] rL off])
  with v(3) show "\<not> known ?r w'" by simp
  show "goes reg L {?r} w w'"
    by (rule goes_then [OF goes_mono [OF v(1)]]) (use p v(3) in simp_all)
qed

section \<open>Timers and wake-ups\<close>

lemma goes_timers:
  "tidy reg L w \<Longrightarrow> goes reg L R w
     (w\<lparr>timers := ts, CallingExpiredTimers := b, CancelTimers := cs, timerfd_value := tv\<rparr>)"
  by (rule goes_quiet [where us = "[]"]) (simp_all add: same_rest_def)

lemma goes_clock: "tidy reg L w \<Longrightarrow> goes reg L R w (w\<lparr>clock := k\<rparr>)"
  by (rule goes_quiet [where us = "[]"]) (simp_all add: same_rest_def)

lemma insert_timer_goes:
  assumes "tidy reg L w" and "insert_timer t w = Inr (b, w')"
  shows "goes reg L R w w'"
proof -
  from assms(2) obtain ts where "w' = w\<lparr>timers := ts\<rparr>" by (auto simp: insert_timer_def Let_def)
  with goes_timers [OF assms(1), where R = R and ts = ts and b = "CallingExpiredTimers w" and cs = "CancelTimers w" and tv = "timerfd_value w"]
  show ?thesis by simp
qed

lemma ResetTimerfd_goes:
  assumes "tidy reg L w" and "ResetTimerfd ok n1 n2 t w = Inr w'"
  shows "goes reg L R w w'"
proof -
  from assms(2) obtain v where "w' = w\<lparr>timerfd_value := v\<rparr>" by (auto simp: ResetTimerfd_def Let_def split: if_splits)
  with goes_timers [OF assms(1), where R = R and ts = "timers w" and b = "CallingExpiredTimers w" and cs = "CancelTimers w" and tv = v]
  show ?thesis by simp
qed

lemma AddTimerInLoop_goes:
  assumes "tidy reg L w" and "AddTimerInLoop ok n1 n2 t w = Inr w'"
  shows "goes reg L R w w'"
proof -
  from assms(2) obtain b w1 where i: "insert_timer t w = Inr (b, w1)"
    and r: "(if b then ResetTimerfd ok n1 n2 (expiration t) w1 else Inr w1) = Inr w'"
    by (auto simp: AddTimerInLoop_def)
  note g = insert_timer_goes [OF assms(1) i]
  show ?thesis
    by (rule goes_then [OF g]) (use r in \<open>auto intro: ResetTimerfd_goes goes_refl split: if_splits\<close>)
qed

lemma CancelTimerInLoop_goes:
  assumes "tidy reg L w"
  shows "goes reg L R w (CancelTimerInLoop i w)"
proof -
  obtain ts cs where "CancelTimerInLoop i w = w\<lparr>timers := ts, CancelTimers := cs\<rparr>"
  proof -
    have "\<exists>ts cs. CancelTimerInLoop i w = w\<lparr>timers := ts, CancelTimers := cs\<rparr>"
      unfolding CancelTimerInLoop_def Let_def
      by (intro exI [of _ "timers (CancelTimerInLoop i w)"] exI [of _ "CancelTimers (CancelTimerInLoop i w)"])
        (simp add: CancelTimerInLoop_def Let_def)
    then show thesis using that by blast
  qed
  with goes_timers [OF assms, where R = R and ts = ts and b = "CallingExpiredTimers w" and cs = cs and tv = "timerfd_value w"] show ?thesis by simp
qed

lemma timer_functor_goes:
  assumes tidy: "tidy reg L w" and "run_functor sys run (TimerF g) w = Inr w'"
  shows "goes reg L R w w'"
proof -
  define w1 where "w1 = snd (read_clock (snd (read_clock w)))"
  have c: "goes reg L R w w1"
    unfolding w1_def read_clock_def by (simp, rule goes_clock [OF tidy])
  from assms(2) obtain n1 n2 where "run_tq_functor (settime_ok sys) n1 n2 g w1 = Inr w'"
    by (simp add: w1_def read_clock_def)
  then show ?thesis
    by (intro goes_then [OF c]) (cases g; auto intro: AddTimerInLoop_goes CancelTimerInLoop_goes)
qed

text \<open>The callbacks of timers are gentle in the same sense.\<close>

definition gentle_timers :: "('k \<Rightarrow> int \<Rightarrow> epoll_event option) \<Rightarrow>
    ('t \<Rightarrow> ('t, 'k, 'e, 's, 'a, 'z) srv \<Rightarrow> ('t, 'k, 'e, 's, 'a, 'z) srv res) \<Rightarrow> bool" where
  "gentle_timers reg tick \<longleftrightarrow> (\<forall>L t w w'. tidy reg L w \<longrightarrow> tick t w = Inr w' \<longrightarrow> goes reg L {} w w')"

lemma timer_HandleRead_goes:
  assumes tick: "gentle_timers reg tick" and tidy: "tidy reg L w"
    and ret: "timer_HandleRead sys tick w = Inr w'"
  shows "goes reg L {} w w'"
proof -
  define now n1 n2 where "now = fst (read_clock w)" and "n1 = fst (read_clock (snd (read_clock w)))"
    and "n2 = fst (read_clock (snd (read_clock (snd (read_clock w)))))"
  define w1 where "w1 = snd (read_clock (snd (read_clock (snd (read_clock w)))))"
  obtain es ts where es: "GetExpiredTimer now w1 = (es, w1\<lparr>timers := ts\<rparr>)" by (simp add: GetExpiredTimer_def)
  define w2 where "w2 = w1\<lparr>timers := ts, CallingExpiredTimers := False\<rparr>"
  have g1: "goes reg L {} w w1"
    unfolding w1_def read_clock_def by (simp, rule goes_clock [OF tidy])
  have "goes reg L {} w1 w2" if "tidy reg L w1"
    using goes_timers [OF that, where R = "{}" and ts = ts and b = False and cs = "CancelTimers w1" and tv = "timerfd_value w1"] by (simp add: w2_def)
  then have g2: "goes reg L {} w w2" by (intro goes_then [OF g1])
  have "HandleRead (settime_ok sys) n1 n2 tick now w1 = Inr w'"
    using ret by (simp add: timer_HandleRead_def now_def n1_def n2_def w1_def split_beta)
  then obtain w3 where run: "foldR (\<lambda>e. tick (callback (et_timer e))) es w2 = Inr w3"
    and rst: "reset (settime_ok sys) n1 n2 es now (w3\<lparr>CallingExpiredTimers := False\<rparr>) = Inr w'"
    by (auto simp: HandleRead_def es Let_def w2_def)
  have g3: "goes reg L {} w w3"
  proof (rule foldR_invariant [OF run, where P = "goes reg L {} w"])
    show "goes reg L {} w w2" by (rule g2)
    show "goes reg L {} w v'" if "goes reg L {} w v" "tick (callback (et_timer e)) v = Inr v'" for e v v'
      by (rule goes_then [OF that(1)]) (use tick that(2) in \<open>auto simp: gentle_timers_def\<close>)
  qed
  define w4 where "w4 = w3\<lparr>CallingExpiredTimers := False\<rparr>"
  have "goes reg L {} w3 w4" if "tidy reg L w3"
    using goes_timers [OF that, where R = "{}" and ts = "timers w3" and b = False and cs = "CancelTimers w3" and tv = "timerfd_value w3"] by (simp add: w4_def)
  then have g4: "goes reg L {} w w4" by (intro goes_then [OF g3])
  from rst obtain w5 where again: "foldR (reinsert now) es w4 = Inr w5"
    and arm: "(if timers w5 \<noteq> [] then ResetTimerfd (settime_ok sys) n1 n2 (expiration (et_timer (hd (timers w5)))) w5
       else Inr w5) = Inr w'"
    by (auto simp: reset_def w4_def)
  have g5: "goes reg L {} w w5"
  proof (rule foldR_invariant [OF again, where P = "goes reg L {} w"])
    show "goes reg L {} w w4" by (rule g4)
    show "goes reg L {} w v'" if "goes reg L {} w v" "reinsert now e v = Inr v'" for e v v'
      by (rule goes_then [OF that(1)])
        (use that(2) in \<open>auto simp: reinsert_def intro: goes_refl insert_timer_goes split: if_splits\<close>)
  qed
  show ?thesis
    by (rule goes_then [OF g5]) (use arm in \<open>auto intro: ResetTimerfd_goes goes_refl split: if_splits\<close>)
qed

lemma wakeup_read_goes: "tidy reg L w \<Longrightarrow> goes reg L R w (loop_HandleRead sys w)"
  by (rule goes_quiet [where us = "[]"]) (simp_all add: same_rest_def loop_HandleRead_def)

section \<open>Applications that send and shut down\<close>

lemma write_direct_goes:
  assumes tidy: "tidy reg L w" and c: "served_here c w"
    and ret: "write_direct sys c data w = (n, remain, err, w')"
  shows "goes reg L {} w w'"
proof -
  obtain a s where a: "sys_write sys (sockets w) (fd (conn_chan w c)) data = (a, s)" by fastforce
  have g: "goes reg L {} w (w\<lparr>sockets := s\<rparr>)" by (rule goes_sockets [OF tidy])
  have "local_call (w\<lparr>sockets := s\<rparr>) (WriteCompleteCall f c)" for f
    using served_hereD(4) [OF served_here_goes [OF g c]] by simp
  then have q: "goes reg L {} w (queue_user sys (WriteCompleteCall f c) (w\<lparr>sockets := s\<rparr>))" for f
    by (intro goes_then [OF g] goes_queue)
  show ?thesis
    using ret g q goes_refl [OF tidy]
    by (auto simp: write_direct_def Let_def a split: if_splits wr_result.splits option.splits)
qed

lemma keep_rest_goes:
  assumes laws: "epoll_laws (sys_ctl (lsys sys)) reg" and tidy: "tidy reg L w" and c: "served_here c w"
    and ret: "keep_rest sys c rest w = Inr w'"
  shows "goes reg L {} w w'"
proof -
  let ?old = "ReadableBytes (OutputBuffer (conns w c))"
  define w1 where "w1 = (case HighWaterMarkCallback (conns w c) of
      Some f \<Rightarrow> if HighWaterMark (conns w c) \<le> sz_add ?old (length rest) \<and> ?old < HighWaterMark (conns w c)
                then queue_user sys (HighWaterMarkCall f c (sz_add ?old (length rest))) w else w
    | None \<Rightarrow> w)"
  have local: "local_call w (HighWaterMarkCall f c n)" for f n using served_hereD(4) [OF c] by simp
  have g1: "goes reg L {} w w1" unfolding w1_def
    by (auto intro: goes_queue [OF tidy local] goes_refl [OF tidy] split: option.split)
  from ret obtain b where "append_buf rest (OutputBuffer (conns w c)) = Inr b"
    by (auto simp: keep_rest_def Let_def)
  define w2 where "w2 = upd_conn c (\<lambda>conn. conn\<lparr>OutputBuffer := b\<rparr>) w1"
  have g2: "goes reg L {} w w2" unfolding w2_def
    by (rule goes_then [OF g1]) (rule goes_upd_conn, simp_all add: conn_core_def)
  note c2 = served_here_goes [OF g2 c]
  have r: "channel_of (conns w2 c) = channel_of (conns w c)" using same_restD(13) [OF goesD(3) [OF g2]] .
  have rL: "channel_of (conns w c) \<in> L" using tidyD(3) [OF goesD(2) [OF g2] served_hereD(1,2) [OF c2]] by (simp add: r)
  obtain p where p: "with_poller (EnableWriting (sys_ctl (lsys sys)) (channel_of (conns w c))) w2 = Inr (w2\<lparr>poller_of := p\<rparr>)"
    and g: "goes reg L (if known (channel_of (conns w c)) w2 then {} else {channel_of (conns w c)}) w2 (w2\<lparr>poller_of := p\<rparr>)"
    unfolding EnableWriting_def by (rule goes_change [OF laws goesD(2) [OF g2] rL, of "\<lambda>e. e OR POLLOUT"])
  have g3: "goes reg L {} w (w2\<lparr>poller_of := p\<rparr>)"
    by (rule goes_then [OF g2]) (use g served_hereD(3) [OF c2] in \<open>simp add: r\<close>)
  have "w' = w2 \<or> w' = w2\<lparr>poller_of := p\<rparr>"
    using ret p \<open>append_buf rest (OutputBuffer (conns w c)) = Inr b\<close>
    by (auto simp: keep_rest_def Let_def w1_def [symmetric] w2_def [symmetric] split: if_splits)
  with g2 g3 show ?thesis by blast
qed

lemma SendInLoop_goes:
  assumes laws: "epoll_laws (sys_ctl (lsys sys)) reg" and tidy: "tidy reg L w" and c: "served_here c w"
    and ret: "SendInLoop sys c data w = Inr w'"
  shows "goes reg L {} w w'"
proof -
  obtain n remain err w1 where d: "write_direct sys c data w = (n, remain, err, w1)" by (metis prod_cases4)
  note g = write_direct_goes [OF tidy c d]
  show ?thesis
    by (rule goes_then [OF g])
      (use ret served_here_goes [OF g c] in
        \<open>auto simp: SendInLoop_def d intro: keep_rest_goes [OF laws] goes_refl split: if_splits\<close>)
qed

text \<open>
  An application as one writes it with this library: every callback sends strings on the
  connection it is called with and shuts it down, in any order, as \<open>prog\<close> says.
\<close>

datatype app_command = SendString nat | ShutDown

fun do_command :: "('k, 'e, 's) net_sys \<Rightarrow> nat \<Rightarrow> app_command \<Rightarrow>
    ('t, 'k, 'e, 's, 'a, 'z) srv \<Rightarrow> ('t, 'k, 'e, 's, 'a, 'z) srv res" where
  "do_command sys c (SendString i) w = send_string sys (\<lambda>_. Inr) True c i w"
| "do_command sys c ShutDown w = shutdown sys (\<lambda>_. Inr) True c w"

definition answering :: "('k, 'e, 's) net_sys \<Rightarrow> ('a srv_callback user_call \<Rightarrow> app_command list) \<Rightarrow>
    'a srv_callback user_call \<Rightarrow> ('t, 'k, 'e, 's, 'a, 'z) srv \<Rightarrow> ('t, 'k, 'e, 's, 'a, 'z) srv res" where
  "answering sys prog u w = foldR (do_command sys (call_conn u)) (prog u) w"

text \<open>A send on a connected connection and a shutdown, by the thread of its loop.\<close>

lemma send_goes:
  assumes "epoll_laws (sys_ctl (lsys sys)) reg" and tidy: "tidy reg L w"
    and c: "conn_alive w c" "conn_loop w c = here w" "state (conns w c) = kConnected" and "SendInLoop sys c data w = Inr w'"
  shows "goes reg L {} w w'"
proof -
  have "served_here c w" using c tidyD(4) [OF tidy c] by (simp add: served_here_def)
  from SendInLoop_goes [OF assms(1) tidy this assms(6)] show ?thesis .
qed

lemma shutdown_goes:
  assumes tidy: "tidy reg L w" and c: "conn_alive w c" and ret: "shutdown sys usr True c w = Inr w'"
  shows "goes reg L {} w w'"
proof (cases "state (conns w c) = kConnected")
  case True
  have g: "goes reg L {} w (upd_conn c (\<lambda>conn. conn\<lparr>state := kDisconnecting\<rparr>) w)"
    by (rule goes_upd_conn [OF tidy]) (simp_all add: conn_core_def)
  show ?thesis
    by (rule goes_then [OF g])
      (use ret True c in \<open>auto simp: shutdown_def run_in_loop_def RunInLoop_def intro: goes_shutdown\<close>)
qed (use ret goes_refl [OF tidy] in \<open>auto simp: shutdown_def\<close>)

lemma do_command_goes:
  assumes laws: "epoll_laws (sys_ctl (lsys sys)) reg" and tidy: "tidy reg L w"
    and c: "conn_alive w c" "conn_loop w c = here w" and ret: "do_command sys c q w = Inr w'"
  shows "goes reg L {} w w'"
proof (cases q)
  case (SendString i)
  with ret have "w' = w \<or> state (conns w c) = kConnected \<and> (\<exists>data. SendInLoop sys c data w = Inr w')"
    by (auto simp: send_string_def split: option.splits if_splits)
  then show ?thesis using goes_refl [OF tidy] send_goes [OF laws tidy c] by blast
qed (use ret shutdown_goes [OF tidy c(1)] in auto)

lemma answering_gentle:
  assumes laws: "epoll_laws (sys_ctl (lsys sys)) reg"
  shows "gentle reg (answering sys prog)"
  unfolding gentle_def
proof (intro allI impI)
  fix L u w w'
  assume tidy: "tidy reg L w" and u: "local_call w u" and ret: "answering sys prog u w = Inr w'"
  from ret have run: "foldR (do_command sys (call_conn u)) (prog u) w = Inr w'" by (simp add: answering_def)
  show "goes reg L {} w w'"
  proof (rule foldR_invariant [OF run, where P = "goes reg L {} w"])
    show "goes reg L {} w w" by (rule goes_refl [OF tidy])
    show "goes reg L {} w v'" if "goes reg L {} w v" "do_command sys (call_conn u) q v = Inr v'" for q v v'
    proof (rule goes_then [OF that(1)])
      assume "tidy reg L v" and S: "same_rest w v"
      then show "goes reg L {} v v'"
        using u that(2) same_restD [OF S] by (intro do_command_goes [OF laws]) (auto simp: local_call_def)
    qed
  qed
qed

end
