(* ===== verification/Server_Life.thy ===== *)
theory Server_Life
  imports Server_Frames
begin

text \<open>
  The life of the connections of a server over all its loops: who holds a \<^verbatim>\<open>TcpConnectionPtr\<close>,
  when the last one is dropped, and what is left then. The threads of the loops are interleaved
  as steps: waiting for events, handling one of them, a new connection in the base loop, and a
  round of \<^verbatim>\<open>DoCallback\<close> as taking the queue, running one functor at a time, and
  destroying the functors at the end, with which their references go.
\<close>

section \<open>References\<close>

text \<open>
  \<open>due i\<close> are the active channels of the loop \<open>i\<close> that are still to be handled, \<open>batch i\<close> the
  functors it has taken from its queue and not run yet, \<open>finished i\<close> those it has run and not
  destroyed; \<open>open_fds\<close> are the descriptors of accepted connections that are open.
\<close>

record ('t, 'k, 'e, 's, 'a) life = "('t, 'k, 'e, 's, 'a) server" +
  due :: "nat \<Rightarrow> nat list"
  batch :: "nat \<Rightarrow> ('t, 'a srv_callback conn_functor) loop_functor list"
  finished :: "nat \<Rightarrow> ('t, 'a srv_callback conn_functor) loop_functor list"
  open_fds :: "int set"

text \<open>
  The connections a functor holds: those bound as a shared pointer. \<^verbatim>\<open>SendInLoop\<close> and
  \<^verbatim>\<open>ShutdownInLoop\<close> are bound to a plain pointer.
\<close>

fun functor_holds :: "('t, 'x conn_functor) loop_functor \<Rightarrow> nat option" where
  "functor_holds (UserF (UserCallF u)) = Some (call_conn u)"
| "functor_holds (UserF (ConnectEstablishedF c)) = Some c"
| "functor_holds (UserF (ConnectDestoryedF c)) = Some c"
| "functor_holds f = None"

definition todo :: "nat \<Rightarrow> ('t, 'k, 'e, 's, 'a) life \<Rightarrow> ('t, 'a srv_callback conn_functor) loop_functor list" where
  "todo i w = batch w i @ functors (loop_at i w)"

definition held :: "nat \<Rightarrow> ('t, 'k, 'e, 's, 'a) life \<Rightarrow> bool" where
  "held c w \<longleftrightarrow> c \<in> ran (connections w) \<or>
     (\<exists>i. \<exists>f\<in>set (finished w i @ todo i w). functor_holds f = Some c)"

text \<open>\<^verbatim>\<open>~TcpConnection\<close>: the members go, with the socket the descriptor is closed.\<close>

definition delete_TcpConnection :: "'s sock_sys \<Rightarrow> nat \<Rightarrow> ('t, 'k, 'e, 's, 'a) life \<Rightarrow> ('t, 'k, 'e, 's, 'a) life" where
  "delete_TcpConnection sock c w =
     w\<lparr>conn_alive := (conn_alive w)(c := False),
       sockets := delete_Socket sock (conn_fd (conns w c)) (sockets w),
       open_fds := open_fds w - {conn_fd (conns w c)}\<rparr>"

text \<open>A shared pointer to \<open>c\<close> has gone.\<close>

definition release :: "'s sock_sys \<Rightarrow> nat option \<Rightarrow> ('t, 'k, 'e, 's, 'a) life \<Rightarrow> ('t, 'k, 'e, 's, 'a) life" where
  "release sock r w = (case r of None \<Rightarrow> w
     | Some c \<Rightarrow> if conn_alive w c \<and> \<not> held c w then delete_TcpConnection sock c w else w)"

section \<open>Steps\<close>

text \<open>
  \<open>own i\<close> are the channels of the loop \<open>i\<close> that belong to no connection: of its eventfd, of its
  timers, in the base loop also of the acceptor. \<open>epoll_wait\<close> reports channels that are
  registered, with any event bits. A new connection is made in fresh memory (\<open>c\<close> for it, \<open>r\<close> for
  its channel) on the descriptor the kernel gave, which is not open. The events of a connection's
  channel go through \<^verbatim>\<open>Channel::HandleEvent\<close> to the handlers the channel has.
\<close>

abbreviation pop_due :: "nat \<Rightarrow> nat list \<Rightarrow> ('t, 'k, 'e, 's, 'a) life \<Rightarrow> ('t, 'k, 'e, 's, 'a) life" where
  "pop_due i rs w \<equiv> switch i w\<lparr>due := (due w)(i := rs)\<rparr>"

inductive life_step :: "('k \<Rightarrow> int \<Rightarrow> epoll_event option) \<Rightarrow> 's sock_sys \<Rightarrow> ('k, 'e, 's) net_sys \<Rightarrow>
    ('t \<Rightarrow> ('t, 'k, 'e, 's, 'a) life \<Rightarrow> ('t, 'k, 'e, 's, 'a) life res) \<Rightarrow>
    ('a srv_callback user_call \<Rightarrow> ('t, 'k, 'e, 's, 'a) life \<Rightarrow> ('t, 'k, 'e, 's, 'a) life res) \<Rightarrow>
    (nat \<Rightarrow> nat set) \<Rightarrow> ('t, 'k, 'e, 's, 'a) life \<Rightarrow> ('t, 'k, 'e, 's, 'a) life \<Rightarrow> bool"
  for reg :: "'k \<Rightarrow> int \<Rightarrow> epoll_event option" and sock :: "'s sock_sys" and sys :: "('k, 'e, 's) net_sys"
    and tick :: "'t \<Rightarrow> ('t, 'k, 'e, 's, 'a) life \<Rightarrow> ('t, 'k, 'e, 's, 'a) life res"
    and app :: "'a srv_callback user_call \<Rightarrow> ('t, 'k, 'e, 's, 'a) life \<Rightarrow> ('t, 'k, 'e, 's, 'a) life res"
    and own :: "nat \<Rightarrow> nat set" where
  wait: "life_step reg sock sys tick app own w
      ((switch i w)\<lparr>poller_of := p, ActiveChannels := active, PollreturnTime := t, due := (due w)(i := active)\<rparr>)"
    if "due w i = []" and "batch w i = []" and "finished w i = []"
      and "\<forall>es. answer = WaitOk es \<longrightarrow>
        (\<forall>e\<in>set es. \<exists>f ev. reg (epoll (poller_of (loop_at i w))) f = Some ev \<and> ev_ptr ev = ev_ptr e)"
      and "poll answer now (poller_of (loop_at i w), []) = ((p, active), t)"
| accept: "life_step reg sock sys tick app own w w'"
    if "i = BaseLoop (ThreadPool w)" and "due w i = acceptor_channel w # rs"
      and "Socket_accept sock (acceptor_fd w) zero_sockaddr (sockets w) = ((connfd, peer), s)"
      and "Acceptor_HandleRead sock sys app c r ((pop_due i rs w)\<lparr>open_fds :=
             (if 0 \<le> connfd \<and> NewConnectionCallback w then insert connfd (open_fds w) else open_fds w)\<rparr>) = Inr w'"
      and "\<not> conn_alive w c" and "\<forall>i. r \<notin> own i" and "\<forall>d. conn_alive w d \<longrightarrow> channel_of (conns w d) \<noteq> r"
      and "connfd \<notin> open_fds w" and "\<forall>i. \<forall>q\<in>own i. fd (chans (poller_of (loop_at i w)) q) \<noteq> connfd"
| own_event: "life_step reg sock sys tick app own w w'"
    if "due w i = r # rs" and "r \<in> own i" and "h = EventLoopRead \<or> h = TimerQueueRead"
      and "run_handler (lsys sys) tick (\<lambda>_ _. Inr) h t (pop_due i rs w) = Inr w'"
| event: "life_step reg sock sys tick app own w w'"
    if "due w i = r # rs" and "r \<notin> own i"
      and "handle_channel conn_alive (run_handler (lsys sys) tick (run_conn_handler sys (srv_usr sys app) Inr))
             r t (pop_due i rs w) = Inr w'"
| take: "life_step reg sock sys tick app own w
      ((switch i w)\<lparr>callable := True, functors := [], batch := (batch w)(i := functors (loop_at i w))\<rparr>)"
    if "due w i = []" and "batch w i = []" and "finished w i = []"
| run: "life_step reg sock sys tick app own w w'"
    if "batch w i = f # fs"
      and "run_functor (lsys sys) (run_srv sys app) f
             ((switch i w)\<lparr>batch := (batch w)(i := fs), finished := (finished w)(i := finished w i @ [f])\<rparr>) = Inr w'"
| ran: "life_step reg sock sys tick app own w ((switch i w)\<lparr>callable := False\<rparr>)"
    if "batch w i = []"
| destroy: "life_step reg sock sys tick app own w
      (release sock (functor_holds f) ((switch i w)\<lparr>finished := (finished w)(i := fs)\<rparr>))"
    if "batch w i = []" and "\<not> callable (loop_at i w)" and "finished w i = f # fs"

section \<open>The invariant\<close>

definition alive_at :: "nat \<Rightarrow> ('t, 'k, 'e, 's, 'a, 'z) srv \<Rightarrow> nat set" where
  "alive_at i w = {c. conn_alive w c \<and> conn_loop w c = i}"

definition chans_at :: "(nat \<Rightarrow> nat set) \<Rightarrow> nat \<Rightarrow> ('t, 'k, 'e, 's, 'a, 'z) srv \<Rightarrow> nat set" where
  "chans_at own i w = own i \<union> (\<lambda>c. channel_of (conns w c)) ` alive_at i w"

text \<open>The identities: what tells connections apart, and what the map and the kernel know of them.\<close>

definition identities :: "(nat \<Rightarrow> nat set) \<Rightarrow> ('t, 'k, 'e, 's, 'a) life \<Rightarrow> bool" where
  "identities own w \<longleftrightarrow>
     inj_on (\<lambda>c. channel_of (conns w c)) {c. conn_alive w c} \<and>
     inj_on (\<lambda>c. conn_fd (conns w c)) {c. conn_alive w c} \<and>
     inj_on (\<lambda>c. conn_name (conns w c)) {c. conn_alive w c} \<and>
     open_fds w = (\<lambda>c. conn_fd (conns w c)) ` {c. conn_alive w c} \<and>
     (\<forall>c. conn_alive w c \<longrightarrow> conn_CloseCallback (conns w c) = Some RemoveConnectionCb \<and>
        (\<forall>i. channel_of (conns w c) \<notin> own i) \<and>
        (\<exists>n. sint n < sint (NextConnectionId w) \<and>
           conn_name (conns w c) = connection_name (srv_name w) (srv_IpPort w) n)) \<and>
     (\<forall>name c. connections w name = Some c \<longrightarrow> conn_alive w c) \<and>
     srv_inv w \<and> length (srv_IpPort w) \<le> 40"

text \<open>The loops: every poller serves its own channels and those of its live connections.\<close>

definition tidy_at :: "('k \<Rightarrow> int \<Rightarrow> epoll_event option) \<Rightarrow> nat set \<Rightarrow> nat \<Rightarrow>
    ('t, 'k, 'e, 's, 'a, 'z) srv \<Rightarrow> bool" where
  "tidy_at reg L i w \<longleftrightarrow> poller_inv reg L (poller_of (loop_at i w)) \<and> watches_only reg L (poller_of (loop_at i w)) \<and>
     inj_on (\<lambda>c. channel_of (conns w c)) (alive_at i w) \<and>
     (\<forall>c\<in>alive_at i w. channel_of (conns w c) \<in> L \<and>
        (state (conns w c) = kConnected \<longrightarrow> known (channel_of (conns w c)) (loop_at i w)))"

definition loops_served :: "('k \<Rightarrow> int \<Rightarrow> epoll_event option) \<Rightarrow> (nat \<Rightarrow> nat set) \<Rightarrow>
    ('t, 'k, 'e, 's, 'a) life \<Rightarrow> bool" where
  "loops_served reg own w \<longleftrightarrow> (\<forall>i. tidy_at reg (chans_at own i w) i w) \<and>
     (\<forall>c. conn_alive w c \<longrightarrow> wiring (chans (poller_of (loop_at (conn_loop w c) w)) (channel_of (conns w c))) =
        (conn_fd (conns w c), Some (Handler (HeadleReadOf c)), Some (Handler (HandleWriteOf c)), None, None))"

abbreviation serves :: "('t, 'k, 'e, 's, 'a) life \<Rightarrow> nat \<Rightarrow> bool" where
  "serves w c \<equiv> known (channel_of (conns w c)) (loop_at (conn_loop w c) w)"

text \<open>The queues: no functor waits for a thing that has gone or comes too early.\<close>

fun timely :: "nat \<Rightarrow> ('t, 'k, 'e, 's, 'a) life \<Rightarrow> ('t, 'a srv_callback conn_functor) loop_functor \<Rightarrow> bool" where
  "timely i w (TimerF g) \<longleftrightarrow> True"
| "timely i w (UserF (UserCallF u)) \<longleftrightarrow>
     \<not> is_close u \<and> conn_loop w (call_conn u) = i \<or>
     u = CloseCall RemoveConnectionInLoopCb (call_conn u) \<and>
       UserF (ConnectEstablishedF (call_conn u)) \<notin> set (todo (conn_loop w (call_conn u)) w)"
| "timely i w (UserF (ConnectEstablishedF c)) \<longleftrightarrow>
     conn_loop w c = i \<and> c \<in> ran (connections w) \<and> \<not> serves w c"
| "timely i w (UserF (ConnectDestoryedF c)) \<longleftrightarrow> conn_loop w c = i \<and> c \<notin> ran (connections w)"
| "timely i w (UserF f) \<longleftrightarrow> False"

fun is_opening :: "('t, 'x conn_functor) loop_functor \<Rightarrow> bool" where
  "is_opening (UserF (ConnectEstablishedF c)) \<longleftrightarrow> True"
| "is_opening f \<longleftrightarrow> False"

definition queues_timely :: "nat set \<Rightarrow> ('t, 'k, 'e, 's, 'a) life \<Rightarrow> bool" where
  "queues_timely X w \<longleftrightarrow> (\<forall>i. distinct (filter is_opening (todo i w)) \<and> (\<forall>f\<in>set (todo i w). timely i w f)) \<and>
     (\<forall>c. conn_alive w c \<longrightarrow> c \<notin> ran (connections w) \<longrightarrow> serves w c \<longrightarrow> c \<notin> X \<longrightarrow>
        UserF (ConnectDestoryedF c) \<in> set (todo (conn_loop w c) w))"

definition refs_counted :: "nat set \<Rightarrow> ('t, 'k, 'e, 's, 'a) life \<Rightarrow> bool" where
  "refs_counted Y w \<longleftrightarrow> (\<forall>c. (held c w \<longrightarrow> conn_alive w c) \<and> (conn_alive w c \<longrightarrow> c \<notin> Y \<longrightarrow> held c w))"

definition events_due :: "(nat \<Rightarrow> nat set) \<Rightarrow> ('t, 'k, 'e, 's, 'a) life \<Rightarrow> bool" where
  "events_due own w \<longleftrightarrow> (\<forall>i. due w i \<noteq> [] \<longrightarrow> batch w i = [] \<and> finished w i = []) \<and>
     (\<forall>i. \<forall>r\<in>set (due w i). r \<in> own i \<or> (\<exists>c\<in>alive_at i w. channel_of (conns w c) = r \<and> serves w c))"

text \<open>
  \<open>X\<close> are connections whose \<^verbatim>\<open>ConnectDestoryed\<close> is being run, \<open>Y\<close> those of which a reference
  has just been dropped; both are empty between steps.
\<close>

definition life_inv :: "('k \<Rightarrow> int \<Rightarrow> epoll_event option) \<Rightarrow> (nat \<Rightarrow> nat set) \<Rightarrow> nat set \<Rightarrow> nat set \<Rightarrow>
    ('t, 'k, 'e, 's, 'a) life \<Rightarrow> bool" where
  "life_inv reg own X Y w \<longleftrightarrow> identities own w \<and> loops_served reg own w \<and> queues_timely X w \<and>
     refs_counted Y w \<and> events_due own w"

section \<open>Looking at a loop from any thread\<close>

lemma life_switch [simp]:
  "due (switch i w) = due w" "batch (switch i w) = batch w" "finished (switch i w) = finished w"
  "open_fds (switch i w) = open_fds w"
  by (cases w; simp add: switch_def event_loop.defs)+

lemma life_more:
  assumes "server.more w' = server.more w"
  shows "due w' = due w" "batch w' = batch w" "finished w' = finished w" "open_fds w' = open_fds w"
  using assms by (cases w; cases w'; simp)+

lemma loop_at_life [simp]:
  "loop_at j (w\<lparr>due := d\<rparr>) = loop_at j w" "loop_at j (w\<lparr>batch := b\<rparr>) = loop_at j w"
  "loop_at j (w\<lparr>finished := f\<rparr>) = loop_at j w" "loop_at j (w\<lparr>open_fds := fds\<rparr>) = loop_at j w"
  "loop_at j (w\<lparr>sockets := s\<rparr>) = loop_at j w" "loop_at j (w\<lparr>conn_alive := a\<rparr>) = loop_at j w"
  by (simp_all add: loop_at_def event_loop.defs)

lemma alive_at_switch [simp]: "alive_at j (switch i w) = alive_at j w"
  by (simp add: alive_at_def)

lemma chans_at_switch [simp]: "chans_at own j (switch i w) = chans_at own j w"
  by (simp add: chans_at_def)

lemma known_here: "known r w = known r (loop_at (here w) w)"
  by (simp add: known_def loop_at_def)

lemma tidy_iff: "tidy reg L w = tidy_at reg L (here w) w"
  using current_loop(1) [of w] known_here [of _ w]
  by (auto simp: tidy_def tidy_at_def alive_at_def)

lemma tidy_at_switch [simp]: "tidy_at reg L j (switch i w) = tidy_at reg L j w"
  by (simp add: tidy_at_def)

lemma srv_inv_switch [simp]: "srv_inv (switch i w) = srv_inv w"
  by (simp add: srv_inv_def)

lemma todo_switch [simp]: "todo j (switch i w) = todo j w"
  by (simp add: todo_def)

lemma held_switch [simp]: "held c (switch i w) = held c w"
  by (simp add: held_def)

lemma timely_switch [simp]: "timely j (switch i w) f = timely j w f"
  by (cases "(j, w, f)" rule: timely.cases) simp_all

lemma life_inv_switch [simp]: "life_inv reg own X Y (switch i w) = life_inv reg own X Y w"
  by (simp add: life_inv_def identities_def loops_served_def queues_timely_def refs_counted_def events_due_def)

lemma heldI:
  "f \<in> set (todo i w) \<Longrightarrow> functor_holds f = Some c \<Longrightarrow> held c w"
  "f \<in> set (finished w i) \<Longrightarrow> functor_holds f = Some c \<Longrightarrow> held c w"
  "connections w name = Some c \<Longrightarrow> held c w"
  by (auto simp: held_def ran_def)

lemma life_invD:
  assumes "life_inv reg own X Y w"
  shows "identities own w" "loops_served reg own w" "queues_timely X w" "refs_counted Y w" "events_due own w"
  using assms by (simp_all add: life_inv_def)

lemma identitiesD:
  assumes "identities own w"
  shows "conn_alive w c \<Longrightarrow> conn_alive w d \<Longrightarrow> channel_of (conns w c) = channel_of (conns w d) \<Longrightarrow> c = d"
    and "conn_alive w c \<Longrightarrow> conn_alive w d \<Longrightarrow> conn_fd (conns w c) = conn_fd (conns w d) \<Longrightarrow> c = d"
    and "conn_alive w c \<Longrightarrow> conn_alive w d \<Longrightarrow> conn_name (conns w c) = conn_name (conns w d) \<Longrightarrow> c = d"
    and "open_fds w = (\<lambda>c. conn_fd (conns w c)) ` {c. conn_alive w c}"
    and "conn_alive w c \<Longrightarrow> conn_CloseCallback (conns w c) = Some RemoveConnectionCb"
    and "conn_alive w c \<Longrightarrow> channel_of (conns w c) \<notin> own i"
    and "connections w name = Some c \<Longrightarrow> conn_alive w c"
    and "connections w name = Some c \<Longrightarrow> conn_name (conns w c) = name"
    and "srv_inv w" and "length (srv_IpPort w) \<le> 40"
    and "conn_alive w c \<Longrightarrow> \<exists>n. sint n < sint (NextConnectionId w) \<and>
      conn_name (conns w c) = connection_name (srv_name w) (srv_IpPort w) n"
  using assms srv_invD(3) [of w name c] by (auto simp: identities_def inj_on_def)

lemma identities_inj:
  assumes "identities own w"
  shows "inj_on (\<lambda>c. channel_of (conns w c)) {c. conn_alive w c}" "inj_on (\<lambda>c. conn_fd (conns w c)) {c. conn_alive w c}"
    "inj_on (\<lambda>c. conn_name (conns w c)) {c. conn_alive w c}"
  using assms by (simp_all add: identities_def)

lemma loops_servedD:
  assumes "loops_served reg own w"
  shows "tidy_at reg (chans_at own i w) i w"
    and "conn_alive w c \<Longrightarrow> wiring (chans (poller_of (loop_at (conn_loop w c) w)) (channel_of (conns w c))) =
        (conn_fd (conns w c), Some (Handler (HeadleReadOf c)), Some (Handler (HandleWriteOf c)), None, None)"
  using assms by (simp_all add: loops_served_def)

lemma queues_timelyD:
  assumes "queues_timely X w"
  shows "distinct (filter is_opening (todo i w))" and "f \<in> set (todo i w) \<Longrightarrow> timely i w f"
    and "conn_alive w c \<Longrightarrow> c \<notin> ran (connections w) \<Longrightarrow> serves w c \<Longrightarrow> c \<notin> X \<Longrightarrow>
        UserF (ConnectDestoryedF c) \<in> set (todo (conn_loop w c) w)"
  using assms by (simp_all add: queues_timely_def)

lemma refs_countedD:
  assumes "refs_counted Y w"
  shows "held c w \<Longrightarrow> conn_alive w c" and "conn_alive w c \<Longrightarrow> c \<notin> Y \<Longrightarrow> held c w"
  using assms by (simp_all add: refs_counted_def)

lemma events_dueD:
  assumes "events_due own w"
  shows "due w i \<noteq> [] \<Longrightarrow> batch w i = []" and "due w i \<noteq> [] \<Longrightarrow> finished w i = []"
    and "r \<in> set (due w i) \<Longrightarrow> r \<in> own i \<or> (\<exists>c\<in>alive_at i w. channel_of (conns w c) = r \<and> serves w c)"
  using assms by (simp_all add: events_due_def)

section \<open>Tame operations\<close>

lemma tame_life:
  assumes "tame R w w'"
  shows "due w' = due w" "batch w' = batch w" "finished w' = finished w" "open_fds w' = open_fds w"
    and "j \<noteq> here w \<Longrightarrow> loop_at j w' = loop_at j w" and "j \<noteq> here w \<Longrightarrow> todo j w' = todo j w"
    and "alive_at j w' = alive_at j w" and "chans_at own j w' = chans_at own j w"
    and "known r (loop_at j w') = (if j = here w then known r w' else known r (loop_at j w))"
proof -
  note S = same_restD [OF tame_same [OF assms]]
  show more: "due w' = due w" "batch w' = batch w" "finished w' = finished w" "open_fds w' = open_fds w"
    using life_more [OF S(10)] by simp_all
  show loop: "loop_at j w' = loop_at j w" if "j \<noteq> here w" for j
    using that by (simp add: loop_at_def S)
  show "j \<noteq> here w \<Longrightarrow> todo j w' = todo j w" by (simp add: todo_def more loop)
  show alive: "alive_at j w' = alive_at j w" for j by (simp add: alive_at_def S)
  show "chans_at own j w' = chans_at own j w" by (simp add: chans_at_def alive S)
  show "known r (loop_at j w') = (if j = here w then known r w' else known r (loop_at j w))"
    using known_here [of r w'] loop by (simp add: S)
qed

lemma tame_todo:
  assumes "tame R w w'"
  obtains us where "todo (here w) w' = todo (here w) w @ map (\<lambda>u. UserF (UserCallF u)) us"
    and "\<forall>u\<in>set us. local_call w u"
proof -
  note S = same_restD [OF tame_same [OF assms]]
  from assms obtain us where us: "functors w' = functors w @ map (\<lambda>u. UserF (UserCallF u)) us"
    "\<forall>u\<in>set us. local_call w u" by (auto simp: tame_def)
  have "functors (loop_at (here w) w') = functors w'" using current_loop(2) [of w'] by (simp add: S)
  with us current_loop(2) [of w] show thesis
    by (intro that [of us]) (simp_all add: todo_def tame_life [OF assms])
qed

lemma tame_identities:
  assumes "tame R w w'" and "identities own w"
  shows "identities own w'"
proof -
  note S = same_restD [OF tame_same [OF assms(1)]]
  have "srv_inv w' = srv_inv w" by (simp add: srv_inv_def S)
  with assms(2) show ?thesis by (simp add: identities_def S tame_life [OF assms(1)])
qed

lemma goes_served:
  assumes g: "goes reg (chans_at own (here w) w) R w w'" and inv: "loops_served reg own w"
    and R: "\<And>j c. j \<noteq> here w \<Longrightarrow> c \<in> alive_at j w \<Longrightarrow> channel_of (conns w c) \<notin> R"
  shows "loops_served reg own w'"
proof -
  note t = goesD(1) [OF g] and S = same_restD [OF goesD(3) [OF g]]
  note I = loops_servedD [OF inv] and L = tame_life [OF t]
  have tidy: "tidy_at reg (chans_at own j w') j w'" for j
  proof (cases "j = here w")
    case True
    with goesD(2) [OF g] show ?thesis by (simp add: tidy_iff L S)
  next
    case False
    have "state (conns w c) = kConnected" if "c \<in> alive_at j w" "state (conns w' c) = kConnected" for c
      using tameD(3) [OF t R [OF False that(1)] that(2)] .
    with I(1) [of j] show ?thesis by (auto simp: tidy_at_def L S False)
  qed
  have "wiring (chans (poller_of (loop_at j w')) r) = wiring (chans (poller_of (loop_at j w)) r)" for j r
  proof (cases "j = here w")
    case True
    with tameD(1) [OF t, of r] current_loop(1) [of w] current_loop(1) [of w'] show ?thesis by (simp add: S)
  next
    case False
    then show ?thesis by (simp add: L)
  qed
  with I(2) tidy show ?thesis by (simp add: loops_served_def S)
qed

lemma tame_serves:
  assumes t: "tame R w w'" and "conn_loop w c \<noteq> here w \<or> channel_of (conns w c) \<notin> R"
  shows "serves w' c = serves w c"
proof -
  note S = same_restD [OF tame_same [OF t]]
  show ?thesis
    using assms(2) tameD(2) [OF t, of "channel_of (conns w c)"] known_here [of "channel_of (conns w c)" w]
    by (auto simp: S tame_life(9) [OF t])
qed

text \<open>What a change of the channels \<open>R\<close> must respect for the queues and the events.\<close>

definition heeds :: "nat set \<Rightarrow> ('t, 'k, 'e, 's, 'a) life \<Rightarrow> ('t, 'k, 'e, 's, 'a) life \<Rightarrow> bool" where
  "heeds R w w' \<longleftrightarrow> (\<forall>c. conn_alive w c \<longrightarrow> channel_of (conns w c) \<in> R \<longrightarrow> conn_loop w c = here w \<and>
     (if serves w' c then UserF (ConnectEstablishedF c) \<notin> set (todo (here w) w) \<and> c \<in> ran (connections w)
      else due w (here w) = []))"

lemma tame_opening:
  assumes t: "tame R w w'"
  shows "UserF (ConnectEstablishedF c) \<in> set (todo j w') \<longleftrightarrow> UserF (ConnectEstablishedF c) \<in> set (todo j w)"
    and "UserF (ConnectDestoryedF c) \<in> set (todo j w') \<longleftrightarrow> UserF (ConnectDestoryedF c) \<in> set (todo j w)"
    and "filter is_opening (todo j w') = filter is_opening (todo j w)"
proof -
  obtain us where us: "todo (here w) w' = todo (here w) w @ map (\<lambda>u. UserF (UserCallF u)) us"
    by (rule tame_todo [OF t])
  have "filter is_opening (map (\<lambda>u. UserF (UserCallF u)) us :: ('b, 'd srv_callback conn_functor) loop_functor list) = []"
    for us :: "'d srv_callback user_call list" by (simp add: filter_empty_conv)
  with us show "UserF (ConnectEstablishedF c) \<in> set (todo j w') \<longleftrightarrow> UserF (ConnectEstablishedF c) \<in> set (todo j w)"
    "UserF (ConnectDestoryedF c) \<in> set (todo j w') \<longleftrightarrow> UserF (ConnectDestoryedF c) \<in> set (todo j w)"
    "filter is_opening (todo j w') = filter is_opening (todo j w)"
    using tame_life(6) [OF t, of j] by (cases "j = here w"; auto)+
qed

lemma tame_queues:
  assumes t: "tame R w w'" and inv: "queues_timely X w" and refs: "refs_counted Y w" and R: "heeds R w w'"
  shows "queues_timely X w'"
proof -
  note S = same_restD [OF tame_same [OF t]] and Q = queues_timelyD [OF inv]
  obtain us where us: "todo (here w) w' = todo (here w) w @ map (\<lambda>u. UserF (UserCallF u)) us"
    "\<forall>u\<in>set us. local_call w u" by (rule tame_todo [OF t])
  have serves: "serves w' c = serves w c"
    if "conn_alive w c" "channel_of (conns w c) \<in> R \<Longrightarrow> False" for c
    using tame_serves [OF t] that(2) by blast
  have old: "timely j w' f" if f: "f \<in> set (todo j w)" for j f
  proof -
    have T: "timely j w f" by (rule Q(2) [OF f])
    show ?thesis
    proof (cases "(j, w, f)" rule: timely.cases)
      case (3 i v c)
      have held: "held c w" using heldI(1) [OF f] 3 by simp
      have alive: "conn_alive w c" by (rule refs_countedD(1) [OF refs held])
      have "\<not> serves w' c"
      proof (cases "channel_of (conns w c) \<in> R")
        case True
        with R alive f 3 T show ?thesis by (auto simp: heeds_def split: if_splits)
      next
        case False
        with serves [OF alive] T 3 show ?thesis by auto
      qed
      with T 3 show ?thesis by (simp add: S)
    qed (use T in \<open>auto simp: S tame_opening [OF t]\<close>)
  qed
  have timely: "timely j w' f" if "f \<in> set (todo j w')" for j f
  proof (cases "f \<in> set (todo j w)")
    case False
    with that us tame_life(6) [OF t, of j] have "j = here w" "f \<in> (\<lambda>u. UserF (UserCallF u)) ` set us"
      by (cases "j = here w"; auto)+
    with us(2) show ?thesis by (auto simp: local_call_def S)
  qed (rule old)
  have "UserF (ConnectDestoryedF c) \<in> set (todo (conn_loop w' c) w')"
    if c: "conn_alive w' c" "c \<notin> ran (connections w')" "serves w' c" "c \<notin> X" for c
  proof -
    have "channel_of (conns w c) \<notin> R" using R c by (auto simp: heeds_def S)
    with serves [of c] c have "serves w c" by (simp add: S)
    with Q(3) [of c] c show ?thesis by (simp add: S tame_opening [OF t])
  qed
  with Q(1) timely show ?thesis by (simp add: queues_timely_def tame_opening(3) [OF t])
qed

lemma tame_refs:
  assumes t: "tame R w w'" and inv: "refs_counted Y w"
  shows "refs_counted Y w'"
proof -
  note S = same_restD [OF tame_same [OF t]] and C = refs_countedD [OF inv] and L = tame_life [OF t]
  obtain us where us: "todo (here w) w' = todo (here w) w @ map (\<lambda>u. UserF (UserCallF u)) us"
    "\<forall>u\<in>set us. local_call w u" by (rule tame_todo [OF t])
  have sub: "set (todo j w) \<subseteq> set (todo j w')" for j
    using us(1) L(6) [of j] by (cases "j = here w") auto
  have new: "f \<in> set (todo j w) \<or> f \<in> (\<lambda>u. UserF (UserCallF u)) ` set us" if "f \<in> set (todo j w')" for j f
    using that us(1) L(6) [of j] by (cases "j = here w") auto
  have "held c w' \<Longrightarrow> conn_alive w c" for c
    using C(1) [of c] new us(2) unfolding held_def S L set_append by (fastforce simp: local_call_def)
  moreover have "held c w \<Longrightarrow> held c w'" for c
    using sub unfolding held_def S L set_append by blast
  ultimately show ?thesis using C(2) by (auto simp: refs_counted_def S)
qed

lemma tame_events:
  assumes t: "tame R w w'" and inv: "events_due own w" and R: "heeds R w w'"
  shows "events_due own w'"
proof -
  note S = same_restD [OF tame_same [OF t]] and E = events_dueD [OF inv] and L = tame_life [OF t]
  have "r \<in> own i \<or> (\<exists>c\<in>alive_at i w. channel_of (conns w c) = r \<and> serves w' c)" if r: "r \<in> set (due w i)" for r i
  proof -
    have "serves w' c" if c: "c \<in> alive_at i w" "channel_of (conns w c) = r" "serves w c" for c
    proof (cases "r \<in> R")
      case True
      with c R r show ?thesis by (fastforce simp: heeds_def alive_at_def split: if_splits)
    next
      case False
      with c tame_serves [OF t, of c] show ?thesis by blast
    qed
    with E(3) [OF r] show ?thesis by blast
  qed
  with E(1,2) show ?thesis by (simp add: events_due_def S L)
qed

lemma goes_life:
  assumes inv: "life_inv reg own X Y w" and g: "goes reg (chans_at own (here w) w) R w w'" and R: "heeds R w w'"
  shows "life_inv reg own X Y w'"
proof -
  note t = goesD(1) [OF g] and I = life_invD [OF inv]
  have "channel_of (conns w c) \<notin> R" if "j \<noteq> here w" "c \<in> alive_at j w" for j c
    using R that by (auto simp: heeds_def alive_at_def)
  with tame_identities [OF t I(1)] goes_served [OF g I(2)] tame_queues [OF t I(3,4) R] tame_refs [OF t I(4)]
    tame_events [OF t I(5) R]
  show ?thesis by (simp add: life_inv_def)
qed

lemma heeds_none: "heeds {} w w'"
  by (simp add: heeds_def)

section \<open>Queueing and erasing\<close>

lemma known_poller: "poller_of l' = poller_of l \<Longrightarrow> known r l' = known r l"
  by (simp add: known_def)

text \<open>What the invariant looks at, apart from the queues.\<close>

definition same_view :: "('t, 'k, 'e, 's, 'a) life \<Rightarrow> ('t, 'k, 'e, 's, 'a) life \<Rightarrow> bool" where
  "same_view w w' \<longleftrightarrow> conns w' = conns w \<and> conn_alive w' = conn_alive w \<and> conn_loop w' = conn_loop w \<and>
     srv_inv w' = srv_inv w \<and> NextConnectionId w' = NextConnectionId w \<and> srv_name w' = srv_name w \<and>
     srv_IpPort w' = srv_IpPort w \<and> open_fds w' = open_fds w \<and>
     (\<forall>j. poller_of (loop_at j w') = poller_of (loop_at j w))"

lemma same_viewD:
  assumes "same_view w w'"
  shows "conns w' = conns w" "conn_alive w' = conn_alive w" "conn_loop w' = conn_loop w"
    "alive_at j w' = alive_at j w" "chans_at own j w' = chans_at own j w"
    "poller_of (loop_at j w') = poller_of (loop_at j w)" "known r (loop_at j w') = known r (loop_at j w)"
  using assms by (simp_all add: same_view_def alive_at_def chans_at_def known_def)

lemma same_view_identities:
  assumes "same_view w w'" and "identities own w" and "\<And>name c. connections w' name = Some c \<Longrightarrow> conn_alive w c"
  shows "identities own w'"
  using assms unfolding same_view_def identities_def by simp

lemma same_view_served:
  assumes "same_view w w'" and "loops_served reg own w"
  shows "loops_served reg own w'"
  using assms(2) same_viewD [OF assms(1)] by (simp add: loops_served_def tidy_at_def)

lemma life_inv_cong:
  assumes v: "same_view w w'" and inv: "life_inv reg own X Y w" and c: "connections w' = connections w"
    and todo: "\<And>j. todo j w' = todo j w" and held: "\<And>c. held c w' = held c w" and ev: "events_due own w'"
  shows "life_inv reg own X Y w'"
proof -
  note I = life_invD [OF inv] and V = same_viewD [OF v]
  have "identities own w'"
    by (rule same_view_identities [OF v I(1)]) (use identitiesD(7) [OF I(1)] c in auto)
  moreover have "timely j w' f = timely j w f" for j f
    by (cases "(j, w, f)" rule: timely.cases) (simp_all add: V c todo)
  ultimately show ?thesis
    using same_view_served [OF v I(2)] I(3,4) ev
    by (simp add: life_inv_def queues_timely_def refs_counted_def V c todo held)
qed

lemma life_inv_mono: "life_inv reg own X Y w \<Longrightarrow> X \<subseteq> X' \<Longrightarrow> Y \<subseteq> Y' \<Longrightarrow> life_inv reg own X' Y' w"
  by (auto simp: life_inv_def queues_timely_def refs_counted_def)

lemma not_serving_life: "life_inv reg own X Y w \<Longrightarrow> \<not> serves w c \<Longrightarrow> life_inv reg own (X - {c}) Y w"
  by (auto simp: life_inv_def queues_timely_def)

lemma queue_to_life [simp]:
  "due (queue_to sys i f w) = due w" "batch (queue_to sys i f w) = batch w"
  "finished (queue_to sys i f w) = finished w" "open_fds (queue_to sys i f w) = open_fds w"
  by (rule life_more, simp)+

lemma queue_to_poller [simp]: "poller_of (loop_at j (queue_to sys i f w)) = poller_of (loop_at j w)"
  by (simp add: loop_at_queue_to)

lemma queue_to_todo: "todo j (queue_to sys i f w) = todo j w @ (if j = i then [UserF f] else [])"
  by (simp add: todo_def loop_at_queue_to)

lemma queue_to_view: "same_view w (queue_to sys i f w)"
  by (simp add: same_view_def srv_inv_def)

lemma held_queue_to: "held c (queue_to sys i f w) \<longleftrightarrow> held c w \<or> functor_holds (UserF f :: ('t, 'a srv_callback conn_functor) loop_functor) = Some c"
  for w :: "('t, 'k, 'e, 's, 'a) life"
  unfolding held_def queue_to_todo set_append
  by (auto split: if_splits)

lemma queue_life:
  fixes w :: "('t, 'k, 'e, 's, 'a) life"
  assumes inv: "life_inv reg own X Y w" and c: "conn_alive w c"
    and holds: "functor_holds (UserF f :: ('t, 'a srv_callback conn_functor) loop_functor) = Some c"
    and f: "timely i (queue_to sys i f w) (UserF f)"
    and unopened: "f = ConnectEstablishedF c \<Longrightarrow> UserF f \<notin> set (todo i w) \<and>
      (\<forall>j. UserF (UserCallF (CloseCall RemoveConnectionInLoopCb c)) \<notin> set (todo j w))"
  shows "life_inv reg own (if f = ConnectDestoryedF c then X - {c} else X) (Y - {c}) (queue_to sys i f w)"
    (is "life_inv reg own ?X ?Y ?w")
proof -
  note I = life_invD [OF inv] and v = queue_to_view [of w sys i f]
  note V = same_viewD [OF v] and Q = queues_timelyD [OF I(3)]
  have id: "identities own ?w"
    by (rule same_view_identities [OF v I(1)]) (use identitiesD(7) [OF I(1)] in auto)
  have close: "f = ConnectEstablishedF (call_conn u) \<Longrightarrow> UserF (UserCallF u) \<in> set (todo j w) \<Longrightarrow>
      u \<noteq> CloseCall RemoveConnectionInLoopCb (call_conn u)" for u j
    using unopened holds by auto
  have old: "timely j ?w g" if g: "g \<in> set (todo j w)" for j g
    using Q(2) [OF g] close [of _ j] g
    by (cases "(j, w, g)" rule: timely.cases) (auto simp: V queue_to_todo split: if_splits)
  have timely: "timely j ?w g" if "g \<in> set (todo j ?w)" for j g
    using that old f by (auto simp: queue_to_todo split: if_splits)
  have open': "distinct (filter is_opening (todo j ?w))" for j
  proof (cases "j = i \<and> is_opening (UserF f :: ('t, 'a srv_callback conn_functor) loop_functor)")
    case True
    then have "f = ConnectEstablishedF c" using holds by (cases f) auto
    with unopened Q(1) [of i] True show ?thesis by (simp add: queue_to_todo)
  next
    case False
    with Q(1) [of j] show ?thesis by (auto simp: queue_to_todo)
  qed
  have "UserF (ConnectDestoryedF d) \<in> set (todo (conn_loop w d) ?w)"
    if d: "conn_alive w d" "d \<notin> ran (connections w)" "serves w d" "d \<notin> ?X" for d
  proof (cases "d \<in> X")
    case True
    with d(4) have "f = ConnectDestoryedF d" by (auto split: if_splits)
    with f show ?thesis by (auto simp: queue_to_todo)
  next
    case False
    from Q(3) [OF d(1-3) False] show ?thesis by (simp add: queue_to_todo)
  qed
  with timely open' have "queues_timely ?X ?w" by (simp add: queues_timely_def V)
  moreover have "refs_counted ?Y ?w"
    using refs_countedD [OF I(4)] holds c by (auto simp: refs_counted_def held_queue_to V)
  moreover have "events_due own ?w" using I(5) by (simp add: events_due_def V)
  ultimately show ?thesis using id same_view_served [OF v I(2)] by (simp add: life_inv_def)
qed

text \<open>Taking a connection out of the map; its references are to be looked at.\<close>

lemma erase_life:
  fixes w :: "('t, 'k, 'e, 's, 'a) life"
  assumes inv: "life_inv reg own X Y w" and c: "conn_alive w c"
    and opened: "UserF (ConnectEstablishedF c) \<notin> set (todo (conn_loop w c) w)"
    and w': "w' = w\<lparr>connections := (connections w)(conn_name (conns w c) := None)\<rparr>"
  shows "life_inv reg own (insert c X) (insert c Y) w'" and "c \<notin> ran (connections w')"
proof -
  note I = life_invD [OF inv] and D = identitiesD [OF life_invD(1) [OF inv]]
  have srv: "srv_inv w \<Longrightarrow> srv_inv w'" by (auto simp: srv_inv_def w')
  have more: "due w' = due w" "batch w' = batch w" "finished w' = finished w"
    by (rule life_more, simp add: w')+
  have V: "conns w' = conns w" "conn_alive w' = conn_alive w" "conn_loop w' = conn_loop w" "loop_at j w' = loop_at j w"
    "alive_at j w' = alive_at j w" "chans_at own j w' = chans_at own j w" "todo j w' = todo j w" for j
    by (simp_all add: w' alive_at_def chans_at_def todo_def)
  have entries: "ran (connections w') = ran (connections w) - {c}"
  proof (intro set_eqI iffI)
    fix d assume "d \<in> ran (connections w')"
    then obtain n where "connections w n = Some d" "n \<noteq> conn_name (conns w c)" by (auto simp: w' ran_def split: if_splits)
    with D(8) show "d \<in> ran (connections w) - {c}" by (auto simp: ran_def)
  next
    fix d assume "d \<in> ran (connections w) - {c}"
    then obtain n where n: "connections w n = Some d" "d \<noteq> c" by (auto simp: ran_def)
    with D(3) [of d c] D(7,8) [OF n(1)] c have "n \<noteq> conn_name (conns w c)" by auto
    with n show "d \<in> ran (connections w')" by (auto simp: w' ran_def)
  qed
  then show "c \<notin> ran (connections w')" by simp
  have "identities own w'"
    using I(1) srv unfolding identities_def by (auto simp: w')
  moreover have "loops_served reg own w'" using I(2) by (simp add: loops_served_def tidy_at_def V)
  moreover have "queues_timely (insert c X) w'"
  proof -
    have "timely j w' f" if f: "f \<in> set (todo j w)" for j f
      using queues_timelyD(2) [OF I(3) f] opened f
      by (cases "(j, w, f)" rule: timely.cases) (auto simp: V entries)
    with queues_timelyD(1,3) [OF I(3)] show ?thesis by (auto simp: queues_timely_def V entries)
  qed
  moreover have "refs_counted (insert c Y) w'"
    using refs_countedD [OF I(4)] by (auto simp: refs_counted_def held_def V entries more)
  moreover have "events_due own w'" using I(5) by (simp add: events_due_def V more)
  ultimately show "life_inv reg own (insert c X) (insert c Y) w'" by (simp add: life_inv_def)
qed

lemma RemoveConnectionInLoop_life:
  fixes w :: "('t, 'k, 'e, 's, 'a) life"
  assumes inv: "life_inv reg own X Y w" and c: "conn_alive w c"
    and opened: "UserF (ConnectEstablishedF c) \<notin> set (todo (conn_loop w c) w)"
  shows "life_inv reg own X Y (RemoveConnectionInLoop sys c w)"
proof -
  define w1 where "w1 = w\<lparr>connections := (connections w)(conn_name (conns w c) := None)\<rparr>"
  note E = erase_life [OF inv c opened w1_def]
  have f: "timely (conn_loop w c) (queue_to sys (conn_loop w c) (ConnectDestoryedF c) w1) (UserF (ConnectDestoryedF c))"
    using E(2) by (simp add: w1_def)
  have "life_inv reg own (insert c X - {c}) (insert c Y - {c}) (queue_to sys (conn_loop w c) (ConnectDestoryedF c) w1)"
    using queue_life [OF E(1) _ _ f, of c] c by (simp add: w1_def)
  then have "life_inv reg own X Y (queue_to sys (conn_loop w c) (ConnectDestoryedF c) w1)"
    by (rule life_inv_mono) auto
  then show ?thesis by (simp add: RemoveConnectionInLoop_def w1_def)
qed

lemma RemoveConnection_life:
  fixes w :: "('t, 'k, 'e, 's, 'a) life"
  assumes inv: "life_inv reg own X Y w" and c: "conn_alive w c"
    and opened: "UserF (ConnectEstablishedF c) \<notin> set (todo (conn_loop w c) w)"
  shows "life_inv reg own X Y (RemoveConnection sys c w)"
proof (cases "BaseLoop (ThreadPool w) = here w")
  case True
  with RemoveConnectionInLoop_life [OF assms] show ?thesis by (simp add: RemoveConnection_def)
next
  case False
  let ?f = "UserCallF (CloseCall RemoveConnectionInLoopCb c)" and ?i = "BaseLoop (ThreadPool w)"
  have f: "timely ?i (queue_to sys ?i ?f w) (UserF ?f)"
    using opened by (simp add: queue_to_todo)
  have "life_inv reg own X (Y - {c}) (queue_to sys ?i ?f w)"
    using queue_life [OF inv c _ f] by simp
  then have "life_inv reg own X Y (queue_to sys ?i ?f w)" by (rule life_inv_mono) auto
  with False show ?thesis by (simp add: RemoveConnection_def)
qed

section \<open>Steps that only move the queues\<close>

text \<open>The next functor to run goes from the batch to the finished ones.\<close>

lemma pop_life:
  fixes w :: "('t, 'k, 'e, 's, 'a) life"
  assumes inv: "life_inv reg own {} {} w" and b: "batch w i = f # fs"
    and w': "w' = (switch i w)\<lparr>batch := (batch w)(i := fs), finished := (finished w)(i := finished w i @ [f])\<rparr>"
  shows "life_inv reg own {c. f = UserF (ConnectDestoryedF c)} {} w'" and "todo i w = f # todo i w'"
    and "due w' i = []" and "here w' = i" and "timely i w f"
    and "is_opening f \<Longrightarrow> f \<notin> set (todo i w')"
proof -
  note I = life_invD [OF inv] and Q = queues_timelyD [OF life_invD(3) [OF inv]] and E = events_dueD [OF life_invD(5) [OF inv]]
  have v: "same_view w w'" by (simp add: same_view_def w' srv_inv_def)
  note V = same_viewD [OF v]
  have fields: "connections w' = connections w" "due w' = due w" "batch w' = (batch w)(i := fs)"
    "finished w' = (finished w)(i := finished w i @ [f])" by (simp_all add: w')
  have todo: "todo i w = f # todo i w'" "j \<noteq> i \<Longrightarrow> todo j w' = todo j w" for j
    by (simp_all add: todo_def w' b)
  then have sub: "set (todo j w') \<subseteq> set (todo j w)" for j by (cases "j = i") auto
  show "todo i w = f # todo i w'" by (rule todo(1))
  show due: "due w' i = []" using E(1) [of i] b by (auto simp: fields)
  show "here w' = i" by (simp add: w')
  show "timely i w f" by (rule Q(2)) (simp add: todo(1))
  show "is_opening f \<Longrightarrow> f \<notin> set (todo i w')" using Q(1) [of i] by (auto simp: todo(1))
  have same: "set (finished w' j @ todo j w') = set (finished w j @ todo j w)" for j
    using todo(1) todo(2) [of j] by (cases "j = i") (auto simp: fields)
  have held: "held c w' = held c w" for c by (simp only: held_def same fields(1))
  have old: "timely j w' g" if "timely j w g" for j g
    using that sub by (cases "(j, w, g)" rule: timely.cases) (auto simp: V fields)
  have timely: "timely j w' g" if "g \<in> set (todo j w')" for j g
    by (rule old [OF Q(2)]) (use that sub in blast)
  have "distinct (filter is_opening (todo j w'))" for j
    using Q(1) [of j] todo(1) todo(2) [of j] by (cases "j = i") (auto split: if_splits)
  moreover have "UserF (ConnectDestoryedF c) \<in> set (todo (conn_loop w c) w')"
    if "conn_alive w c" "c \<notin> ran (connections w)" "serves w c" "f \<noteq> UserF (ConnectDestoryedF c)" for c
    using Q(3) [OF that(1-3)] that(4) todo(1) todo(2) [of "conn_loop w c"] by (cases "conn_loop w c = i") auto
  ultimately have "queues_timely {c. f = UserF (ConnectDestoryedF c)} w'"
    using timely by (auto simp: queues_timely_def V fields)
  moreover have "refs_counted {} w'" using I(4) by (simp add: refs_counted_def V held)
  moreover have "events_due own w'" using I(5) due b by (auto simp: events_due_def V fields)
  ultimately show "life_inv reg own {c. f = UserF (ConnectDestoryedF c)} {} w'"
    using same_view_identities [OF v I(1)] identitiesD(7) [OF I(1)] same_view_served [OF v I(2)]
    by (simp add: life_inv_def fields)
qed

lemma loop_at_functors [simp]:
  "poller_of (loop_at j (w\<lparr>functors := fs\<rparr>)) = poller_of (loop_at j w)"
  "poller_of (loop_at j (w\<lparr>callable := b\<rparr>)) = poller_of (loop_at j w)"
  "functors (loop_at j (w\<lparr>functors := fs\<rparr>)) = (if j = here w then fs else functors (loop_at j w))"
  "functors (loop_at j (w\<lparr>callable := b\<rparr>)) = functors (loop_at j w)"
  by (simp_all add: loop_at_def)

lemma take_life:
  fixes w :: "('t, 'k, 'e, 's, 'a) life"
  assumes inv: "life_inv reg own {} {} w" and idle: "due w i = []" "batch w i = []"
  shows "life_inv reg own {} {}
    ((switch i w)\<lparr>callable := True, functors := [], batch := (batch w)(i := functors (loop_at i w))\<rparr>)"
    (is "life_inv reg own {} {} ?w")
proof (rule life_inv_cong [OF _ inv])
  show "same_view w ?w" by (simp add: same_view_def srv_inv_def)
  show todo: "todo j ?w = todo j w" for j using idle by (simp add: todo_def)
  show "held c ?w = held c w" for c unfolding held_def todo by simp
  show "events_due own ?w"
    using life_invD(5) [OF inv] idle by (auto simp: events_due_def alive_at_def known_def)
qed simp

lemma ran_life:
  fixes w :: "('t, 'k, 'e, 's, 'a) life"
  assumes inv: "life_inv reg own {} {} w"
  shows "life_inv reg own {} {} ((switch i w)\<lparr>callable := b\<rparr>)" (is "life_inv reg own {} {} ?w")
proof (rule life_inv_cong [OF _ inv])
  show "same_view w ?w" by (simp add: same_view_def srv_inv_def)
  show todo: "todo j ?w = todo j w" for j by (simp add: todo_def)
  show "held c ?w = held c w" for c unfolding held_def todo by simp
  show "events_due own ?w"
    using life_invD(5) [OF inv] by (auto simp: events_due_def alive_at_def known_def)
qed simp

lemma due_life:
  fixes w :: "('t, 'k, 'e, 's, 'a) life"
  assumes inv: "life_inv reg own {} {} w" and idle: "rs \<noteq> [] \<Longrightarrow> batch w i = [] \<and> finished w i = []"
    and rs: "\<And>r. r \<in> set rs \<Longrightarrow> r \<in> own i \<or> (\<exists>c\<in>alive_at i w. channel_of (conns w c) = r \<and> serves w c)"
  shows "life_inv reg own {} {} (w\<lparr>due := (due w)(i := rs)\<rparr>)" (is "life_inv reg own {} {} ?w")
proof (rule life_inv_cong [OF _ inv])
  show "same_view w ?w" by (simp add: same_view_def srv_inv_def)
  show todo: "todo j ?w = todo j w" for j by (simp add: todo_def)
  show "held c ?w = held c w" for c unfolding held_def todo by simp
  show "events_due own ?w"
    using life_invD(5) [OF inv] idle rs by (auto simp: events_due_def alive_at_def)
qed simp

lemma pop_due_life:
  fixes w :: "('t, 'k, 'e, 's, 'a) life"
  assumes inv: "life_inv reg own {} {} w" and due: "due w i = r # rs"
  shows "life_inv reg own {} {} (pop_due i rs w)" and "batch w i = []"
    and "r \<in> own i \<or> (\<exists>c\<in>alive_at i w. channel_of (conns w c) = r \<and> serves w c)"
proof -
  note E = events_dueD [OF life_invD(5) [OF inv]]
  show "batch w i = []" using E(1) [of i] due by simp
  show "r \<in> own i \<or> (\<exists>c\<in>alive_at i w. channel_of (conns w c) = r \<and> serves w c)"
    by (rule E(3) [of r i]) (simp add: due)
  have "life_inv reg own {} {} (switch i w)" using inv by simp
  from due_life [OF this, of rs i] E due show "life_inv reg own {} {} (pop_due i rs w)" by simp
qed

section \<open>Running functors\<close>

lemma life_tidy: "life_inv reg own X Y w \<Longrightarrow> tidy reg (chans_at own (here w) w) w"
  using loops_servedD(1) [OF life_invD(2)] by (simp add: tidy_iff)

lemma life_goes: "life_inv reg own X Y w \<Longrightarrow> goes reg (chans_at own (here w) w) {} w w' \<Longrightarrow> life_inv reg own X Y w'"
  using goes_life heeds_none by blast

lemma opening_not_served:
  assumes "life_inv reg own X Y w" and "serves w c"
  shows "UserF (ConnectEstablishedF c) \<notin> set (todo j w)"
  using queues_timelyD(2) [OF life_invD(3) [OF assms(1)], of "UserF (ConnectEstablishedF c)" j] assms(2) by auto

text \<open>A change of the channel of \<open>c\<close> alone.\<close>

lemma heeds_one:
  assumes inv: "life_inv reg own X Y w" and c: "conn_alive w c" "conn_loop w c = here w"
    and "if serves w' c then UserF (ConnectEstablishedF c) \<notin> set (todo (here w) w) \<and> c \<in> ran (connections w)
      else due w (here w) = []"
  shows "heeds {channel_of (conns w c)} w w'"
proof -
  have "d = c" if "conn_alive w d" "channel_of (conns w d) \<in> {channel_of (conns w c)}" for d
    using that identitiesD(1) [OF life_invD(1) [OF inv] _ c(1)] by simp
  with assms(4) c show ?thesis unfolding heeds_def by blast
qed

lemma ConnectEstablished_life:
  fixes w :: "('t, 'k, 'e, 's, 'a) life"
  assumes laws: "epoll_laws (sys_ctl (lsys sys)) reg" and app: "gentle reg app" and inv: "life_inv reg own {} {} w"
    and c: "conn_alive w c" "conn_loop w c = here w" "c \<in> ran (connections w)"
    and fresh: "UserF (ConnectEstablishedF c) \<notin> set (todo (here w) w)"
    and ret: "ConnectEstablished sys (srv_usr sys app) c w = Inr w'"
  shows "life_inv reg own {} {} w'"
proof -
  note G = ConnectEstablished_goes [OF laws app life_tidy [OF inv] c(1,2) ret]
  note S = same_restD [OF goesD(3) [OF G(1)]]
  have "serves w' c" using G(2) c(2) known_here [of _ w'] by (simp add: S)
  then show ?thesis using goes_life [OF inv G(1)] heeds_one [OF inv c(1,2)] fresh c(3) by simp
qed

lemma ConnectDestoryed_life:
  fixes w :: "('t, 'k, 'e, 's, 'a) life"
  assumes laws: "epoll_laws (sys_ctl (lsys sys)) reg" and app: "gentle reg app" and inv: "life_inv reg own {c} {} w"
    and c: "conn_alive w c" "conn_loop w c = here w" and idle: "due w (here w) = []"
    and ret: "ConnectDestoryed sys (srv_usr sys app) c w = Inr w'"
  shows "life_inv reg own {} {} w'"
proof -
  note G = ConnectDestoryed_goes [OF laws app life_tidy [OF inv] c ret]
  note S = same_restD [OF goesD(3) [OF G(1)]]
  have out: "\<not> serves w' c" using G(2) c(2) known_here [of _ w'] by (simp add: S)
  then have "life_inv reg own {c} {} w'" using goes_life [OF inv G(1)] heeds_one [OF inv c, of w'] idle by simp
  from not_serving_life [OF this out] show ?thesis by simp
qed

lemma run_life:
  fixes w :: "('t, 'k, 'e, 's, 'a) life"
  assumes laws: "epoll_laws (sys_ctl (lsys sys)) reg" and app: "gentle reg app"
    and inv: "life_inv reg own {} {} w" and b: "batch w i = f # fs"
    and w1: "w1 = (switch i w)\<lparr>batch := (batch w)(i := fs), finished := (finished w)(i := finished w i @ [f])\<rparr>"
    and ret: "run_functor (lsys sys) (run_srv sys app) f w1 = Inr w'"
  shows "life_inv reg own {} {} w'"
proof -
  note P = pop_life [OF inv b w1]
  note tidy = life_tidy [OF P(1)]
  have fields: "conns w1 = conns w" "conn_alive w1 = conn_alive w" "conn_loop w1 = conn_loop w"
    "connections w1 = connections w" by (simp_all add: w1)
  have alive: "conn_alive w1 c" if "functor_holds f = Some c" for c
  proof (rule refs_countedD(1) [OF life_invD(4) [OF P(1)]])
    have "f \<in> set (finished w1 i)" by (simp add: w1)
    from heldI(2) [OF this that] show "held c w1" .
  qed
  show ?thesis
  proof (cases f)
    case (TimerF g)
    from timer_functor_goes [OF tidy ret [unfolded TimerF], of "{}"] life_goes [OF P(1)] TimerF
    show ?thesis by simp
  next
    case (UserF uf)
    show ?thesis
    proof (cases uf)
      case (UserCallF u)
      have inv1: "life_inv reg own {} {} w1" using P(1) UserF UserCallF by simp
      have u: "conn_alive w1 (call_conn u)" using alive UserF UserCallF by simp
      show ?thesis
      proof (cases "is_close u")
        case False
        with P(5) UserF UserCallF u have "local_call w1 u" by (cases u) (simp_all add: local_call_def fields P(4))
        moreover from ret UserF UserCallF False have "app u w1 = Inr w'" by (simp add: srv_usr_app)
        ultimately show ?thesis by (intro life_goes [OF inv1] gentleD [OF app tidy])
      next
        case True
        with P(5) UserF UserCallF obtain c where c: "u = CloseCall RemoveConnectionInLoopCb c"
          "UserF (ConnectEstablishedF c) \<notin> set (todo (conn_loop w c) w)" by (cases u) auto
        have "UserF (ConnectEstablishedF c) \<notin> set (todo (conn_loop w1 c) w1)"
        proof (cases "conn_loop w c = i")
          case True
          with c(2) P(2) show ?thesis by (simp add: fields)
        next
          case False
          then have "todo (conn_loop w c) w1 = todo (conn_loop w c) w" by (simp add: todo_def w1)
          with c(2) show ?thesis by (simp add: fields)
        qed
        from RemoveConnectionInLoop_life [OF inv1 _ this] u c(1) ret UserF UserCallF
        show ?thesis by auto
      qed
    next
      case (ConnectEstablishedF c)
      have inv1: "life_inv reg own {} {} w1" using P(1) UserF ConnectEstablishedF by simp
      have c: "conn_alive w1 c" "conn_loop w1 c = here w1" "c \<in> ran (connections w1)"
        using alive P(4,5) UserF ConnectEstablishedF by (simp_all add: fields)
      have fresh: "UserF (ConnectEstablishedF c) \<notin> set (todo (here w1) w1)"
        using P(4,6) UserF ConnectEstablishedF by simp
      from ret UserF ConnectEstablishedF show ?thesis
        by (intro ConnectEstablished_life [OF laws app inv1 c fresh]) simp
    next
      case (ConnectDestoryedF c)
      have inv1: "life_inv reg own {c} {} w1" using P(1) UserF ConnectDestoryedF by simp
      have c: "conn_alive w1 c" "conn_loop w1 c = here w1"
        using alive P(4,5) UserF ConnectDestoryedF by (simp_all add: fields)
      from ret UserF ConnectDestoryedF show ?thesis
        using P(3,4) by (intro ConnectDestoryed_life [OF laws app inv1 c]) simp_all
    qed (use P(5) UserF in auto)
  qed
qed

end
