(* ===== verification/Server_Safety.thy ===== *)
theory Server_Safety
  imports Server_Life
begin

text \<open>
  The other steps of a server's life keep the invariant of Server_Life: waiting for events and
  handling them, dropping references, a new connection. With it the safety of the memory and the
  descriptors in every reachable state.
\<close>

section \<open>Events\<close>

lemma poll_goes:
  assumes tidy: "tidy reg L w" and p: "poll answer now (poller_of w, []) = ((p, active), t)"
  shows "goes reg L {} w (w\<lparr>poller_of := p, ActiveChannels := active, PollreturnTime := t\<rparr>)" (is "goes _ _ _ _ ?w")
    and "r \<in> set active \<Longrightarrow> \<exists>es. answer = WaitOk es \<and> r \<in> ev_ptr ` set es"
proof -
  note F = poll_frame [OF p]
  have same: "wiring (chans p r) = wiring (chans (poller_of w) r)" "fd (chans p r) = fd (chans (poller_of w) r)"
    "ch_state (chans p r) = ch_state (chans (poller_of w) r)" "events (chans p r) = events (chans (poller_of w) r)" for r
    using wiring_revents [OF F(3)] same_but_revents [OF F(3)] by blast+
  have rest: "same_rest w ?w" by (simp add: same_rest_def)
  have t: "tame {} w ?w" using rest same by (simp add: tame_def known_def)
  have "poller_inv reg L p" using tidyD(1) [OF tidy] by (simp add: poller_inv_def F(1,2) same)
  moreover have "watches_only reg L p"
    using tidyD(2) [OF tidy] by (simp add: watches_only_def F(1,2) watched_fds_def same)
  ultimately have "tidy reg L ?w" by (intro tidy_tame [OF tidy t]) simp_all
  with t show "goes reg L {} w ?w" by (simp add: goes_def)
qed (use poll_frame(4) [OF p] in blast)

lemma wait_life:
  fixes w :: "('t, 'k, 'e, 's, 'a) life"
  assumes inv: "life_inv reg own {} {} w" and idle: "due w i = []" "batch w i = []" "finished w i = []"
    and reported: "\<forall>es. answer = WaitOk es \<longrightarrow>
        (\<forall>e\<in>set es. \<exists>f ev. reg (epoll (poller_of (loop_at i w))) f = Some ev \<and> ev_ptr ev = ev_ptr e)"
    and p: "poll answer now (poller_of (loop_at i w), []) = ((p, active), t)"
  shows "life_inv reg own {} {}
      ((switch i w)\<lparr>poller_of := p, ActiveChannels := active, PollreturnTime := t, due := (due w)(i := active)\<rparr>)"
proof -
  let ?v = "switch i w" and ?w = "(switch i w)\<lparr>poller_of := p, ActiveChannels := active, PollreturnTime := t\<rparr>"
  have inv1: "life_inv reg own {} {} ?v" using inv by simp
  have here: "poller_of ?v = poller_of (loop_at i w)" using current_loop(1) [of ?v] by simp
  note G = poll_goes [OF life_tidy [OF inv1], unfolded here, OF p]
  note inv2 = life_goes [OF inv1 G(1)] and T = tame_life [OF goesD(1) [OF G(1)]]
    and S = same_restD [OF goesD(3) [OF G(1)]]
  have "r \<in> own i \<or> (\<exists>c\<in>alive_at i ?w. channel_of (conns ?w c) = r \<and> serves ?w c)" if r: "r \<in> set active" for r
  proof -
    from G(2) [OF r] obtain es e where "answer = WaitOk es" "e \<in> set es" "r = ev_ptr e" by auto
    with reported obtain f ev where ev: "reg (epoll (poller_of (loop_at i w))) f = Some ev" "ev_ptr ev = r"
      by metis
    have tidy: "tidy_at reg (chans_at own i w) i w" by (rule loops_servedD(1) [OF life_invD(2) [OF inv]])
    then have P: "poller_inv reg (chans_at own i w) (poller_of (loop_at i w))" by (simp add: tidy_at_def)
    from tidy ev(1) obtain q where q: "q \<in> chans_at own i w" "fd (chans (poller_of (loop_at i w)) q) = f"
      by (force simp: tidy_at_def watches_only_def watched_fds_def)
    with poller_invD(2) [OF P q(1)] ev have "q = r" "known r (loop_at i w)"
      by (auto simp: known_def split: if_splits)
    with q(1) show ?thesis
      using tameD(2) [OF goesD(1) [OF G(1)], of r] known_here [of r ?v]
      by (auto simp: chans_at_def alive_at_def T(9))
  qed
  from due_life [OF inv2 _ this] idle show ?thesis by simp
qed


lemma own_event_life:
  fixes w :: "('t, 'k, 'e, 's, 'a) life"
  assumes tick: "gentle_timers reg tick" and inv: "life_inv reg own {} {} w" and due: "due w i = r # rs"
    and h: "h = EventLoopRead \<or> h = TimerQueueRead"
    and ret: "run_handler (lsys sys) tick (\<lambda>_ _. Inr) h t (pop_due i rs w) = Inr w'"
  shows "life_inv reg own {} {} w'"
proof -
  note inv1 = pop_due_life(1) [OF inv due]
  have "goes reg (chans_at own (here (pop_due i rs w)) (pop_due i rs w)) {} (pop_due i rs w) w'"
    using h ret timer_HandleRead_goes [OF tick life_tidy [OF inv1]] wakeup_read_goes [OF life_tidy [OF inv1]] by auto
  with life_goes [OF inv1] show ?thesis by blast
qed

text \<open>While the channel \<open>r\<close> of \<open>c\<close> is handled.\<close>

definition handling :: "('k \<Rightarrow> int \<Rightarrow> epoll_event option) \<Rightarrow> (nat \<Rightarrow> nat set) \<Rightarrow> nat \<Rightarrow> nat \<Rightarrow>
    ('t, 'k, 'e, 's, 'a) life \<Rightarrow> bool" where
  "handling reg own c r w \<longleftrightarrow> life_inv reg own {} {} w \<and> served_here c w \<and> channel_of (conns w c) = r"

lemma handling_goes:
  assumes h: "handling reg own c r w" and g: "goes reg (chans_at own (here w) w) {} w w'"
  shows "handling reg own c r w'"
  using h life_goes [OF _ g] served_here_goes [OF g] same_restD(13) [OF goesD(3) [OF g]]
  by (simp add: handling_def)

lemma handling_wiring:
  assumes "handling reg own c r w"
  shows "ReadCallback (chans (poller_of w) r) = Some (Handler (HeadleReadOf c))"
    and "WriteCallback (chans (poller_of w) r) = Some (Handler (HandleWriteOf c))"
    and "CloseCallback (chans (poller_of w) r) = None" and "ErrorCallback (chans (poller_of w) r) = None"
proof -
  have "wiring (chans (poller_of w) r) = (conn_fd (conns w c), Some (Handler (HeadleReadOf c)),
      Some (Handler (HandleWriteOf c)), None, None)"
    using assms loops_servedD(2) [OF life_invD(2), of reg own "{}" "{}" w c] current_loop(1) [of w]
    by (simp add: handling_def served_here_def)
  then show "ReadCallback (chans (poller_of w) r) = Some (Handler (HeadleReadOf c))"
    "WriteCallback (chans (poller_of w) r) = Some (Handler (HandleWriteOf c))"
    "CloseCallback (chans (poller_of w) r) = None" "ErrorCallback (chans (poller_of w) r) = None"
    by (simp_all add: wiring_def)
qed

lemma handling_removed:
  assumes "handling reg own c r w"
  shows "handling reg own c r (RemoveConnection sys c w)"
proof -
  have inv: "life_inv reg own {} {} w" and s: "served_here c w" and r: "channel_of (conns w c) = r"
    using assms by (simp_all add: handling_def)
  have "serves w c" using s known_here [of _ w] by (simp add: served_here_def)
  from opening_not_served [OF inv this] have
    "life_inv reg own {} {} (RemoveConnection sys c w)"
    using RemoveConnection_life [OF inv] s by (simp add: served_here_def)
  moreover have "conns (RemoveConnection sys c w) = conns w" "conn_alive (RemoveConnection sys c w) = conn_alive w"
    "conn_loop (RemoveConnection sys c w) = conn_loop w" "here (RemoveConnection sys c w) = here w"
    "poller_of (RemoveConnection sys c w) = poller_of w"
    by (simp_all add: RemoveConnection_def RemoveConnectionInLoop_def)
  ultimately show ?thesis using s r by (simp add: handling_def served_here_def known_def)
qed

lemma handling_run:
  assumes laws: "epoll_laws (sys_ctl (lsys sys)) reg" and app: "gentle reg app"
    and h: "handling reg own c r w"
    and ret: "run_conn_handler sys (srv_usr sys app) Inr q t w = Inr w'"
    and q: "q = HeadleReadOf c \<or> q = HandleWriteOf c"
  shows "handling reg own c r w'"
proof -
  have inv: "life_inv reg own {} {} w" and s: "served_here c w" using h by (simp_all add: handling_def)
  note tidy = life_tidy [OF inv]
  have cb: "conn_CloseCallback (conns w c) = Some RemoveConnectionCb"
    using identitiesD(5) [OF life_invD(1) [OF inv]] s by (simp add: served_here_def)
  from q show ?thesis
  proof
    assume "q = HeadleReadOf c"
    with ret have "HeadleRead sys (srv_usr sys app) c t w = Inr w'" by simp
    from HeadleRead_goes [OF laws app tidy s cb this] obtain v where
      v: "goes reg (chans_at own (here w) w) {} w v" "w' = v \<or> w' = RemoveConnection sys c v" by blast
    from handling_goes [OF h v(1)] handling_removed v(2) show ?thesis by blast
  next
    assume "q = HandleWriteOf c"
    with ret have "HandleWrite sys c w = Inr w'" by simp
    from handling_goes [OF h HandleWrite_goes [OF laws tidy s this]] show ?thesis .
  qed
qed

lemma event_life:
  fixes w :: "('t, 'k, 'e, 's, 'a) life"
  assumes laws: "epoll_laws (sys_ctl (lsys sys)) reg" and app: "gentle reg app"
    and inv: "life_inv reg own {} {} w" and due: "due w i = r # rs" and r: "r \<notin> own i"
    and ret: "handle_channel conn_alive (run_handler (lsys sys) tick (run_conn_handler sys (srv_usr sys app) Inr))
             r t (pop_due i rs w) = Inr w'"
  shows "life_inv reg own {} {} w'"
proof -
  define w1 where "w1 = pop_due i rs w"
  define run :: "conn_handler handler \<Rightarrow> timestamp \<Rightarrow> ('t, 'k, 'e, 's, 'a) life \<Rightarrow> ('t, 'k, 'e, 's, 'a) life res"
    where "run = run_handler (lsys sys) tick (run_conn_handler sys (srv_usr sys app) Inr)"
  note P = pop_due_life [OF inv due]
  from P(3) r obtain c where c: "c \<in> alive_at i w" "channel_of (conns w c) = r" "serves w c" by blast
  have h1: "handling reg own c r w1"
    using P(1) c known_here [of r w1] by (simp add: handling_def served_here_def alive_at_def w1_def)
  have on_read: "handling reg own c r v'"
    if "handling reg own c r v" "fire b (ReadCallback (chans (poller_of v) r)) (\<lambda>f. run f t) v = Inr v'" for b v v'
    using that handling_run [OF laws app that(1), of "HeadleReadOf c" t v']
    by (auto simp: fire_def handling_wiring run_def split: if_splits)
  have on_write: "handling reg own c r v'"
    if "handling reg own c r v" "fire b (WriteCallback (chans (poller_of v) r)) (\<lambda>f. run f t) v = Inr v'" for b v v'
    using that handling_run [OF laws app that(1), of "HandleWriteOf c" t v']
    by (auto simp: fire_def handling_wiring run_def split: if_splits)
  have none: "fire b None f v = Inr v" for b v
      and f :: "conn_handler handler \<Rightarrow> ('t, 'k, 'e, 's, 'a) life \<Rightarrow> ('t, 'k, 'e, 's, 'a) life res"
    by (simp add: fire_def)
  have "handling reg own c r w'"
  proof (cases "w' = w1")
    case True
    with h1 show ?thesis by simp
  next
    case False
    with ret have "HandleEventWithGuard (\<lambda>l. chans (poller_of l) r) run (\<lambda>h. run h t) t w1 = Inr w'"
      by (auto simp: handle_channel_def HandleEvent_def w1_def run_def split: if_splits option.splits)
    then obtain v b1 b2 where v: "fire b1 (ReadCallback (chans (poller_of w1) r)) (\<lambda>f. run f t) w1 = Inr v"
      "fire b2 (WriteCallback (chans (poller_of v) r)) (\<lambda>f. run f t) v = Inr w'"
      by (auto simp: HandleEventWithGuard_def handling_wiring(3,4) [OF h1] none)
    from on_write [OF on_read [OF h1 v(1)] v(2)] show ?thesis .
  qed
  then show ?thesis by (simp add: handling_def)
qed

section \<open>Dropping references\<close>

lemma watches_only_remove:
  assumes "watches_only reg L p" and "channels p (fd (chans p r)) = None" and "reg (epoll p) (fd (chans p r)) = None"
  shows "watches_only reg (L - {r}) p"
  unfolding watches_only_def
proof (intro allI impI)
  fix f assume f: "reg (epoll p) f \<noteq> None \<or> channels p f \<noteq> None"
  with assms(1) obtain q where "q \<in> L" "f = fd (chans p q)" by (auto simp: watches_only_def watched_fds_def)
  with f assms(2,3) have "q \<noteq> r" by auto
  with \<open>q \<in> L\<close> \<open>f = fd (chans p q)\<close> show "f \<in> watched_fds (L - {r}) p" by (auto simp: watched_fds_def)
qed

lemma delete_fields:
  "conns (delete_TcpConnection sock c w) = conns w" "conn_loop (delete_TcpConnection sock c w) = conn_loop w"
  "conn_alive (delete_TcpConnection sock c w) = (conn_alive w)(c := False)"
  "connections (delete_TcpConnection sock c w) = connections w" "due (delete_TcpConnection sock c w) = due w"
  "batch (delete_TcpConnection sock c w) = batch w"
  "finished (delete_TcpConnection sock c w) = finished w"
  "open_fds (delete_TcpConnection sock c w) = open_fds w - {conn_fd (conns w c)}"
  "srv_inv (delete_TcpConnection sock c w) = srv_inv w"
  "NextConnectionId (delete_TcpConnection sock c w) = NextConnectionId w"
  "srv_name (delete_TcpConnection sock c w) = srv_name w" "srv_IpPort (delete_TcpConnection sock c w) = srv_IpPort w"
  "loop_at j (delete_TcpConnection sock c w) = loop_at j w" "todo j (delete_TcpConnection sock c w) = todo j w"
  "alive_at j (delete_TcpConnection sock c w) = alive_at j w - {c}"
  by (auto simp: delete_TcpConnection_def srv_inv_def todo_def alive_at_def)

lemma delete_identities:
  assumes id: "identities own w" and c: "conn_alive w c" "c \<notin> ran (connections w)"
  shows "identities own (delete_TcpConnection sock c w)" (is "identities own ?w")
proof -
  note D = identitiesD [OF id]
  have alive: "{d. conn_alive ?w d} = {d. conn_alive w d} - {c}" by (auto simp: delete_fields)
  have inj: "inj_on (\<lambda>d. channel_of (conns w d)) ({d. conn_alive w d} - {c})"
    "inj_on (\<lambda>d. conn_fd (conns w d)) ({d. conn_alive w d} - {c})"
    "inj_on (\<lambda>d. conn_name (conns w d)) ({d. conn_alive w d} - {c})"
    using identities_inj [OF id] by (simp_all add: inj_on_diff)
  have fds: "open_fds ?w = (\<lambda>d. conn_fd (conns w d)) ` ({d. conn_alive w d} - {c})"
    using D(4) D(2) [OF _ c(1)] c(1) by (auto simp: delete_fields)
  have entries: "conn_alive ?w d" if "connections w n = Some d" for n d
    using D(7) [OF that] that c(2) by (auto simp: delete_fields ran_def)
  have still: "conn_alive ?w d \<Longrightarrow> conn_alive w d" for d by (simp add: delete_fields split: if_splits)
  show ?thesis
    unfolding identities_def alive fds delete_fields(1,4,9-12)
    using inj D(5,6,11) [OF still] entries D(9,10) by simp
qed

lemma delete_served:
  assumes id: "identities own w" and served: "loops_served reg own w" and c: "conn_alive w c" "\<not> serves w c"
  shows "loops_served reg own (delete_TcpConnection sock c w)" (is "loops_served reg own ?w")
proof -
  have chans: "chans_at own j ?w = (if conn_loop w c = j then chans_at own j w - {channel_of (conns w c)}
      else chans_at own j w)" for j
    using c(1) identitiesD(1,6) [OF id] by (auto simp: chans_at_def delete_fields alive_at_def)
  have "tidy_at reg (chans_at own j ?w) j ?w" for j
  proof -
    let ?p = "poller_of (loop_at j w)" and ?r = "channel_of (conns w c)"
    have T: "tidy_at reg (chans_at own j w) j w" by (rule loops_servedD(1) [OF served])
    then have inv_p: "poller_inv reg (chans_at own j w) ?p" and only: "watches_only reg (chans_at own j w) ?p"
      by (simp_all add: tidy_at_def)
    have "poller_inv reg (chans_at own j ?w) ?p"
      using inv_p by (auto simp: chans poller_inv_def inj_on_def)
    moreover have "watches_only reg (chans_at own j ?w) ?p"
    proof (cases "conn_loop w c = j")
      case True
      have rj: "?r \<in> chans_at own j w" using c(1) True by (auto simp: chans_at_def alive_at_def)
      have "ch_state (chans ?p ?r) = NEW" using c(2) True by (simp add: known_def)
      with poller_invD(1,2) [OF inv_p rj] have
        "channels ?p (fd (chans ?p ?r)) = None" "reg (epoll ?p) (fd (chans ?p ?r)) = None" by simp_all
      with watches_only_remove [OF only] show ?thesis by (simp add: chans True)
    qed (use only in \<open>simp add: chans\<close>)
    moreover have "inj_on (\<lambda>c. channel_of (conns w c)) (alive_at j w - {c})"
      using T by (auto simp: tidy_at_def intro: inj_on_diff)
    moreover have "channel_of (conns w d) \<in> chans_at own j ?w \<and>
        (state (conns w d) = kConnected \<longrightarrow> known (channel_of (conns w d)) (loop_at j w))"
      if "d \<in> alive_at j w - {c}" for d
      using T that by (auto simp: tidy_at_def chans_at_def delete_fields)
    ultimately show ?thesis unfolding tidy_at_def delete_fields by simp
  qed
  with loops_servedD(2) [OF served] show ?thesis by (simp add: loops_served_def delete_fields)
qed

lemma delete_queues:
  assumes "queues_timely {} w"
  shows "queues_timely {} (delete_TcpConnection sock c w)" (is "queues_timely {} ?w")
proof -
  have "timely j ?w f" if "timely j w f" for j f
    using that by (cases "(j, w, f)" rule: timely.cases) (simp_all add: delete_fields)
  with assms show ?thesis by (auto simp: queues_timely_def delete_fields split: if_splits)
qed

lemma release_life:
  fixes w :: "('t, 'k, 'e, 's, 'a) life"
  assumes inv: "life_inv reg own {} Y w" and Y: "Y \<subseteq> set_option r"
  shows "life_inv reg own {} {} (release sock r w)"
proof (cases "\<exists>c. r = Some c \<and> conn_alive w c \<and> \<not> held c w")
  case False
  have "conn_alive w c \<Longrightarrow> held c w" for c
    using refs_countedD(2) [OF life_invD(4) [OF inv]] Y False by (cases r) auto
  then have "refs_counted {} w" using life_invD(4) [OF inv] by (simp add: refs_counted_def)
  moreover have "release sock r w = w" using False by (auto simp: release_def split: option.split)
  ultimately show ?thesis using inv by (simp add: life_inv_def)
next
  case True
  then obtain c where r: "r = Some c" and c: "conn_alive w c" "\<not> held c w" by blast
  let ?w = "delete_TcpConnection sock c w"
  note I = life_invD [OF inv]
  have held: "held d ?w = held d w" for d by (simp add: held_def delete_fields)
  have unheld: "functor_holds f \<noteq> Some c" if "f \<in> set (todo j w)" for f j using heldI(1) [OF that] c(2) by blast
  have out: "c \<notin> ran (connections w)" using c(2) by (auto simp: held_def)
  have off: "\<not> serves w c" using queues_timelyD(3) [OF I(3) c(1) out] unheld by force
  have "refs_counted {} ?w"
    using refs_countedD [OF I(4)] c Y r by (auto simp: refs_counted_def held delete_fields)
  moreover have "events_due own ?w"
    using events_dueD [OF I(5)] off unfolding events_due_def delete_fields by blast
  ultimately have "life_inv reg own {} {} ?w"
    using delete_identities [OF I(1) c(1) out] delete_served [OF I(1,2) c(1) off] delete_queues [OF I(3)]
    by (simp add: life_inv_def)
  with r c show ?thesis by (simp add: release_def)
qed

lemma destroy_life:
  fixes w :: "('t, 'k, 'e, 's, 'a) life"
  assumes inv: "life_inv reg own {} {} w" and f: "finished w i = f # fs"
  shows "life_inv reg own {} {} (release sock (functor_holds f) ((switch i w)\<lparr>finished := (finished w)(i := fs)\<rparr>))"
proof (rule release_life)
  let ?w = "(switch i w)\<lparr>finished := (finished w)(i := fs)\<rparr>"
  note I = life_invD [OF inv]
  have v: "same_view w ?w" by (simp add: same_view_def srv_inv_def)
  note V = same_viewD [OF v]
  have fields: "connections ?w = connections w" "due ?w = due w" "batch ?w = batch w" "todo j ?w = todo j w" for j
    by (simp_all add: todo_def)
  have sub: "set (finished ?w j) \<subseteq> set (finished w j)" for j using f by auto
  have less: "held c ?w \<Longrightarrow> held c w" for c using sub unfolding held_def fields set_append by blast
  have sup: "g = f \<or> g \<in> set (finished ?w j)" if "g \<in> set (finished w j)" for g j
    using that f by (cases "j = i") auto
  have more: "held c w \<Longrightarrow> held c ?w \<or> functor_holds f = Some c" for c
    using sup unfolding held_def fields set_append by blast
  have "timely j ?w g = timely j w g" for j g
    by (cases "(j, w, g)" rule: timely.cases) (simp_all add: V fields)
  then have "queues_timely {} ?w" using I(3) by (simp add: queues_timely_def V fields)
  moreover have "refs_counted (set_option (functor_holds f)) ?w"
    using refs_countedD [OF I(4)] less more by (auto simp: refs_counted_def V)
  moreover have "events_due own ?w" using I(5) f by (auto simp: events_due_def V fields)
  ultimately show "life_inv reg own {} (set_option (functor_holds f)) ?w"
    using same_view_identities [OF v I(1)] identitiesD(7) [OF I(1)] same_view_served [OF v I(2)]
    by (simp add: life_inv_def)
qed simp

section \<open>A new connection\<close>

text \<open>The memory, the channel and the descriptor are new to the server.\<close>

definition newcomer :: "(nat \<Rightarrow> nat set) \<Rightarrow> nat \<Rightarrow> nat \<Rightarrow> int \<Rightarrow> ('t, 'k, 'e, 's, 'a) life \<Rightarrow> bool" where
  "newcomer own c r sockfd w \<longleftrightarrow> \<not> conn_alive w c \<and> (\<forall>i. r \<notin> own i) \<and>
     (\<forall>d. conn_alive w d \<longrightarrow> channel_of (conns w d) \<noteq> r) \<and> sockfd \<notin> open_fds w \<and>
     (\<forall>i. \<forall>q\<in>own i. fd (chans (poller_of (loop_at i w)) q) \<noteq> sockfd)"

lemma tidy_at_insert:
  assumes tidy: "tidy_at reg L i w" and r: "r \<notin> L" and fd: "\<forall>q\<in>L. fd (chans (poller_of (loop_at i w)) q) \<noteq> f"
    and p: "poller_of (loop_at i v) = upd_chan r (\<lambda>_. conn_channel c f) (poller_of (loop_at i w))"
    and conns: "conns v = (conns w)(c := conn)" and alive: "alive_at i v = insert c (alive_at i w)" "c \<notin> alive_at i w"
    and conn: "channel_of conn = r" "state conn = kConnecting"
  shows "tidy_at reg (insert r L) i v"
proof -
  let ?p = "poller_of (loop_at i w)"
  have inv: "poller_inv reg L ?p" and only: "watches_only reg L ?p" using tidy by (simp_all add: tidy_at_def)
  have free: "channels ?p f = None" "reg (epoll ?p) f = None"
    using only fd by (force simp: watches_only_def watched_fds_def)+
  have "poller_inv reg (insert r L) (poller_of (loop_at i v))"
    unfolding p by (rule poller_inv_insert [OF inv r _ _ fd free])
      (simp_all add: conn_channel_def new_Channel_def SetReadCallback_def SetWriteCallback_def)
  moreover have "watched_fds (insert r L) (poller_of (loop_at i v)) = insert f (watched_fds L ?p)"
    using r by (auto simp: watched_fds_def p upd_chan_def conn_channel_def new_Channel_def SetReadCallback_def
        SetWriteCallback_def)
  with only have "watches_only reg (insert r L) (poller_of (loop_at i v))"
    by (simp add: watches_only_def p upd_chan_def)
  moreover have old: "channel_of (conns w d) \<in> L" if "d \<in> alive_at i w" for d using tidy that by (simp add: tidy_at_def)
  then have "inj_on (\<lambda>c. channel_of (conns v c)) (alive_at i v)"
    using tidy alive r conn by (fastforce simp: tidy_at_def conns inj_on_def)
  moreover have "channel_of (conns v d) \<in> insert r L \<and>
      (state (conns v d) = kConnected \<longrightarrow> known (channel_of (conns v d)) (loop_at i v))" if "d \<in> alive_at i v" for d
  proof (cases "d = c")
    case True
    with conn show ?thesis by (simp add: conns)
  next
    case False
    with that alive have d: "d \<in> alive_at i w" by simp
    with tidy old [OF d] r False show ?thesis by (auto simp: tidy_at_def conns known_def p upd_chan_def)
  qed
  ultimately show ?thesis by (simp add: tidy_at_def)
qed

lemma inj_on_new:
  "inj_on f A \<Longrightarrow> c \<notin> A \<Longrightarrow> \<forall>d\<in>A. f d \<noteq> y \<Longrightarrow> inj_on (\<lambda>d. if d = c then y else f d) (insert c A)"
  by (auto simp: inj_on_def)

text \<open>What \<^verbatim>\<open>NewConnection\<close> does up to \<^verbatim>\<open>ConnectEstablished\<close>, as \<open>NewConnection_prepares\<close> says.\<close>

definition opens :: "(nat \<Rightarrow> nat set) \<Rightarrow> nat \<Rightarrow> nat \<Rightarrow> int \<Rightarrow> nat \<Rightarrow> string \<Rightarrow>
    ('t, 'k, 'e, 's, 'a) life \<Rightarrow> ('t, 'k, 'e, 's, 'a) life \<Rightarrow> bool" where
  "opens own c r sockfd i name w v \<longleftrightarrow> newcomer own c r sockfd w \<and> connections w name = None \<and>
     name = connection_name (srv_name w) (srv_IpPort w) (NextConnectionId w) \<and> srv_inv v \<and>
     connections v = (connections w)(name \<mapsto> c) \<and> conns v = (conns w)(c := served_conn w name sockfd r) \<and>
     conn_alive v = (conn_alive w)(c := True) \<and> conn_loop v = (conn_loop w)(c := i) \<and>
     srv_IpPort v = srv_IpPort w \<and> srv_name v = srv_name w \<and>
     sint (NextConnectionId v) = sint (NextConnectionId w) + 1 \<and>
     due v = due w \<and> batch v = batch w \<and> finished v = finished w \<and> open_fds v = insert sockfd (open_fds w) \<and>
     (\<forall>j. loop_at j v = (if j = i then (loop_at i w)\<lparr>poller_of :=
        upd_chan r (\<lambda>_. conn_channel c sockfd) (poller_of (loop_at i w))\<rparr> else loop_at j w))"

lemma opensD:
  assumes "opens own c r sockfd i name w v"
  shows "\<not> conn_alive w c" "r \<notin> own j" "conn_alive w d \<Longrightarrow> channel_of (conns w d) \<noteq> r"
    and "sockfd \<notin> open_fds w" "q \<in> own j \<Longrightarrow> fd (chans (poller_of (loop_at j w)) q) \<noteq> sockfd"
    and "name = connection_name (srv_name w) (srv_IpPort w) (NextConnectionId w)" "srv_inv v"
    and "connections v = (connections w)(name \<mapsto> c)" "conns v = (conns w)(c := served_conn w name sockfd r)"
    and "conn_alive v = (conn_alive w)(c := True)" "conn_loop v = (conn_loop w)(c := i)"
    and "srv_IpPort v = srv_IpPort w" "srv_name v = srv_name w"
    and "sint (NextConnectionId v) = sint (NextConnectionId w) + 1"
    and "due v = due w" "batch v = batch w" "finished v = finished w" "open_fds v = insert sockfd (open_fds w)"
    and "loop_at j v = (if j = i then (loop_at i w)\<lparr>poller_of :=
        upd_chan r (\<lambda>_. conn_channel c sockfd) (poller_of (loop_at i w))\<rparr> else loop_at j w)"
    and "ran (connections v) = insert c (ran (connections w))" "todo j v = todo j w"
    and "alive_at j v = (if j = i then insert c (alive_at j w) else alive_at j w)" "c \<notin> alive_at j w"
  using assms unfolding opens_def newcomer_def by (auto simp: todo_def alive_at_def)

lemma served_conn_simps:
  "channel_of (served_conn w name sockfd r) = r" "conn_fd (served_conn w name sockfd r) = sockfd"
  "conn_name (served_conn w name sockfd r) = name" "state (served_conn w name sockfd r) = kConnecting"
  "conn_CloseCallback (served_conn w name sockfd r) = Some RemoveConnectionCb"
  by (simp_all add: served_conn_def)

lemma opens_chans:
  assumes o: "opens own c r sockfd i name w v"
  shows "chans_at own j v = (if j = i then insert r (chans_at own j w) else chans_at own j w)"
    and "conn_alive w d \<Longrightarrow> serves v d = serves w d" and "\<not> serves v c"
proof -
  note O = opensD [OF o]
  have "(\<lambda>d. channel_of (conns v d)) ` alive_at j w = (\<lambda>d. channel_of (conns w d)) ` alive_at j w"
    using O(23) by (intro image_cong) (auto simp: O(9))
  moreover have "channel_of (conns v c) = r" by (simp add: O(9) served_conn_simps)
  ultimately show "chans_at own j v = (if j = i then insert r (chans_at own j w) else chans_at own j w)"
    by (auto simp: chans_at_def O(22))
  have "known q (loop_at j v) = known q (loop_at j w)" if "q \<noteq> r" for q j
    using that by (simp add: known_def O(19) upd_chan_def)
  then show "conn_alive w d \<Longrightarrow> serves v d = serves w d" using O(1,3) by (auto simp: O(9,11))
  show "\<not> serves v c"
    by (simp add: O(9,11,19) served_conn_simps known_def upd_chan_def conn_channel_def new_Channel_def
        SetReadCallback_def SetWriteCallback_def)
qed

lemma opens_identities:
  assumes o: "opens own c r sockfd i name w v" and id: "identities own w"
  shows "identities own v"
proof -
  note O = opensD [OF o] and D = identitiesD [OF id] and J = identities_inj [OF id]
  have alive: "{d. conn_alive v d} = insert c {d. conn_alive w d}" by (auto simp: O(10))
  have A: "c \<notin> {d. conn_alive w d}" using O(1) by simp
  have unnamed: "conn_name (conns w d) \<noteq> name" if "conn_alive w d" for d
    using D(11) [OF that] connection_name_inject [OF D(10)] by (auto simp: O(6))
  have eq: "(\<lambda>d. channel_of (conns v d)) = (\<lambda>d. if d = c then r else channel_of (conns w d))"
    "(\<lambda>d. conn_fd (conns v d)) = (\<lambda>d. if d = c then sockfd else conn_fd (conns w d))"
    "(\<lambda>d. conn_name (conns v d)) = (\<lambda>d. if d = c then name else conn_name (conns w d))"
    by (auto simp: O(9) served_conn_simps)
  have inj: "inj_on (\<lambda>d. channel_of (conns v d)) {d. conn_alive v d}"
    unfolding alive eq by (rule inj_on_new [OF J(1) A]) (use O(3) in simp)
  have inj_fd: "inj_on (\<lambda>d. conn_fd (conns v d)) {d. conn_alive v d}"
    unfolding alive eq by (rule inj_on_new [OF J(2) A]) (use D(4) O(4) in auto)
  have inj_name: "inj_on (\<lambda>d. conn_name (conns v d)) {d. conn_alive v d}"
    unfolding alive eq by (rule inj_on_new [OF J(3) A]) (use unnamed in simp)
  have fds: "open_fds v = (\<lambda>d. conn_fd (conns v d)) ` {d. conn_alive v d}"
    unfolding alive using D(4) O(1) by (auto simp: O(9,18) served_conn_simps)
  have later: "sint n < sint (NextConnectionId w) \<Longrightarrow> sint n < sint (NextConnectionId v)" for n :: "32 word"
    by (simp add: O(14))
  have "conn_CloseCallback (conns v d) = Some RemoveConnectionCb \<and> (\<forall>i. channel_of (conns v d) \<notin> own i) \<and>
      (\<exists>n. sint n < sint (NextConnectionId v) \<and>
         conn_name (conns v d) = connection_name (srv_name v) (srv_IpPort v) n)" if d: "conn_alive v d" for d
  proof (cases "d = c")
    case True
    have "\<exists>n. sint n < sint (NextConnectionId v) \<and> name = connection_name (srv_name v) (srv_IpPort v) n"
      using O(6) by (intro exI [of _ "NextConnectionId w"]) (simp add: O(12-14))
    with True show ?thesis by (simp add: O(2,9) served_conn_simps)
  next
    case False
    with d have d': "conn_alive w d" by (simp add: O(10))
    from D(11) [OF d'] later have "\<exists>n. sint n < sint (NextConnectionId v) \<and>
        conn_name (conns w d) = connection_name (srv_name w) (srv_IpPort w) n" by blast
    with False D(5,6) [OF d'] show ?thesis by (simp add: O(9,12,13))
  qed
  moreover have "conn_alive v d" if "connections v n = Some d" for n d
    using that D(7) by (auto simp: O(8,10) split: if_splits)
  ultimately show ?thesis using inj inj_fd inj_name fds O(7) D(10) by (simp add: identities_def O(12))
qed

lemma opens_free:
  assumes o: "opens own c r sockfd i name w v" and id: "identities own w" and served: "loops_served reg own w"
  shows "r \<notin> chans_at own i w" and "\<forall>q\<in>chans_at own i w. fd (chans (poller_of (loop_at i w)) q) \<noteq> sockfd"
proof -
  note O = opensD [OF o]
  show "r \<notin> chans_at own i w" using O(2,3) by (auto simp: chans_at_def alive_at_def)
  show "\<forall>q\<in>chans_at own i w. fd (chans (poller_of (loop_at i w)) q) \<noteq> sockfd"
  proof
    fix q assume "q \<in> chans_at own i w"
    then consider "q \<in> own i" | d where "d \<in> alive_at i w" "q = channel_of (conns w d)" by (auto simp: chans_at_def)
    then show "fd (chans (poller_of (loop_at i w)) q) \<noteq> sockfd"
    proof cases
      case 2
      then have d: "conn_alive w d" "conn_loop w d = i" by (simp_all add: alive_at_def)
      with loops_servedD(2) [OF served d(1)] have "fd (chans (poller_of (loop_at i w)) q) = conn_fd (conns w d)"
        by (simp add: 2 wiring_def)
      with d(1) identitiesD(4) [OF id] O(4) show ?thesis by auto
    qed (rule O(5))
  qed
qed

lemma opens_served:
  assumes o: "opens own c r sockfd i name w v" and id: "identities own w" and served: "loops_served reg own w"
  shows "loops_served reg own v"
proof -
  note O = opensD [OF o] and C = opens_chans [OF o]
  have "tidy_at reg (chans_at own j v) j v" for j
  proof (cases "j = i")
    case True
    note F = opens_free [OF assms]
    show ?thesis
      using tidy_at_insert [OF loops_servedD(1) [OF served] F _ O(9) _ O(23) served_conn_simps(1,4)]
      by (simp add: True C(1) O(19,22))
  next
    case False
    have "d \<noteq> c" if "d \<in> alive_at j w" for d using that O(23) by blast
    with loops_servedD(1) [OF served, of j] False show ?thesis
      by (simp add: tidy_at_def C(1) O(9,19,22) inj_on_def cong: ball_cong)
  qed
  moreover have "wiring (chans (poller_of (loop_at (conn_loop v d) v)) (channel_of (conns v d))) =
      (conn_fd (conns v d), Some (Handler (HeadleReadOf d)), Some (Handler (HandleWriteOf d)), None, None)"
    if "conn_alive v d" for d
  proof (cases "d = c")
    case True
    then show ?thesis
      by (simp add: O(9,11,19) served_conn_simps upd_chan_def wiring_def conn_channel_def new_Channel_def
          SetReadCallback_def SetWriteCallback_def)
  next
    case False
    with that have d: "conn_alive w d" by (simp add: O(10))
    with loops_servedD(2) [OF served d] O(3) [OF d] False show ?thesis by (auto simp: O(9,11,19) upd_chan_def)
  qed
  ultimately show ?thesis by (simp add: loops_served_def)
qed

lemma opens_queues:
  assumes o: "opens own c r sockfd i name w v" and q: "queues_timely {} w" and refs: "refs_counted {} w"
  shows "queues_timely {} v"
proof -
  note O = opensD [OF o] and C = opens_chans [OF o]
  have "timely j v f" if f: "f \<in> set (todo j w)" for j f
  proof -
    have T: "timely j w f" by (rule queues_timelyD(2) [OF q f])
    have h: "conn_alive w d" "d \<noteq> c" if "functor_holds f = Some d" for d
      using refs_countedD(1) [OF refs heldI(1) [OF f that]] O(1) by auto
    have loop: "conn_loop v d = conn_loop w d" "serves v d = serves w d" if "functor_holds f = Some d" for d
      using h [OF that] C(2) [of d] by (simp_all add: O(11))
    show ?thesis
    proof (cases "(j, w, f)" rule: timely.cases)
      case (2 i v' u)
      with T loop(1) [of "call_conn u"] show ?thesis by (simp add: O(21))
    next
      case (3 i v' d)
      with T loop [of d] show ?thesis by (auto simp: O(20))
    next
      case (4 i v' d)
      with T loop(1) [of d] h(2) [of d] show ?thesis by (simp add: O(20))
    qed (use T in auto)
  qed
  moreover have "UserF (ConnectDestoryedF d) \<in> set (todo (conn_loop v d) v)"
    if "conn_alive v d" "d \<notin> ran (connections v)" "serves v d" for d
  proof -
    have d: "d \<noteq> c" "conn_alive w d" "d \<notin> ran (connections w)" using that by (auto simp: O(10,20))
    with queues_timelyD(3) [OF q d(2,3)] that(3) C(2) [OF d(2)] show ?thesis by (simp add: O(11,21))
  qed
  ultimately show ?thesis using queues_timelyD(1) [OF q] by (simp add: queues_timely_def O(21))
qed

lemma opens_life:
  assumes o: "opens own c r sockfd i name w v" and inv: "life_inv reg own {} {} w"
  shows "life_inv reg own {} {} v" and "f \<in> set (todo j v) \<Longrightarrow> functor_holds f \<noteq> Some c"
proof -
  note O = opensD [OF o] and I = life_invD [OF inv] and C = opens_chans [OF o]
  show "f \<in> set (todo j v) \<Longrightarrow> functor_holds f \<noteq> Some c"
    using refs_countedD(1) [OF I(4) heldI(1) [of f j w c]] O(1) by (auto simp: O(21))
  have "held d v \<longleftrightarrow> d = c \<or> held d w" for d by (auto simp: held_def O(17,20,21))
  then have "refs_counted {} v" using refs_countedD [OF I(4)] by (auto simp: refs_counted_def O(10))
  moreover have "events_due own v"
  proof -
    have "\<exists>d\<in>alive_at j v. channel_of (conns v d) = q \<and> serves v d"
      if "d \<in> alive_at j w" "channel_of (conns w d) = q" "serves w d" for d j q
    proof (rule bexI [of _ d])
      have "conn_alive w d" "d \<noteq> c" using that(1) O(23) by (auto simp: alive_at_def)
      with that(2,3) C(2) [of d] show "channel_of (conns v d) = q \<and> serves v d" by (simp add: O(9))
    qed (use that(1) in \<open>auto simp: O(22)\<close>)
    with events_dueD [OF I(5)] show ?thesis unfolding events_due_def O(15-17) by blast
  qed
  ultimately show "life_inv reg own {} {} v"
    using opens_identities [OF o I(1)] opens_served [OF o I(1,2)] opens_queues [OF o I(3,4)]
    by (simp add: life_inv_def)
qed

lemma NewConnection_life:
  fixes w :: "('t, 'k, 'e, 's, 'a) life"
  assumes laws: "epoll_laws (sys_ctl (lsys sys)) reg" and app: "gentle reg app"
    and inv: "life_inv reg own {} {} w" and new: "newcomer own c r sockfd w"
    and ret: "NewConnection sys app c r sockfd (w\<lparr>open_fds := insert sockfd (open_fds w)\<rparr>) = Inr w'"
  shows "life_inv reg own {} {} w'"
proof -
  let ?w = "w\<lparr>open_fds := insert sockfd (open_fds w)\<rparr>"
  note D = identitiesD [OF life_invD(1) [OF inv]]
  define i where "i = AllLoops (ThreadPool ?w) ! unat (next_loop (ThreadPool ?w))"
  define name where "name = connection_name (srv_name ?w) (srv_IpPort ?w) (NextConnectionId ?w)"
  have srv: "srv_inv ?w" "length (srv_IpPort ?w) \<le> 40" using D(9,10) by (simp_all add: srv_inv_def)
  have id: "sint (NextConnectionId ?w) < 2 ^ 31 - 1"
    using NewConnection_overflow [OF srv_invD(1) [OF srv(1)]] ret by fastforce
  have unmapped: "\<forall>name. connections ?w name \<noteq> Some c" using new D(7) by (auto simp: newcomer_def)
  obtain v where run: "NewConnection sys app c r sockfd ?w = run_to sys (run_srv sys app) i (ConnectEstablishedF c) v"
    and v: "srv_inv v" "connections ?w name = None" "connections v = (connections ?w)(name \<mapsto> c)"
      "conns v = (conns ?w)(c := served_conn ?w name sockfd r)"
      "conn_alive v = (conn_alive ?w)(c := True)" "conn_loop v = (conn_loop ?w)(c := i)" "here v = here ?w"
      "srv_IpPort v = srv_IpPort ?w" "srv_name v = srv_name ?w"
      "sint (NextConnectionId v) = sint (NextConnectionId ?w) + 1" "server.more v = server.more ?w"
    and loops: "\<And>j. loop_at j v = (if j = i then (loop_at i ?w)\<lparr>poller_of :=
        upd_chan r (\<lambda>_. conn_channel c sockfd) (poller_of (loop_at i ?w))\<rparr> else loop_at j ?w)"
    by (rule NewConnection_prepares [OF srv id unmapped i_def name_def]) (rule that)
  note more = life_more [OF v(11)]
  have same: "served_conn ?w name sockfd r = served_conn w name sockfd r" by (simp add: served_conn_def)
  have v': "connections w name = None" "name = connection_name (srv_name w) (srv_IpPort w) (NextConnectionId w)"
    "connections v = (connections w)(name \<mapsto> c)" "conns v = (conns w)(c := served_conn w name sockfd r)"
    "conn_alive v = (conn_alive w)(c := True)" "conn_loop v = (conn_loop w)(c := i)"
    "srv_IpPort v = srv_IpPort w" "srv_name v = srv_name w" "sint (NextConnectionId v) = sint (NextConnectionId w) + 1"
    "due v = due w" "batch v = batch w" "finished v = finished w" "open_fds v = insert sockfd (open_fds w)"
    using v more unfolding same by (simp_all add: name_def)
  have loops': "loop_at j v = (if j = i then (loop_at i w)\<lparr>poller_of :=
        upd_chan r (\<lambda>_. conn_channel c sockfd) (poller_of (loop_at i w))\<rparr> else loop_at j w)" for j
    using loops [of j] by simp
  have o: "opens own c r sockfd i name w v"
    unfolding opens_def using new v(1) v' loops' by blast
  note O = opens_life(1) [OF o inv] opens_chans(3) [OF o] opens_life(2) [OF o inv]
  have c: "conn_alive v c" "conn_loop v c = i" "c \<in> ran (connections v)" using v(3,5,6) by (auto simp: ran_def)
  have unopened: "UserF (ConnectEstablishedF c) \<notin> set (todo j v)" for j using O(3) by fastforce
  show ?thesis
  proof (cases "i = here v")
    case True
    with ret run have "ConnectEstablished sys (srv_usr sys app) c v = Inr w'" by (simp add: run_to_def)
    with True c unopened show ?thesis by (intro ConnectEstablished_life [OF laws app O(1)]) simp_all
  next
    case False
    with ret run have w': "w' = queue_to sys i (ConnectEstablishedF c) v" by (simp add: run_to_def)
    have t: "timely i (queue_to sys i (ConnectEstablishedF c) v) (UserF (ConnectEstablishedF c))"
      using O(2) c by (simp add: known_def)
    have "UserF (UserCallF (CloseCall RemoveConnectionInLoopCb c)) \<notin> set (todo j v)" for j
      using O(3) [of "UserF (UserCallF (CloseCall RemoveConnectionInLoopCb c))" j] by auto
    with queue_life [OF O(1) c(1) _ t] unopened have "life_inv reg own {} ({} - {c}) w'" by (simp add: w')
    then show ?thesis by simp
  qed
qed

lemma accept_life:
  fixes w :: "('t, 'k, 'e, 's, 'a) life"
  assumes laws: "epoll_laws (sys_ctl (lsys sys)) reg" and app: "gentle reg app"
    and inv: "life_inv reg own {} {} w" and due: "due w i = q # rs" and new: "newcomer own c r connfd w"
    and acc: "Socket_accept sock (acceptor_fd w) zero_sockaddr (sockets w) = ((connfd, peer), s)"
    and ret: "Acceptor_HandleRead sock sys app c r ((pop_due i rs w)\<lparr>open_fds :=
             (if 0 \<le> connfd \<and> NewConnectionCallback w then insert connfd (open_fds w) else open_fds w)\<rparr>) = Inr w'"
  shows "life_inv reg own {} {} w'"
proof -
  let ?w = "pop_due i rs w"
  have sockets: "life_inv reg own {} {} (v\<lparr>sockets := s\<rparr>)" if "life_inv reg own {} {} v"
    for v :: "('t, 'k, 'e, 's, 'a) life" and s
  proof (rule life_inv_cong [OF _ that])
    show "same_view v (v\<lparr>sockets := s\<rparr>)" by (simp add: same_view_def srv_inv_def)
    show todo: "todo j (v\<lparr>sockets := s\<rparr>) = todo j v" for j by (simp add: todo_def)
    show "held c (v\<lparr>sockets := s\<rparr>) = held c v" for c unfolding held_def todo by simp
    show "events_due own (v\<lparr>sockets := s\<rparr>)"
      using life_invD(5) [OF that] by (auto simp: events_due_def alive_at_def)
  qed simp
  have fields: "acceptor_fd ?w = acceptor_fd w" "sockets ?w = sockets w" "NewConnectionCallback ?w = NewConnectionCallback w"
    by (cases w; simp add: switch_def event_loop.defs)+
  note inv1 = pop_due_life(1) [OF inv due]
  have new1: "newcomer own c r connfd (?w\<lparr>sockets := s\<rparr>)" using new by (simp add: newcomer_def)
  have open': "open_fds (?w\<lparr>sockets := s\<rparr>) = open_fds w" by simp
  show ?thesis
  proof (cases "0 \<le> connfd \<and> NewConnectionCallback w")
    case True
    have swap: "?w\<lparr>open_fds := insert connfd (open_fds w)\<rparr>\<lparr>sockets := s\<rparr> =
        ?w\<lparr>sockets := s\<rparr>\<lparr>open_fds := insert connfd (open_fds w)\<rparr>" by (cases w) simp
    have "NewConnection sys app c r connfd (?w\<lparr>open_fds := insert connfd (open_fds w)\<rparr>\<lparr>sockets := s\<rparr>) = Inr w'"
      using True ret acc fields by (simp add: Acceptor_HandleRead_def Let_def)
    then have "NewConnection sys app c r connfd (?w\<lparr>sockets := s\<rparr>\<lparr>open_fds := insert connfd (open_fds w)\<rparr>) = Inr w'"
      unfolding swap .
    from NewConnection_life [OF laws app sockets [OF inv1] new1, unfolded open', OF this] show ?thesis .
  next
    case False
    have same: "?w\<lparr>open_fds := open_fds w\<rparr> = ?w" by simp
    have "\<exists>s'. w' = ?w\<lparr>sockets := s'\<rparr>"
      using False ret acc fields unfolding if_not_P [OF False] same
      by (auto simp: Acceptor_HandleRead_def Let_def split: if_splits)
    with sockets [OF inv1] show ?thesis by blast
  qed
qed

section \<open>Every step\<close>

theorem life_step_inv:
  fixes w :: "('t, 'k, 'e, 's, 'a) life"
  assumes "life_step reg sock sys tick app own w w'" and laws: "epoll_laws (sys_ctl (lsys sys)) reg"
    and app: "gentle reg app" and tick: "gentle_timers reg tick" and inv: "life_inv reg own {} {} w"
  shows "life_inv reg own {} {} w'"
  using assms(1)
proof cases
  case (wait i answer now p active t)
  then show ?thesis using wait_life [OF inv] by simp
next
  case (accept i rs connfd peer s c r)
  have "newcomer own c r connfd w" using accept by (simp add: newcomer_def)
  from accept_life [OF laws app inv accept(2) this accept(3,4)] show ?thesis .
next
  case (own_event i r rs h t)
  from own_event_life [OF tick inv own_event(1,3,4)] show ?thesis .
next
  case (event i r rs t)
  from event_life [OF laws app inv event] show ?thesis .
next
  case (take i)
  then show ?thesis using take_life [OF inv] by simp
next
  case (run i f fs)
  from run_life [OF laws app inv run(1) refl run(2)] show ?thesis .
next
  case (ran i)
  then show ?thesis using ran_life [OF inv] by simp
next
  case (destroy i f fs)
  then show ?thesis using destroy_life [OF inv] by simp
qed

text \<open>Loops in which nothing is under way, and a server that has no connection yet.\<close>

definition loops_ready :: "('k \<Rightarrow> int \<Rightarrow> epoll_event option) \<Rightarrow> (nat \<Rightarrow> nat set) \<Rightarrow>
    ('t, 'k, 'e, 's, 'a) life \<Rightarrow> bool" where
  "loops_ready reg own w \<longleftrightarrow>
     (\<forall>i. poller_inv reg (own i) (poller_of (loop_at i w)) \<and> watches_only reg (own i) (poller_of (loop_at i w)) \<and>
        due w i = [] \<and> batch w i = [] \<and> finished w i = [] \<and>
        (\<forall>f\<in>set (functors (loop_at i w)). \<exists>g. f = TimerF g))"

definition fresh_server :: "('k \<Rightarrow> int \<Rightarrow> epoll_event option) \<Rightarrow> (nat \<Rightarrow> nat set) \<Rightarrow>
    ('t, 'k, 'e, 's, 'a) life \<Rightarrow> bool" where
  "fresh_server reg own w \<longleftrightarrow> (\<forall>c. \<not> conn_alive w c) \<and> connections w = Map.empty \<and> open_fds w = {} \<and>
     srv_inv w \<and> length (srv_IpPort w) \<le> 40 \<and> loops_ready reg own w"

lemma fresh_server_inv:
  assumes "fresh_server reg own w"
  shows "life_inv reg own {} {} w"
proof -
  have F: "\<not> conn_alive w c" "connections w = Map.empty" "open_fds w = {}" "srv_inv w" "length (srv_IpPort w) \<le> 40"
    "poller_inv reg (own i) (poller_of (loop_at i w))" "watches_only reg (own i) (poller_of (loop_at i w))"
    "due w i = []" "finished w i = []" "todo i w = functors (loop_at i w)"
    "f \<in> set (functors (loop_at i w)) \<Longrightarrow> \<exists>g. f = TimerF g" for c i f
    using assms by (auto simp: fresh_server_def loops_ready_def todo_def)
  have A: "alive_at i w = {}" "chans_at own i w = own i" for i using F(1) by (simp_all add: alive_at_def chans_at_def)
  have unheld: "\<not> held c w" for c using F(2,9,10,11) by (fastforce simp: held_def)
  have "identities own w" using F(1-5) by (simp add: identities_def)
  moreover have "loops_served reg own w" using F(1,6,7) by (simp add: loops_served_def tidy_at_def A)
  moreover have "filter is_opening (todo i w) = []" "f \<in> set (todo i w) \<Longrightarrow> timely i w f" for i f
    using F(11) [of _ i] by (fastforce simp: filter_empty_conv F(10))+
  then have "queues_timely {} w" using F(1) by (simp add: queues_timely_def)
  moreover have "refs_counted {} w" using F(1) unheld by (simp add: refs_counted_def)
  moreover have "events_due own w" using F(8) by (simp add: events_due_def)
  ultimately show ?thesis by (simp add: life_inv_def)
qed

text \<open>The connection a functor works on, held or not.\<close>

fun functor_conn :: "('t, 'x conn_functor) loop_functor \<Rightarrow> nat option" where
  "functor_conn (UserF (SendInLoopF c p n)) = Some c"
| "functor_conn (UserF (ShutdownInLoopF c)) = Some c"
| "functor_conn f = functor_holds f"

lemma timely_conn: "timely i w f \<Longrightarrow> functor_conn f = functor_holds f"
  by (cases f rule: functor_conn.cases) auto

lemma life_steps_inv:
  assumes "(life_step reg sock sys tick app own)\<^sup>*\<^sup>* w w'" and "epoll_laws (sys_ctl (lsys sys)) reg"
    and "gentle reg app" and "gentle_timers reg tick" and "life_inv reg own {} {} w"
  shows "life_inv reg own {} {} w'"
  using assms(1,5) by induction (use life_step_inv [OF _ assms(2-4)] in blast)+

text \<open>What the invariant says of memory and descriptors.\<close>

lemma life_inv_safe:
  assumes inv: "life_inv reg own {} {} w"
  shows "(\<forall>c. conn_alive w c \<longleftrightarrow> held c w) \<and>
    (\<forall>i f r. (\<exists>ev. reg (epoll (poller_of (loop_at i w))) f = Some \<lparr>ev_events = ev, ev_ptr = r\<rparr>) \<or>
        channels (poller_of (loop_at i w)) f = Some r \<longrightarrow>
       r \<in> own i \<or> (\<exists>c. conn_alive w c \<and> conn_loop w c = i \<and> channel_of (conns w c) = r \<and> conn_fd (conns w c) = f)) \<and>
    (\<forall>i. \<forall>r\<in>set (due w i). r \<in> own i \<or> (\<exists>c. conn_alive w c \<and> conn_loop w c = i \<and> channel_of (conns w c) = r)) \<and>
    (\<forall>i. \<forall>f\<in>set (todo i w). \<forall>c. functor_conn f = Some c \<longrightarrow> conn_alive w c) \<and>
    open_fds w = (\<lambda>c. conn_fd (conns w c)) ` {c. conn_alive w c} \<and> inj_on (\<lambda>c. conn_fd (conns w c)) {c. conn_alive w c}"
proof -
  note I = life_invD [OF inv]
  have served: "r \<in> own i \<or> (\<exists>c. conn_alive w c \<and> conn_loop w c = i \<and> channel_of (conns w c) = r \<and> conn_fd (conns w c) = f)"
    if "(\<exists>ev. reg (epoll (poller_of (loop_at i w))) f = Some \<lparr>ev_events = ev, ev_ptr = r\<rparr>) \<or>
      channels (poller_of (loop_at i w)) f = Some r" for i f r
  proof -
    let ?p = "poller_of (loop_at i w)"
    have T: "poller_inv reg (chans_at own i w) ?p" "watches_only reg (chans_at own i w) ?p"
      using loops_servedD(1) [OF I(2), of i] by (simp_all add: tidy_at_def)
    from T(2) that have "f \<in> watched_fds (chans_at own i w) ?p" by (auto simp: watches_only_def)
    then obtain q where q: "q \<in> chans_at own i w" "f = fd (chans ?p q)" by (auto simp: watched_fds_def)
    with poller_invD(1,2) [OF T(1) q(1)] that have "q = r" by (auto split: if_splits)
    with q show ?thesis
      using loops_servedD(2) [OF I(2)] by (fastforce simp: chans_at_def alive_at_def wiring_def)
  qed
  have "conn_alive w c" if "f \<in> set (todo i w)" "functor_conn f = Some c" for i f c
    using refs_countedD(1) [OF I(4) heldI(1) [OF that(1)]] timely_conn [OF queues_timelyD(2) [OF I(3) that(1)]] that(2)
    by simp
  moreover have "r \<in> own i \<or> (\<exists>c. conn_alive w c \<and> conn_loop w c = i \<and> channel_of (conns w c) = r)"
    if "r \<in> set (due w i)" for i r
    using events_dueD(3) [OF I(5) that] by (auto simp: alive_at_def)
  moreover have "inj_on (\<lambda>c. conn_fd (conns w c)) {c. conn_alive w c}" using I(1) by (simp add: identities_def)
  ultimately show ?thesis
    using refs_countedD [OF I(4)] served identitiesD(4) [OF I(1)] by blast
qed

text \<open>
  C2. Memory and descriptors of a server over all its threads. In every state that the
  interleaved threads of the loops can reach: a connection exists exactly as long as the map or a
  functor refers to it; the kernel and the pollers know no channel but those of the loops
  themselves and of existing connections, each in the loop that serves it and under the
  connection's descriptor; no channel waiting to be handled and no functor waiting to be run
  belongs to a connection that has gone; and the open descriptors are those of the existing
  connections, one each, so that none is leaked and none closed twice. (The callbacks are gentle,
  as those of the applications \<open>answering\<close> are.)
\<close>

theorem server_life_safe:
  assumes "epoll_laws (sys_ctl (lsys sys)) reg" and "gentle reg app" and "gentle_timers reg tick"
    and "fresh_server reg own w0" and "(life_step reg sock sys tick app own)\<^sup>*\<^sup>* w0 w"
  shows "(\<forall>c. conn_alive w c \<longleftrightarrow> held c w) \<and>
    (\<forall>i f r. (\<exists>ev. reg (epoll (poller_of (loop_at i w))) f = Some \<lparr>ev_events = ev, ev_ptr = r\<rparr>) \<or>
        channels (poller_of (loop_at i w)) f = Some r \<longrightarrow>
       r \<in> own i \<or> (\<exists>c. conn_alive w c \<and> conn_loop w c = i \<and> channel_of (conns w c) = r \<and> conn_fd (conns w c) = f)) \<and>
    (\<forall>i. \<forall>r\<in>set (due w i). r \<in> own i \<or> (\<exists>c. conn_alive w c \<and> conn_loop w c = i \<and> channel_of (conns w c) = r)) \<and>
    (\<forall>i. \<forall>f\<in>set (todo i w). \<forall>c. functor_conn f = Some c \<longrightarrow> conn_alive w c) \<and>
    open_fds w = (\<lambda>c. conn_fd (conns w c)) ` {c. conn_alive w c} \<and> inj_on (\<lambda>c. conn_fd (conns w c)) {c. conn_alive w c}"
  by (rule life_inv_safe [OF life_steps_inv [OF assms(5,1-3) fresh_server_inv [OF assms(4)]]])

text \<open>
  A server with the base loop 0, whose acceptor has the channel 9 on the descriptor 3, and the
  loops 1 and 2; a connection arrives.
\<close>

definition demo_sock :: "demo_sockets sock_sys" where
  "demo_sock = \<lparr>sock_create = (\<lambda>s. (3, s)), sock_bind = (\<lambda>s f a. (True, s)), sock_listen = (\<lambda>s f n. (True, s)),
     sock_accept = (\<lambda>s f. ((6, zero_sockaddr), s)), sock_setopt = (\<lambda>s f l n v. s), sock_close = (\<lambda>s f. s)\<rparr>"

definition demo_own :: "nat \<Rightarrow> nat set" where
  "demo_own i = (if i = 0 then {9} else {})"

definition demo_acceptor_poller :: "(conn_handler handler, int \<Rightarrow> epoll_event option) poller" where
  "demo_acceptor_poller = \<lparr>chans = (\<lambda>r. (new_Channel 3)\<lparr>events := POLLIN, ch_state := ADD\<rparr>), channels = [3 \<mapsto> 9],
     epoll = [3 \<mapsto> \<lparr>ev_events = POLLIN, ev_ptr = 9\<rparr>], events_size = InitEventListSize\<rparr>"

type_synonym demo_life_state = "(unit, int \<Rightarrow> epoll_event option, nat, demo_sockets, unit) life"

definition demo_life :: demo_life_state where
  "demo_life = (server.extend (demo_srv 0 Map.empty)
      \<lparr>due = (\<lambda>_. []), batch = (\<lambda>_. []), finished = (\<lambda>_. []), open_fds = {}\<rparr>)
     \<lparr>conn_alive := (\<lambda>_. False), poller_of := demo_acceptor_poller\<rparr>"

lemma demo_life_simps [simp]:
  "here demo_life = 0" "conn_alive demo_life c = False" "connections demo_life = Map.empty" "open_fds demo_life = {}"
  "srv_IpPort demo_life = ''127.0.0.1:80''" "NextConnectionId demo_life = 1" "srv_inv demo_life"
  "due demo_life = (\<lambda>_. [])" "batch demo_life = (\<lambda>_. [])" "finished demo_life = (\<lambda>_. [])"
  "functors (loop_at i demo_life) = []" "acceptor_channel demo_life = 9" "acceptor_fd demo_life = 3"
  "NewConnectionCallback demo_life" "BaseLoop (ThreadPool demo_life) = 0"
  "poller_of (loop_at 0 demo_life) = demo_acceptor_poller" "AllLoops (ThreadPool demo_life) = [1, 2]"
  "next_loop (ThreadPool demo_life) = 0" "sockets demo_life = sockets (demo_srv 0 Map.empty)"
  "i \<noteq> 0 \<Longrightarrow> channels (poller_of (loop_at i demo_life)) = Map.empty"
  "i \<noteq> 0 \<Longrightarrow> epoll (poller_of (loop_at i demo_life)) = Map.empty"
  by (simp_all add: demo_life_def demo_srv_def Let_def server.defs event_loop.defs loop_at_def srv_inv_def pool_inv_def
      AllLoops_def)

lemma demo_life_fresh: "fresh_server id demo_own demo_life"
proof -
  have "poller_inv id (demo_own i) (poller_of (loop_at i demo_life)) \<and>
      watches_only id (demo_own i) (poller_of (loop_at i demo_life))" for i
    by (cases "i = 0") (simp_all add: demo_own_def poller_inv_def watches_only_def watched_fds_def
        demo_acceptor_poller_def new_Channel_def)
  then show ?thesis by (simp add: fresh_server_def loops_ready_def)
qed

theorem server_life_safe_witness:
  "\<exists>w. (life_step id demo_sock demo_net_sys (\<lambda>_. Inr) (answering demo_net_sys (\<lambda>_. [SendString 0, ShutDown])) demo_own)\<^sup>*\<^sup>*
      demo_life w \<and> conn_alive w 7 \<and> held 7 w \<and> open_fds w = {6} \<and> conn_fd (conns w 7) = 6"
proof -
  let ?app = "answering demo_net_sys (\<lambda>_. [SendString 0, ShutDown]) ::
    unit srv_callback user_call \<Rightarrow> demo_life_state \<Rightarrow> demo_life_state res"
  let ?step = "life_step id demo_sock demo_net_sys (\<lambda>_. Inr) ?app demo_own"
  define p active t where "p = fst (fst (poll (WaitOk [\<lparr>ev_events = POLLIN, ev_ptr = 9\<rparr>]) ts_zero (demo_acceptor_poller, [])))"
    and "active = [9 :: nat]" and "t = ts_zero"
  define w1 where "w1 = demo_life\<lparr>poller_of := p, ActiveChannels := active, PollreturnTime := t,
    due := (due demo_life)(0 := active)\<rparr>"
  have poll: "poll (WaitOk [\<lparr>ev_events = POLLIN, ev_ptr = 9\<rparr>]) ts_zero (poller_of (loop_at 0 demo_life), []) = ((p, active), t)"
    by (simp add: p_def active_def t_def poll_def demo_acceptor_poller_def InitEventListSize_def)
  have switch: "switch 0 demo_life = demo_life" using switch_here [of demo_life] by simp
  have "?step demo_life ((switch 0 demo_life)\<lparr>poller_of := p, ActiveChannels := active, PollreturnTime := t,
      due := (due demo_life)(0 := active)\<rparr>)"
    by (rule life_step.wait [OF _ _ _ _ poll]) (simp_all add: demo_acceptor_poller_def)
  then have step1: "?step demo_life w1" by (simp only: switch w1_def)
  define w2 where "w2 = w1\<lparr>due := (due w1)(0 := []), open_fds := {6}\<rparr>"
  have w1: "here w1 = 0" "conn_alive w1 c = False" "due w1 0 = acceptor_channel w1 # []" "acceptor_fd w1 = 3"
    "BaseLoop (ThreadPool w1) = 0" "NewConnectionCallback w1" "open_fds w1 = {}" for c
    by (simp_all add: w1_def active_def)
  have switch1: "switch 0 w1 = w1" using switch_here [of w1] by (simp add: w1)
  have w2: "srv_inv w2" "length (srv_IpPort w2) \<le> 40" "sint (NextConnectionId w2) < 2 ^ 31 - 1" "\<forall>name. connections w2 name \<noteq> Some 7"
    "AllLoops (ThreadPool w2) ! unat (next_loop (ThreadPool w2)) = 1" "here w2 = 0"
    using srv_invD(1) [of demo_life] by (simp_all add: w2_def w1_def) (simp_all add: srv_inv_def)
  from NewConnection_effect [OF w2(1-4) _ _ refl, of 1 demo_net_sys ?app 4 6] w2(5,6) obtain w3 where
    w3: "NewConnection demo_net_sys ?app 7 4 6 w2 = Inr w3" "conn_alive w3 = (conn_alive w2)(7 := True)"
      "conns w3 = (conns w2)(7 := served_conn w2 (connection_name (srv_name w2) (srv_IpPort w2) (NextConnectionId w2)) 6 4)"
    by (metis one_neq_zero)
  have acc: "Socket_accept demo_sock (acceptor_fd w1) zero_sockaddr (sockets w1) =
      ((6, SetSockaddr zero_sockaddr zero_sockaddr), sockets w1)"
    by (simp add: Socket_accept_def demo_sock_def)
  have same: "(pop_due 0 [] w1)\<lparr>open_fds := (if 0 \<le> (6 :: int) \<and> NewConnectionCallback w1 then insert 6 (open_fds w1)
      else open_fds w1)\<rparr> = w2"
    using w1(6,7) by (simp add: switch1 w2_def)
  have "acceptor_fd w2 = 3" "NewConnectionCallback w2" "sockets w2 = sockets w1" using w1 by (simp_all add: w2_def)
  moreover have eq: "w2\<lparr>sockets := sockets w1\<rparr> = w2" by (simp add: w2_def)
  have "NewConnection demo_net_sys ?app 7 4 6 (w2\<lparr>sockets := sockets w1\<rparr>) = Inr w3" by (simp only: eq w3(1))
  ultimately have acc2: "Acceptor_HandleRead demo_sock demo_net_sys ?app 7 4 w2 = Inr w3"
    using acc w1(4) by (simp add: Acceptor_HandleRead_def Let_def)
  have "fd (chans p 9) = fd (chans demo_acceptor_poller 9)"
    using poll_frame(3) [of _ _ demo_acceptor_poller p active t 9] poll by (intro same_but_revents(1)) simp
  moreover have "poller_of (loop_at 0 w1) = p" using current_loop(1) [of w1] w1(1) by (simp add: w1_def)
  ultimately have fd9: "fd (chans (poller_of (loop_at 0 w1)) 9) = 3" by (simp add: demo_acceptor_poller_def new_Channel_def)
  have step2: "?step w1 w3"
    by (rule life_step.accept [where i = 0 and rs = "[]" and c = 7 and r = 4, OF _ w1(3) acc, unfolded same, OF _ acc2])
      (simp_all add: w1 demo_own_def fd9)
  from step1 step2 have steps: "?step\<^sup>*\<^sup>* demo_life w3" by simp
  have timers: "gentle_timers id (\<lambda>_. Inr :: demo_life_state \<Rightarrow> demo_life_state res)"
    by (simp add: gentle_timers_def goes_refl)
  note safe = server_life_safe [OF demo_epoll answering_gentle [OF demo_epoll] timers demo_life_fresh steps]
  have alive: "conn_alive w3 c \<longleftrightarrow> c = 7" "conn_fd (conns w3 7) = 6" for c
    by (simp_all add: w3 w2_def w1 served_conn_def)
  from safe have "\<forall>c. conn_alive w3 c \<longleftrightarrow> held c w3" by (rule conjunct1)
  with alive(1) have "held 7 w3" by blast
  moreover from safe have "open_fds w3 = (\<lambda>c. conn_fd (conns w3 c)) ` {c. conn_alive w3 c}" by (elim conjE)
  with alive have "open_fds w3 = {6}" by simp
  moreover have "conn_alive w3 7" by (simp add: alive)
  ultimately show ?thesis using steps alive(2) by blast
qed

end
