(* ===== verification/Server_Start.thy ===== *)
theory Server_Start
  imports Server_Safety
begin

unbundle bit_operations_syntax

text \<open>
  A server from its constructor to its first connection (\<^verbatim>\<open>TcpServer::TcpServer\<close>,
  \<^verbatim>\<open>SetThreadNum\<close>, \<^verbatim>\<open>start\<close>): when it starts, and that it starts as the
  \<open>fresh_server\<close> from which Server_Safety goes on.
\<close>

section \<open>New loops are ready\<close>

lemma new_loop_ready:
  assumes "epoll_laws (sys_ctl sys) reg" and "reg k = Map.empty" and "tr \<noteq> wr" and "tfd \<noteq> evfd"
    and "new_EventLoop sys other heap k e (epfd, tfd, evfd) (tr, wr) num clk =
      Inr (l :: ('t, 'c, 'k, 'e, 'u) event_loop)"
  shows "poller_inv reg {tr, wr} (poller_of l)" and "watches_only reg {tr, wr} (poller_of l)" and "functors l = []"
proof -
  have L: "tr \<notin> {}" "wr \<notin> {}" "users_ready {} {tfd, evfd} heap" by (simp_all add: users_ready_def)
  note M = new_EventLoop_Inr [OF assms(1-3) L assms(4,5)]
  show "poller_inv reg {tr, wr} (poller_of l)" using M(3) by (simp add: insert_commute)
  show "watches_only reg {tr, wr} (poller_of l)"
    using M(2,4,5,7) by (auto simp: watches_only_def watched_fds_def split: if_splits)
  show "functors l = []"
    using assms(5) by (auto simp: new_EventLoop_def Let_def bindR_def timer_queue.defs split: if_splits sum.splits prod.splits)
qed

section \<open>The loops of the pool\<close>

definition thread_ok :: "('k, 'e) thread_answers \<Rightarrow> bool" where
  "thread_ok a \<longleftrightarrow> thread_made a \<and> (case loop_fds a of (epfd, tfd, evfd) \<Rightarrow> 0 \<le> epfd \<and> 0 \<le> tfd \<and> 0 \<le> evfd)"

text \<open>How a thread that does not come up ends the process.\<close>

definition thread_fault :: "('k, 'e) thread_answers \<Rightarrow> fault" where
  "thread_fault a = (if thread_made a then Abort else SystemError)"

text \<open>
  What a program may rely on: the loop has memory of its own, its \<^verbatim>\<open>epoll\<close> instance is new,
  and two descriptors that exist are different.
\<close>

definition own_memory :: "('k \<Rightarrow> int \<Rightarrow> epoll_event option) \<Rightarrow> nat \<Rightarrow> ('k, 'e) thread_answers \<Rightarrow> bool" where
  "own_memory reg base a \<longleftrightarrow> loop_addr a \<noteq> base \<and> fst (loop_refs a) \<noteq> snd (loop_refs a) \<and>
     reg (loop_epoll a) = Map.empty \<and> (case loop_fds a of (epfd, tfd, evfd) \<Rightarrow> 0 \<le> tfd \<longrightarrow> tfd \<noteq> evfd)"

text \<open>The channels the loops have of their own once the threads \<open>is\<close> are started.\<close>

definition pool_own :: "(nat \<Rightarrow> ('k, 'e) thread_answers) \<Rightarrow> nat list \<Rightarrow> (nat \<Rightarrow> nat set) \<Rightarrow> nat \<Rightarrow> nat set" where
  "pool_own threads is = fold (\<lambda>i own. own(loop_addr (threads i) := {fst (loop_refs (threads i)), snd (loop_refs (threads i))})) is"

lemma pool_own_simps [simp]:
  "pool_own threads [] own = own"
  "pool_own threads (i # is) own =
     pool_own threads is (own(loop_addr (threads i) := {fst (loop_refs (threads i)), snd (loop_refs (threads i))}))"
  by (simp_all add: pool_own_def)

lemma pool_own_other: "j \<notin> (\<lambda>i. loop_addr (threads i)) ` set is \<Longrightarrow> pool_own threads is own j = own j"
  by (induction "is" arbitrary: own) simp_all

definition new_and_ready :: "('k \<Rightarrow> int \<Rightarrow> epoll_event option) \<Rightarrow> nat set \<Rightarrow> ('t, 'k, 'e, 'a) bare_loop \<Rightarrow> bool" where
  "new_and_ready reg L l \<longleftrightarrow> poller_inv reg L (poller_of l) \<and> watches_only reg L (poller_of l) \<and> functors l = []"

lemma StartLoop_exact:
  fixes w :: "('t, 'k, 'e, 's, 'a, 'z) srv"
  assumes laws: "epoll_laws (sys_ctl (lsys sys)) reg" and mem: "own_memory reg base (threads i)"
  shows "case StartLoop sys threads i w of
      Inl e \<Rightarrow> \<not> thread_ok (threads i) \<and> e = thread_fault (threads i)
    | Inr (a, v) \<Rightarrow> thread_ok (threads i) \<and> a = loop_addr (threads i) \<and>
        (\<exists>l. v = w\<lparr>parked := (parked w)(a := l)\<rparr> \<and>
           new_and_ready reg {fst (loop_refs (threads i)), snd (loop_refs (threads i))} l)"
proof -
  obtain tr wr where refs: "loop_refs (threads i) = (tr, wr)" by fastforce
  obtain epfd tfd evfd where fds: "loop_fds (threads i) = (epfd, tfd, evfd)" by (metis prod.exhaust)
  have M: "tr \<noteq> wr" "reg (loop_epoll (threads i)) = Map.empty" "0 \<le> tfd \<longrightarrow> tfd \<noteq> evfd"
    using mem by (simp_all add: own_memory_def refs fds)
  define made where "made = (new_EventLoop (lsys sys) False (loop_heap (threads i)) (loop_epoll (threads i))
      (loop_eventfd (threads i)) (epfd, tfd, evfd) (tr, wr) (TotalNum w) (loop_clock (threads i)) :: ('t, 'k, 'e, 'a) bare_loop res)"
  have "case made of Inl e \<Rightarrow> e = Abort \<and> \<not> (0 \<le> epfd \<and> 0 \<le> tfd \<and> 0 \<le> evfd)
      | Inr l \<Rightarrow> 0 \<le> epfd \<and> 0 \<le> tfd \<and> 0 \<le> evfd \<and> new_and_ready reg {tr, wr} l"
  proof (cases "0 \<le> tfd")
    case True
    with M(3) have ne: "tfd \<noteq> evfd" by simp
    from new_EventLoop_exact [where 't = 't and 'c = conn_handler and 'u = "'a srv_callback conn_functor", OF laws M(2,1) ne, where other = False and heap = "loop_heap (threads i)" and
        e = "loop_eventfd (threads i)" and epfd = epfd and num = "TotalNum w" and clk = "loop_clock (threads i)"]
    have "case made of Inl f \<Rightarrow> f = Abort \<and> (epfd < 0 \<or> tfd < 0 \<or> evfd < 0) | Inr l \<Rightarrow> 0 \<le> epfd \<and> 0 \<le> tfd \<and> 0 \<le> evfd"
      unfolding made_def by (auto split: sum.splits)
    moreover have "new_and_ready reg {tr, wr} l" if "made = Inr l" for l
      using new_loop_ready [OF laws M(2,1) ne that [unfolded made_def]] by (simp add: new_and_ready_def)
    ultimately show ?thesis by (auto split: sum.splits)
  next
    case False
    then show ?thesis
      by (simp add: made_def new_EventLoop_def new_Poller_def new_TimerQueue_in_def CreateTimerfd_def bindR_def
          split: sum.splits)
  qed
  then show ?thesis
    by (auto simp: StartLoop_def refs fds thread_ok_def thread_fault_def Let_def made_def [symmetric] split: sum.splits)
qed

lemma start_loops_exact:
  fixes w :: "('t, 'k, 'e, 's, 'a, 'z) srv"
  assumes laws: "epoll_laws (sys_ctl (lsys sys)) reg" and mem: "\<forall>i\<in>set is. own_memory reg base (threads i)"
  shows "case start_loops (StartLoop sys threads) is w of
      Inl e \<Rightarrow> \<exists>i\<in>set is. \<not> thread_ok (threads i) \<and> e = thread_fault (threads i)
    | Inr (loops, v) \<Rightarrow> (\<forall>i\<in>set is. thread_ok (threads i)) \<and> loops = map (\<lambda>i. loop_addr (threads i)) is \<and>
        (\<exists>p. v = w\<lparr>parked := p\<rparr> \<and> (\<forall>j. if j \<in> (\<lambda>i. loop_addr (threads i)) ` set is
           then new_and_ready reg (pool_own threads is own j) (p j) else p j = parked w j))"
  using mem
proof (induction "is" arbitrary: w own)
  case Nil
  show ?case by (auto intro: exI [of _ "parked w"])
next
  case (Cons i "is")
  let ?a = "loop_addr (threads i)" and ?L = "{fst (loop_refs (threads i)), snd (loop_refs (threads i))}"
  have mem: "own_memory reg base (threads i)" "\<forall>i\<in>set is. own_memory reg base (threads i)" using Cons.prems by simp_all
  note first = StartLoop_exact [where threads = threads and i = i and w = w, OF laws mem(1)]
  show ?case
  proof (cases "StartLoop sys threads i w")
    case (Inl e)
    with first show ?thesis by simp
  next
    case (Inr r)
    with first obtain l where ok: "thread_ok (threads i)"
      and r: "r = (?a, w\<lparr>parked := (parked w)(?a := l)\<rparr>)" and l: "new_and_ready reg ?L l"
      by (cases r) auto
    let ?w = "w\<lparr>parked := (parked w)(?a := l)\<rparr>"
    note IH = Cons.IH [OF mem(2), of ?w "own(?a := ?L)"]
    show ?thesis
    proof (cases "start_loops (StartLoop sys threads) is ?w")
      case Inl: (Inl e)
      with IH Inr r show ?thesis by auto
    next
      case rest: (Inr q)
      with IH obtain p where q: "\<forall>i\<in>set is. thread_ok (threads i)" "q = (map (\<lambda>i. loop_addr (threads i)) is, ?w\<lparr>parked := p\<rparr>)"
        and p: "\<And>j. if j \<in> (\<lambda>i. loop_addr (threads i)) ` set is then new_and_ready reg (pool_own threads is (own(?a := ?L)) j) (p j)
           else p j = parked ?w j"
        by (cases q) auto
      have "if j \<in> (\<lambda>i. loop_addr (threads i)) ` set (i # is) then new_and_ready reg (pool_own threads (i # is) own j) (p j)
          else p j = parked w j" for j
        using p [of j] l pool_own_other [of j threads "is" "own(?a := ?L)"] by (auto split: if_splits)
      then have "\<exists>p'. w\<lparr>parked := p\<rparr> = w\<lparr>parked := p'\<rparr> \<and> (\<forall>j. if j \<in> (\<lambda>i. loop_addr (threads i)) ` set (i # is)
          then new_and_ready reg (pool_own threads (i # is) own j) (p' j) else p' j = parked w j)" by blast
      with Inr r rest q ok show ?thesis by simp
    qed
  qed
qed

section \<open>The acceptor's channel\<close>

lemma watches_only_new:
  assumes "watches_only reg L p" and "channels p' = (channels p)(f \<mapsto> r)" and "reg (epoll p') = (reg (epoll p))(f \<mapsto> e)"
    and "fd (chans p' r) = f" and "\<And>q. q \<in> L \<Longrightarrow> chans p' q = chans p q"
  shows "watches_only reg (insert r L) p'"
  using assms by (auto simp: watches_only_def watched_fds_def)

section \<open>Constructor and start\<close>

lemma start_new_pool:
  assumes "start_loops start_loop [0..<nat (sint n)] s = Inr (loops, s')"
  obtains p where "start_pool start_loop b (SetThreadNum n (new_EventLoopThreadPool base name)) s =
      Inr (if b then if n = 0 then [base] else loops else [], p, s')"
    and "AllLoops p = (if sint n \<le> 0 then [base] else loops)" and "pool_inv p"
proof -
  let ?p = "SetThreadNum n (new_EventLoopThreadPool base name)"
  have len: "length loops = nat (sint n)" using start_loops_length [OF assms] by simp
  obtain p where p: "start_pool start_loop b ?p s = Inr (if b then if n = 0 then [base] else loops else [], p, s')"
    and all: "pool_loops p = loops" "BaseLoop p = base"
    using assms by (simp add: start_pool_def SetThreadNum_def new_EventLoopThreadPool_def)
  have "sint n < 2 ^ 31" using sint_lt [of n] by simp
  then have "pool_inv p"
    by (intro start_pool_inv [OF _ _ p]) (simp_all add: SetThreadNum_def new_EventLoopThreadPool_def pool_inv_def)
  moreover have "AllLoops p = (if sint n \<le> 0 then [base] else loops)" using all len by (auto simp: AllLoops_def)
  ultimately show thesis using that p by blast
qed

lemma server_start_cases:
  fixes w :: "('t, 'k, 'e, 's, 'a) life"
  assumes "epoll_laws (sys_ctl (lsys sys)) reg" and "loops_ready reg own w" and "\<forall>c. \<not> conn_alive w c" and "open_fds w = {}"
    and "r \<notin> own (here w)" and "\<forall>q\<in>own (here w). fd (chans (poller_of w) q) \<noteq> f"
    and "sock_create sock (sockets w) = (f, s1)"
    and "sock_bind sock (SetReusePort sock f reuse (SetReuseAddr sock f True s1)) f addr = (bound, s2)"
    and "sock_listen sock s2 f 1024 = (listens, s3)"
    and "\<forall>i<nat (sint n). own_memory reg (here w) (threads i)"
  shows "case bindR (new_TcpServer sock r addr name reuse w)
        (\<lambda>v. start_server sock sys threads callback_set (server_SetThreadNum n v)) of
      Inl e \<Rightarrow> e = Abort \<and> (f < 0 \<or> \<not> bound \<or> \<not> listens) \<or>
        (\<exists>i<nat (sint n). \<not> thread_ok (threads i) \<and> e = thread_fault (threads i))
    | Inr (inits, v) \<Rightarrow> 0 \<le> f \<and> bound \<and> listens \<and> (\<forall>i<nat (sint n). thread_ok (threads i)) \<and>
        fresh_server reg ((pool_own threads [0..<nat (sint n)] own)(here w := insert r (own (here w)))) v \<and>
        reg (epoll (poller_of v)) f = Some \<lparr>ev_events = POLLIN OR POLLPRI, ev_ptr = r\<rparr> \<and>
        ReadCallback (chans (poller_of v) r) = Some (Handler AcceptorRead) \<and> NewConnectionCallback v \<and>
        AllLoops (ThreadPool v) =
          (if sint n \<le> 0 then [here w] else map (\<lambda>i. loop_addr (threads i)) [0..<nat (sint n)]) \<and>
        inits = (if callback_set then if n = 0 then [here w] else map (\<lambda>i. loop_addr (threads i)) [0..<nat (sint n)] else []) \<and>
        start_server sock sys threads callback_set v = Inr ([], v\<lparr>srv_started := 2\<rparr>)"
proof -
  let ?i = "here w" and ?p = "upd_chan r (\<lambda>_. SetReadCallback (Handler AcceptorRead) (new_Channel f)) (poller_of w)"
  let ?is = "[0..<nat (sint n)]" and ?own = "(pool_own threads [0..<nat (sint n)] own)(here w := insert r (own (here w)))"
  have P: "poller_inv reg (own ?i) (poller_of w)" "watches_only reg (own ?i) (poller_of w)"
    using assms(2) current_loop(1) [of w] by (simp_all add: loops_ready_def)
  have unused: "channels (poller_of w) f = None" "reg (epoll (poller_of w)) f = None"
    using P(2) assms(6) by (auto simp: watches_only_def watched_fds_def)
  from enable_fresh [OF assms(1) P(1) assms(5,6) unused, of "Handler AcceptorRead"] obtain p where
    en: "EnableReading (sys_ctl (lsys sys)) r ?p = Inr p" and
    p: "poller_inv reg (insert r (own ?i)) p" "fd (chans p r) = f" "channels p = (channels (poller_of w))(f \<mapsto> r)"
      "reg (epoll p) = (reg (epoll (poller_of w)))(f \<mapsto> \<lparr>ev_events = POLLIN OR POLLPRI, ev_ptr = r\<rparr>)"
      "ReadCallback (chans p r) = Some (Handler AcceptorRead)" and
    other: "\<And>q. q \<noteq> r \<Longrightarrow> chans p q = chans (poller_of w) q" by blast
  have only: "watches_only reg (insert r (own ?i)) p"
    by (rule watches_only_new [OF P(2) p(3,4,2)]) (rule other, use assms(5) in blast)
  let ?ip = "address addr @ '':'' @ dec_nat (unat (port addr))"
  define u where "u = w\<lparr>srv_IpPort := ?ip, srv_name := name, sockets := s2, acceptor_fd := f, acceptor_channel := r,
    listenning := False, NewConnectionCallback := True, poller_of := ?p, ThreadPool := new_EventLoopThreadPool ?i name,
    srv_ConnectionCallback := None, srv_MessageCallback := None, srv_WriteCompleteCallback := None, srv_started := 0,
    NextConnectionId := 1, connections := Map.empty\<rparr>"
  define u1 where "u1 = u\<lparr>ThreadPool := SetThreadNum n (new_EventLoopThreadPool ?i name), srv_started := 1\<rparr>"
  have u: "srv_started u = 0" "ThreadPool u = new_EventLoopThreadPool ?i name" by (simp_all add: u_def)
  have made: "new_TcpServer sock r addr name reuse w = (if f < 0 \<or> \<not> bound then Inl Abort else Inr u)"
    using assms(7,8) by (simp add: new_TcpServer_def IpPort_value new_Acceptor_def CreateSocket_def BindAddress_def Let_def u_def)
  have start: "start_server sock sys threads callback_set (server_SetThreadNum n u) =
      bindR (start_pool (StartLoop sys threads) callback_set (SetThreadNum n (new_EventLoopThreadPool ?i name)) u1)
        (\<lambda>(inits, pool, w). bindR (Acceptor_listen sock sys (w\<lparr>ThreadPool := pool\<rparr>)) (\<lambda>w. Inr (inits, w)))"
    by (simp add: start_server_def server_SetThreadNum_def u u1_def)
  have mem: "\<forall>i\<in>set ?is. own_memory reg ?i (threads i)" using assms(10) by simp
  note L = start_loops_exact [OF assms(1) mem, of u1 own]
  show ?thesis
  proof (cases "f < 0 \<or> \<not> bound")
    case True
    with made show ?thesis by auto
  next
    case ok: False
    show ?thesis
    proof (cases "start_loops (StartLoop sys threads) ?is u1")
      case (Inl e)
      with L made start ok show ?thesis by (auto simp: start_pool_def Let_def SetThreadNum_def new_EventLoopThreadPool_def)
    next
      case (Inr q)
      define loops where "loops = map (\<lambda>i. loop_addr (threads i)) ?is"
      from L Inr obtain pk where q: "q = (loops, u1\<lparr>parked := pk\<rparr>)" and up: "\<forall>i<nat (sint n). thread_ok (threads i)"
        and pk: "\<And>j. if j \<in> set loops then new_and_ready reg (pool_own threads ?is own j) (pk j) else pk j = parked u1 j"
        by (cases q) (auto simp: loops_def)
      obtain pool where pool: "start_pool (StartLoop sys threads) callback_set (SetThreadNum n (new_EventLoopThreadPool ?i name)) u1 =
          Inr (if callback_set then if n = 0 then [?i] else loops else [], pool, u1\<lparr>parked := pk\<rparr>)"
        and all: "AllLoops pool = (if sint n \<le> 0 then [?i] else loops)" and inv: "pool_inv pool"
        by (rule start_new_pool [OF Inr [unfolded q]])
      define v where "v = u1\<lparr>parked := pk, ThreadPool := pool, listenning := True, sockets := s3, poller_of := p\<rparr>"
      have u1: "acceptor_fd u1 = f" "acceptor_channel u1 = r" "sockets u1 = s2" "poller_of u1 = ?p"
        by (simp_all add: u1_def u_def)
      have "start_server sock sys threads callback_set (server_SetThreadNum n u) =
          (if listens then Inr (if callback_set then if n = 0 then [?i] else loops else [], v) else Inl Abort)"
        unfolding start pool using assms(9) en u1
        by (simp add: Acceptor_listen_def Socket_listen_def with_poller_def v_def Let_def split: prod.splits)
      with made ok have run: "bindR (new_TcpServer sock r addr name reuse w)
          (\<lambda>v. start_server sock sys threads callback_set (server_SetThreadNum n v)) =
        (if listens then Inr (if callback_set then if n = 0 then [?i] else loops else [], v) else Inl Abort)" by simp
      have here: "here v = ?i" "poller_of v = p" by (simp_all add: v_def u1_def u_def)
      have base: "?i \<notin> set loops" using assms(10) by (auto simp: loops_def own_memory_def)
      have loop: "loop_at j v = (if j = ?i then (loop_at ?i w)\<lparr>poller_of := p\<rparr> else pk j)" for j
        by (simp add: v_def u1_def u_def loop_at_def event_loop.defs)
      have ready_at: "poller_inv reg (?own j) (poller_of (loop_at j v)) \<and> watches_only reg (?own j) (poller_of (loop_at j v)) \<and>
          (\<forall>f\<in>set (functors (loop_at j v)). \<exists>g. f = TimerF g)" for j
      proof (cases "j \<in> set loops")
        case True
        with pk [of j] base show ?thesis by (auto simp: loop new_and_ready_def)
      next
        case False
        have "pool_own threads ?is own j = own j" by (rule pool_own_other) (use False in \<open>simp add: loops_def\<close>)
        moreover have "loop_at j v = loop_at j w" if "j \<noteq> ?i"
          using pk [of j] False that unfolding loop by (simp add: u1_def u_def loop_at_def)
        ultimately show ?thesis using assms(2) p(1) only by (cases "j = ?i") (simp_all add: loops_ready_def loop)
      qed
      have "due v = due w" "batch v = batch w" "finished v = finished w" by (simp_all add: v_def u1_def u_def)
      with ready_at assms(2) have ready: "loops_ready reg ?own v" by (simp add: loops_ready_def)
      have fresh: "fresh_server reg ?own v"
        using assms(3,4) ready inv IpPort_value(2) [of addr]
        by (simp add: fresh_server_def) (simp add: v_def u1_def u_def srv_inv_def)
      have again: "start_server sock sys threads callback_set v = Inr ([], v\<lparr>srv_started := 2\<rparr>)"
        by (simp add: start_server_def v_def u1_def u_def)
      have "AllLoops (ThreadPool v) = (if sint n \<le> 0 then [?i] else loops)" "NewConnectionCallback v"
        using all by (simp_all add: v_def u1_def u_def)
      with run fresh again p here up ok show ?thesis by (simp add: loops_def)
    qed
  qed
qed


text \<open>The base loop 0 without a server, and what the threads of the loops 1 and 2 get.\<close>

definition demo_start :: demo_life_state where
  "demo_start = (server.extend (demo_srv 0 Map.empty)
      \<lparr>due = (\<lambda>_. []), batch = (\<lambda>_. []), finished = (\<lambda>_. []), open_fds = {}\<rparr>)\<lparr>conn_alive := (\<lambda>_. False)\<rparr>"

lemma demo_start_simps [simp]:
  "here demo_start = 0" "\<not> conn_alive demo_start c" "open_fds demo_start = {}" "due demo_start = (\<lambda>_. [])"
  "batch demo_start = (\<lambda>_. [])" "finished demo_start = (\<lambda>_. [])" "functors (loop_at i demo_start) = []"
  "channels (poller_of (loop_at i demo_start)) = Map.empty" "epoll (poller_of (loop_at i demo_start)) = Map.empty"
  by (simp_all add: demo_start_def demo_srv_def Let_def server.defs event_loop.defs loop_at_def)

lemma demo_start_facts:
  "loops_ready id (\<lambda>_. {}) demo_start" "\<forall>c. \<not> conn_alive demo_start c"
  "\<forall>q\<in>(\<lambda>_. {} :: nat set) (here demo_start). fd (chans (poller_of demo_start) q) \<noteq> 3"
  "sock_create demo_sock (sockets demo_start) = (3, sockets demo_start)"
  "sock_bind demo_sock (SetReusePort demo_sock 3 True (SetReuseAddr demo_sock 3 True (sockets demo_start))) 3 zero_sockaddr =
    (True, sockets demo_start)"
  "sock_listen demo_sock (sockets demo_start) 3 1024 = (True, sockets demo_start)"
  by (simp_all add: loops_ready_def poller_inv_def watches_only_def watched_fds_def demo_sock_def SetReusePort_def
      SetReuseAddr_def Let_def)

lemma demo_unused: "9 \<notin> (\<lambda>_. {} :: nat set) (here demo_start)" by simp

definition demo_threads :: "nat \<Rightarrow> (int \<Rightarrow> epoll_event option, nat) thread_answers" where
  "demo_threads i = \<lparr>thread_made = True, loop_addr = Suc i, loop_refs = (0, 1), loop_fds = (10, 11, 12),
     loop_epoll = Map.empty, loop_eventfd = 0, loop_heap = (\<lambda>_. new_Channel 0), loop_clock = (\<lambda>_. ts_zero)\<rparr>"

lemma demo_threads_facts:
  "\<forall>i<nat (sint (2 :: 32 word)). own_memory id (here demo_start) (demo_threads i)"
  "thread_ok (demo_threads i)" "loop_addr (demo_threads i) = Suc i"
  "pool_own demo_threads [0..<nat (sint (2 :: 32 word))] own = own(1 := {0, 1}, 2 := {0, 1})"
  by (simp_all add: own_memory_def demo_threads_def thread_ok_def upt_rec numeral_2_eq_2)

text \<open>An eventfd is missing in the second thread.\<close>

definition demo_bad_threads :: "nat \<Rightarrow> (int \<Rightarrow> epoll_event option, nat) thread_answers" where
  "demo_bad_threads i = (if i = 1 then (demo_threads i)\<lparr>loop_fds := (10, 11, -1)\<rparr> else demo_threads i)"

lemma demo_bad_threads_facts:
  "\<forall>i<nat (sint (2 :: 32 word)). own_memory id (here demo_start) (demo_bad_threads i)"
  "\<not> thread_ok (demo_bad_threads 1)" "thread_fault (demo_bad_threads i) = Abort"
  by (simp_all add: own_memory_def demo_bad_threads_def demo_threads_def thread_ok_def thread_fault_def)


end
