(* ===== verification/Http_Life.thy ===== *)
theory Http_Life
  imports Http_Stack Server_Start
begin

text \<open>
  The HTTP server over all its threads: its message callback is gentle, so that what Server_Safety
  shows of a TCP server with gentle callbacks holds of every HTTP server, from its constructor on.
\<close>

section \<open>The message callback is gentle\<close>

lemma send_here_goes:
  assumes "epoll_laws (sys_ctl (lsys sys)) reg" and tidy: "tidy reg L w"
    and c: "conn_alive w c" "conn_loop w c = here w" and ret: "send_here sys c data w = Inr w'"
  shows "goes reg L {} w w'"
  using ret send_goes [OF assms(1) tidy c] goes_refl [OF tidy] by (auto simp: send_here_def split: if_splits)

lemma OnRequest_goes:
  assumes laws: "epoll_laws (sys_ctl (lsys sys)) reg" and tidy: "tidy reg L w"
    and c: "conn_alive w c" "conn_loop w c = here w" and ret: "OnRequest sys usr order HttpCallback c req w = Inr w'"
  shows "goes reg L {} w w'"
proof -
  from ret obtain d w1 where s: "send_here sys c d w = Inr w1"
    and w': "w' = w1 \<or> shutdown sys usr True c w1 = Inr w'"
    by (auto simp: OnRequest_def Let_def split: if_splits)
  show ?thesis
  proof (rule goes_then [OF send_here_goes [OF laws tidy c s]])
    assume t: "tidy reg L w1" and S: "same_rest w w1"
    with c have "conn_alive w1 c" using same_restD(3) [OF S] by simp
    with w' show "goes reg L {} w1 w'" using goes_refl [OF t] shutdown_goes [OF t] by blast
  qed
qed

lemma OnMessage_goes:
  assumes laws: "epoll_laws (sys_ctl (lsys sys)) reg" and tidy: "tidy reg L w"
    and c: "conn_alive w c" "conn_loop w c = here w" and ret: "OnMessage sys usr order HttpCallback c t w = Inr w'"
  shows "goes reg L {} w w'"
proof -
  from ret obtain ok b req where p: "parse t (InputBuffer (conns w c)) new_HttpRequest = Some (ok, b, req)"
    by (auto simp: OnMessage_def split: option.splits)
  define w1 where "w1 = upd_conn c (\<lambda>conn. conn\<lparr>InputBuffer := b\<rparr>) w"
  have g1: "goes reg L {} w w1" unfolding w1_def by (rule goes_upd_conn [OF tidy]) (simp_all add: conn_core_def)
  from ret p obtain w2 where answer: "w2 = w1 \<and> ok \<or>
      (\<exists>v. send_here sys c bad_request w1 = Inr v \<and> shutdown sys usr True c v = Inr w2)"
    and rest: "w' = w2 \<or> OnRequest sys usr order HttpCallback c req w2 = Inr w'"
    by (auto simp: OnMessage_def Let_def w1_def split: if_splits)
  have c1: "conn_alive w1 c" "conn_loop w1 c = here w1" using c by (simp_all add: w1_def)
  have g2: "goes reg L {} w w2"
  proof (rule goes_then [OF g1])
    assume t1: "tidy reg L w1"
    show "goes reg L {} w1 w2"
    proof (cases "w2 = w1")
      case False
      with answer obtain v where v: "send_here sys c bad_request w1 = Inr v" "shutdown sys usr True c v = Inr w2" by blast
      show ?thesis
      proof (rule goes_then [OF send_here_goes [OF laws t1 c1 v(1)]])
        assume "tidy reg L v" and S: "same_rest w1 v"
        then show "goes reg L {} v w2" using c1(1) v(2) same_restD(3) [OF S] by (intro shutdown_goes) simp_all
      qed
    qed (use goes_refl [OF t1] in simp)
  qed
  show ?thesis
  proof (rule goes_then [OF g2])
    assume t2: "tidy reg L w2" and S: "same_rest w w2"
    then have "conn_alive w2 c" "conn_loop w2 c = here w2" using c same_restD(1,3,4) [OF S] by simp_all
    with rest show "goes reg L {} w2 w'" using goes_refl [OF t2] OnRequest_goes [OF laws t2] by blast
  qed
qed

lemma http_app_gentle: "epoll_laws (sys_ctl (lsys sys)) reg \<Longrightarrow> gentle reg (http_app sys order HttpCallback)"
  by (auto simp: gentle_def http_app_def local_call_def intro: OnMessage_goes goes_refl split: user_call.splits)

section \<open>From the constructor on\<close>

lemma start_loops_callback:
  "start_loops (StartLoop sys threads) is (srv_SetMessageCallback m w) =
     bindR (start_loops (StartLoop sys threads) is w) (\<lambda>(loops, v). Inr (loops, srv_SetMessageCallback m v))"
proof (induction "is" arbitrary: w)
  case (Cons i "is")
  have "StartLoop sys threads i (srv_SetMessageCallback m w) =
      bindR (StartLoop sys threads i w) (\<lambda>(loop, v). Inr (loop, srv_SetMessageCallback m v))"
    by (simp add: StartLoop_def srv_SetMessageCallback_def Let_def bindR_def split: sum.split)
  then show ?case by (cases "StartLoop sys threads i w") (auto simp: Cons.IH bindR_assoc split_def)
qed simp

lemma start_server_callback:
  "start_server sock sys threads callback_set (srv_SetMessageCallback m w) =
     bindR (start_server sock sys threads callback_set w) (\<lambda>(inits, v). Inr (inits, srv_SetMessageCallback m v))"
proof -
  have pool: "start_pool start_loop callback_set p (srv_SetMessageCallback m u) =
      bindR (start_pool start_loop callback_set p u) (\<lambda>(inits, p, v). Inr (inits, p, srv_SetMessageCallback m v))"
    if "start_loop = StartLoop sys threads" for start_loop p u
    using that by (simp add: start_pool_def start_loops_callback Let_def bindR_def split: sum.split prod.split)
  have listen: "Acceptor_listen sock sys (srv_SetMessageCallback m u) =
      bindR (Acceptor_listen sock sys u) (\<lambda>v. Inr (srv_SetMessageCallback m v))" for u
    by (simp add: Acceptor_listen_def Socket_listen_def with_poller_def srv_SetMessageCallback_def Let_def bindR_def
        split: prod.split sum.split)
  have comm: "(srv_SetMessageCallback m u)\<lparr>srv_started := n\<rparr> = srv_SetMessageCallback m (u\<lparr>srv_started := n\<rparr>)"
    "(srv_SetMessageCallback m u)\<lparr>ThreadPool := p\<rparr> = srv_SetMessageCallback m (u\<lparr>ThreadPool := p\<rparr>)"
    "srv_started (srv_SetMessageCallback m u) = srv_started u" "ThreadPool (srv_SetMessageCallback m u) = ThreadPool u" for u n p
    by (simp_all add: srv_SetMessageCallback_def)
  show ?thesis by (simp add: start_server_def Let_def comm pool listen bindR_assoc split_def)
qed

lemma http_server_fresh:
  fixes w0 :: "('t, 'k, 'e, 's, unit) life"
  assumes laws: "epoll_laws (sys_ctl (lsys sys)) reg" and ready: "loops_ready reg own w0" "\<forall>c. \<not> conn_alive w0 c" "open_fds w0 = {}"
    and new: "r \<notin> own (here w0)" "\<forall>q\<in>own (here w0). fd (chans (poller_of w0) q) \<noteq> fst (sock_create sock (sockets w0))"
    and made: "new_HttpServer sock r addr name reuse w0 = Inr w1"
    and started: "http_start sock sys threads (http_SetThreadNum n w1) = Inr (inits, w2)"
    and mem: "\<forall>i<nat (sint n). own_memory reg (here w0) (threads i)"
  shows "fresh_server reg ((pool_own threads [0..<nat (sint n)] own)(here w0 := insert r (own (here w0)))) w2"
proof -
  obtain f s1 where c: "sock_create sock (sockets w0) = (f, s1)" by fastforce
  obtain bound s2 where b: "sock_bind sock (SetReusePort sock f reuse (SetReuseAddr sock f True s1)) f addr = (bound, s2)" by fastforce
  obtain listens s3 where l: "sock_listen sock s2 f 1024 = (listens, s3)" by fastforce
  have f: "\<forall>q\<in>own (here w0). fd (chans (poller_of w0) q) \<noteq> f" using new(2) c by simp
  from made obtain u where u: "new_TcpServer sock r addr name reuse w0 = Inr u" and w1: "w1 = srv_SetMessageCallback (Some ()) u"
    by (auto simp: new_HttpServer_def)
  have "http_SetThreadNum n w1 = srv_SetMessageCallback (Some ()) (server_SetThreadNum n u)"
    by (simp add: http_SetThreadNum_def server_SetThreadNum_def srv_SetMessageCallback_def w1)
  with started obtain v where v: "start_server sock sys threads False (server_SetThreadNum n u) = Inr (inits, v)"
    and w2: "w2 = srv_SetMessageCallback (Some ()) v"
    by (auto simp: http_start_def start_server_callback)
  from server_start_cases [OF laws ready new(1) f c b l mem, where name = name and callback_set = False] u v
  have "fresh_server reg ((pool_own threads [0..<nat (sint n)] own)(here w0 := insert r (own (here w0)))) v" by simp
  moreover have "loop_at i w2 = loop_at i v" for i by (simp add: w2 srv_SetMessageCallback_def loop_at_def event_loop.defs)
  ultimately show ?thesis by (simp add: fresh_server_def loops_ready_def) (simp add: w2 srv_SetMessageCallback_def srv_inv_def)
qed

text \<open>
  C3. An HTTP server over all its threads, from its constructor. Whatever clients connect, send and
  hang up, in every interleaving of the loops a connection exists exactly as long as the server's map
  or a queued functor refers to it, no waiting event and no waiting functor belongs to one that has
  gone, and the open descriptors are those of the existing connections, one each.
\<close>

theorem http_server_life_safe:
  fixes w0 :: "('t, 'k, 'e, 's, unit) life"
  assumes "epoll_laws (sys_ctl (lsys sys)) reg" and "gentle_timers reg tick"
    and "loops_ready reg own w0" and "\<forall>c. \<not> conn_alive w0 c" and "open_fds w0 = {}"
    and "r \<notin> own (here w0)" and "\<forall>q\<in>own (here w0). fd (chans (poller_of w0) q) \<noteq> fst (sock_create sock (sockets w0))"
    and "new_HttpServer sock r addr name reuse w0 = Inr w1"
    and "http_start sock sys threads (http_SetThreadNum n w1) = Inr (inits, w2)"
    and "\<forall>i<nat (sint n). own_memory reg (here w0) (threads i)"
    and "own' = (pool_own threads [0..<nat (sint n)] own)(here w0 := insert r (own (here w0)))"
    and "(life_step reg sock sys tick (http_app sys order HttpCallback) own')\<^sup>*\<^sup>* w2 w"
  shows "(\<forall>c. conn_alive w c \<longleftrightarrow> held c w) \<and>
    (\<forall>i. \<forall>q\<in>set (due w i). q \<in> own' i \<or> (\<exists>c. conn_alive w c \<and> conn_loop w c = i \<and> channel_of (conns w c) = q)) \<and>
    (\<forall>i. \<forall>f\<in>set (todo i w). \<forall>c. functor_conn f = Some c \<longrightarrow> conn_alive w c) \<and>
    open_fds w = (\<lambda>c. conn_fd (conns w c)) ` {c. conn_alive w c} \<and> inj_on (\<lambda>c. conn_fd (conns w c)) {c. conn_alive w c}"
proof -
  have "fresh_server reg own' w2"
    unfolding assms(11) by (rule http_server_fresh [OF assms(1,3-10)])
  from life_steps_inv [OF assms(12,1) http_app_gentle [OF assms(1)] assms(2) fresh_server_inv [OF this]]
  have inv: "life_inv reg own' {} {} w" .
  note S = life_inv_safe [OF inv]
  from S show ?thesis by (elim conjE) (intro conjI; assumption)
qed

text \<open>A server is made, started with two threads, and the base loop looks into its queue.\<close>

theorem http_server_life_safe_witness:
  "\<exists>w1 inits w2 w. new_HttpServer demo_sock 9 zero_sockaddr ''s'' True demo_start = Inr w1 \<and>
     http_start demo_sock demo_net_sys demo_threads (http_SetThreadNum 2 w1) = Inr (inits, w2) \<and>
     (life_step id demo_sock demo_net_sys (\<lambda>_. Inr) (http_app demo_net_sys demo_order DefaultHttpCallback)
        ((\<lambda>_. {})(1 := {0, 1}, 2 := {0, 1}, 0 := {9})))\<^sup>*\<^sup>* w2 w \<and> callable (loop_at 0 w) \<and> (\<forall>c. \<not> held c w)"
proof -
  let ?own = "\<lambda>_. {} :: nat set" and ?own' = "(\<lambda>_. {} :: nat set)(1 := {0, 1}, 2 := {0, 1}, 0 := {9})"
  note F = demo_start_facts(1,2) demo_start_simps(3) demo_unused demo_start_facts(3-6)
  obtain u inits v where u: "new_TcpServer demo_sock 9 zero_sockaddr ''s'' True demo_start = Inr u"
    and v: "start_server demo_sock demo_net_sys demo_threads False (server_SetThreadNum 2 u) = Inr (inits, v)"
    using server_start_cases [OF demo_epoll F demo_threads_facts(1), where name = "''s''" and callback_set = False]
      demo_threads_facts(2)
    by (cases "new_TcpServer demo_sock 9 zero_sockaddr ''s'' True demo_start")
      (auto simp: bindR_def split: sum.splits)
  define w1 where "w1 = srv_SetMessageCallback (Some ()) u"
  define w2 where "w2 = srv_SetMessageCallback (Some ()) v"
  have made: "new_HttpServer demo_sock 9 zero_sockaddr ''s'' True demo_start = Inr w1" by (simp add: new_HttpServer_def u w1_def)
  have "http_SetThreadNum 2 w1 = srv_SetMessageCallback (Some ()) (server_SetThreadNum 2 u)"
    by (simp add: http_SetThreadNum_def server_SetThreadNum_def srv_SetMessageCallback_def w1_def)
  then have started: "http_start demo_sock demo_net_sys demo_threads (http_SetThreadNum 2 w1) = Inr (inits, w2)"
    by (simp add: http_start_def start_server_callback v w2_def)
  have unused: "\<forall>q\<in>?own (here demo_start). fd (chans (poller_of demo_start) q) \<noteq> fst (sock_create demo_sock (sockets demo_start))"
    by simp
  have own: "?own' = (pool_own demo_threads [0..<nat (sint (2 :: 32 word))] ?own)(here demo_start := insert 9 (?own (here demo_start)))"
    unfolding demo_threads_facts(4) by simp
  have fresh: "fresh_server id (?own') w2"
    unfolding own by (rule http_server_fresh [OF demo_epoll F(1-4) unused made started demo_threads_facts(1)])
  let ?w = "(switch 0 w2)\<lparr>callable := True, functors := [], batch := (batch w2)(0 := functors (loop_at 0 w2))\<rparr>"
  let ?app = "http_app demo_net_sys demo_order DefaultHttpCallback ::
    unit srv_callback user_call \<Rightarrow> demo_life_state \<Rightarrow> demo_life_state res"
  have "life_step id demo_sock demo_net_sys (\<lambda>_. Inr) ?app (?own') w2 ?w"
    by (rule take) (use fresh in \<open>simp_all add: fresh_server_def loops_ready_def\<close>)
  then have steps: "(life_step id demo_sock demo_net_sys (\<lambda>_. Inr) ?app (?own'))\<^sup>*\<^sup>* w2 ?w" by blast
  have timers: "gentle_timers id (\<lambda>_. Inr :: demo_life_state \<Rightarrow> demo_life_state res)"
    by (simp add: gentle_timers_def goes_refl)
  note S = http_server_life_safe [OF demo_epoll timers F(1-4) unused made started demo_threads_facts(1) own steps]
  have "open_fds ?w = {}" using fresh by (simp add: fresh_server_def)
  moreover from S have "open_fds ?w = (\<lambda>c. conn_fd (conns ?w c)) ` {c. conn_alive ?w c}" by (elim conjE)
  ultimately have "\<not> conn_alive ?w c" for c by auto
  moreover from S have "\<forall>c. conn_alive ?w c \<longleftrightarrow> held c ?w" by (rule conjunct1)
  ultimately have "\<forall>c. \<not> held c ?w" by blast
  moreover have "callable (loop_at 0 ?w)" by (simp add: loop_at_def)
  ultimately show ?thesis using made started steps by blast
qed

end
