(* ===== verification/Signal_Channel.thy ===== *)
theory Signal_Channel
  imports Event_Loop
begin

text \<open>
  \<^verbatim>\<open>Signals\<close> (include/net/Signals.h, src/net/Signals.cpp): a descriptor on which the signals of
  a list arrive, watched by an event loop. The kernel's calls are parameters over a state
  \<open>'g\<close>. The state is that of the loop with the objects \<open>signals_of\<close> beside it.
\<close>

section \<open>State\<close>

record 'x signals =
  SignalFd :: int
  SignalChannel :: nat
  SignalCallback :: "'x option"

datatype sig_handler = SignalRead nat

record ('t, 'k, 'e, 'u, 'x, 'g) sig_loop = "('t, sig_handler, 'k, 'e, 'u) event_loop" +
  signals_of :: "nat \<Rightarrow> 'x signals"
  sig_state :: 'g

type_synonym ('t, 'k, 'e, 'u, 'x, 'g, 'z) sloop = "('t, 'k, 'e, 'u, 'x, 'g, 'z) sig_loop_scheme"

record 'g sig_sys =
  sig_add :: "int \<Rightarrow> bool"
  sig_block :: "'g \<Rightarrow> int set \<Rightarrow> bool \<times> 'g"
  sig_open :: "'g \<Rightarrow> int set \<Rightarrow> int \<times> 'g"
  sig_read :: "'g \<Rightarrow> int \<Rightarrow> nat \<times> 'g"
  sig_close :: "'g \<Rightarrow> int \<Rightarrow> 'g"

section \<open>Operations\<close>

text \<open>\<^verbatim>\<open>sigaddset\<close> fails on a number that is no signal.\<close>

definition CreatSignalfd :: "'g sig_sys \<Rightarrow> int list \<Rightarrow> 'g \<Rightarrow> (int \<times> 'g) res" where
  "CreatSignalfd ssys SignalList s =
     bindR (foldR (\<lambda>i sig. if sig_add ssys i then Inr (insert i sig) else Inl Abort) SignalList {})
       (\<lambda>sig. let (ok, s) = sig_block ssys s sig in
         if \<not> ok then Inl Abort
         else (let (f, s) = sig_open ssys s sig in if f < 0 then Inl Abort else Inr (f, s)))"

text \<open>\<open>i\<close> and \<open>r\<close> are the addresses of the object and of its channel.\<close>

definition new_Signals :: "'g sig_sys \<Rightarrow> nat \<Rightarrow> nat \<Rightarrow> int list \<Rightarrow>
    ('t, 'k, 'e, 'u, 'x, 'g, 'z) sloop \<Rightarrow> ('t, 'k, 'e, 'u, 'x, 'g, 'z) sloop res" where
  "new_Signals ssys i r SignalList w =
     bindR (CreatSignalfd ssys SignalList (sig_state w)) (\<lambda>(f, s).
       Inr (w\<lparr>sig_state := s,
              signals_of := (signals_of w)(i := \<lparr>SignalFd = f, SignalChannel = r, SignalCallback = None\<rparr>),
              poller_of := upd_chan r (\<lambda>_. new_Channel f) (poller_of w)\<rparr>))"

definition Signals_wait :: "('k, 'e) loop_sys \<Rightarrow> nat \<Rightarrow> 'x option \<Rightarrow>
    ('t, 'k, 'e, 'u, 'x, 'g, 'z) sloop \<Rightarrow> ('t, 'k, 'e, 'u, 'x, 'g, 'z) sloop res" where
  "Signals_wait sys i f w =
     (let r = SignalChannel (signals_of w i);
          w = w\<lparr>signals_of := (signals_of w)(i := (signals_of w i)\<lparr>SignalCallback := f\<rparr>)\<rparr>;
          w = w\<lparr>poller_of := upd_chan r (SetReadCallback (Handler (SignalRead i))) (poller_of w)\<rparr>
      in with_poller (EnableReading (sys_ctl sys) r) w)"

text \<open>A read of another size than \<^verbatim>\<open>signalfd_siginfo\<close>'s is only logged.\<close>

definition Signals_HandleRead :: "'g sig_sys \<Rightarrow>
    ('x \<Rightarrow> ('t, 'k, 'e, 'u, 'x, 'g, 'z) sloop \<Rightarrow> ('t, 'k, 'e, 'u, 'x, 'g, 'z) sloop res) \<Rightarrow>
    nat \<Rightarrow> ('t, 'k, 'e, 'u, 'x, 'g, 'z) sloop \<Rightarrow> ('t, 'k, 'e, 'u, 'x, 'g, 'z) sloop res" where
  "Signals_HandleRead ssys usr i w =
     (let (n, s) = sig_read ssys (sig_state w) (SignalFd (signals_of w i));
          w = w\<lparr>sig_state := s\<rparr>
      in case SignalCallback (signals_of w i) of
           None \<Rightarrow> Inl BadFunctionCall
         | Some f \<Rightarrow> usr f w)"

fun run_sig_handler :: "'g sig_sys \<Rightarrow>
    ('x \<Rightarrow> ('t, 'k, 'e, 'u, 'x, 'g, 'z) sloop \<Rightarrow> ('t, 'k, 'e, 'u, 'x, 'g, 'z) sloop res) \<Rightarrow>
    sig_handler \<Rightarrow> timestamp \<Rightarrow>
    ('t, 'k, 'e, 'u, 'x, 'g, 'z) sloop \<Rightarrow> ('t, 'k, 'e, 'u, 'x, 'g, 'z) sloop res" where
  "run_sig_handler ssys usr (SignalRead i) t w = Signals_HandleRead ssys usr i w"

definition delete_Signals :: "('k, 'e) loop_sys \<Rightarrow> 'g sig_sys \<Rightarrow> nat \<Rightarrow>
    ('t, 'k, 'e, 'u, 'x, 'g, 'z) sloop \<Rightarrow> ('t, 'k, 'e, 'u, 'x, 'g, 'z) sloop res" where
  "delete_Signals sys ssys i w =
     (let r = SignalChannel (signals_of w i) in
      bindR (with_poller (DisableAll (sys_ctl sys) r) w)
        (\<lambda>w. bindR (loop_RemoveChannel sys r w)
          (\<lambda>w. Inr (w\<lparr>sig_state := sig_close ssys (sig_state w) (SignalFd (signals_of w i))\<rparr>))))"

section \<open>A signal is delivered\<close>

text \<open>The descriptor blocks exactly the signals of the list; a bad number aborts.\<close>

lemma CreatSignalfd_set:
  "foldR (\<lambda>i sig. if sig_add ssys i then Inr (insert i sig) else Inl Abort) is S =
     (if \<forall>i\<in>set is. sig_add ssys i then Inr (S \<union> set is) else Inl Abort)"
  by (induction "is" arbitrary: S) auto

text \<open>
  C38. Waiting for signals and getting one: \<^verbatim>\<open>wait\<close> returns and leaves the descriptor in the
  kernel's interest set; from then on every readiness of the descriptor reads it once and
  calls the callback exactly once, whatever the read delivered, so also after a failed read.
\<close>

theorem signal_runs_callback:
  assumes "epoll_laws (sys_ctl sys) reg" and "poller_inv reg L (poller_of w)"
    and "r = SignalChannel (signals_of w i)" and "r \<in> L"
    and "fd (chans (poller_of w) r) = SignalFd (signals_of w i)" and "\<not> tied (chans (poller_of w) r)"
    and "\<forall>v v'. usr f v = Inr v' \<longrightarrow> revents (chans (poller_of v') r) = revents (chans (poller_of v) r)"
  shows "\<exists>w'. Signals_wait sys i (Some f) w = Inr w' \<and> poller_inv reg L (poller_of w') \<and>
     (\<exists>ev. reg (epoll (poller_of w')) (SignalFd (signals_of w i)) = Some \<lparr>ev_events = ev, ev_ptr = r\<rparr> \<and>
        ev AND POLLIN \<noteq> 0) \<and>
     (\<forall>n s. sig_read ssys (sig_state w) (SignalFd (signals_of w i)) = (n, s) \<longrightarrow>
        (let w'' = w'\<lparr>poller_of := upd_chan r (SetRevents POLLIN) (poller_of w')\<rparr>
         in handle_channel alive (run_handler sys run_timer (run_sig_handler ssys usr)) r t w'' =
              usr f (w''\<lparr>sig_state := s\<rparr>)))"
proof -
  let ?cb = "SetReadCallback (Handler (SignalRead i))"
  let ?w = "w\<lparr>signals_of := (signals_of w)(i := (signals_of w i)\<lparr>SignalCallback := Some f\<rparr>),
      poller_of := upd_chan r ?cb (poller_of w)\<rparr>"
  have p: "poller_inv reg L (poller_of ?w)"
    using poller_inv_quiet [OF assms(2), of ?cb r] by (simp add: SetReadCallback_def)
  let ?ev = "\<lambda>e. e OR (POLLIN OR POLLPRI)"
  obtain q where q: "change_events (sys_ctl sys) ?ev r (poller_of ?w) = Inr q" "poller_inv reg L q"
    "chans q = (chans (poller_of ?w))(r := changed ?ev (chans (poller_of ?w) r))"
    by (rule change_events_inv [OF assms(1) p assms(4)])
  define w1 where "w1 = ?w\<lparr>poller_of := q\<rparr>"
  have ret: "Signals_wait sys i (Some f) w = Inr w1"
    using q(1) by (simp add: Signals_wait_def with_poller_def EnableReading_def assms(3) Let_def w1_def)
  have w1: "poller_of w1 = q" "sig_state w1 = sig_state w" "SignalCallback (signals_of w1 i) = Some f"
    "SignalFd (signals_of w1 i) = SignalFd (signals_of w i)"
    by (simp_all add: w1_def)
  have ch: "chans q r = changed ?ev (?cb (chans (poller_of w) r))"
    using q(3) by (simp add: upd_chan_def)
  have st: "ch_state (chans q r) = ADD" "fd (chans q r) = SignalFd (signals_of w i)"
    "events (chans q r) = ?ev (events (chans (poller_of w) r))" "\<not> tied (chans q r)"
    "ReadCallback (chans q r) = Some (Handler (SignalRead i))"
    using assms(5,6) by (simp_all add: ch changed_def SetReadCallback_def bit_facts)
  have "?ev e AND POLLIN = POLLIN" for e :: "32 word"
    by (rule bit_word_eqI) (auto simp: bit_simps)
  moreover have "POLLIN \<noteq> 0" by (simp add: poll_bits)
  ultimately have bits: "?ev e AND POLLIN \<noteq> 0" for e :: "32 word" by simp
  have reg: "reg (epoll q) (SignalFd (signals_of w i)) = Some \<lparr>ev_events = events (chans q r), ev_ptr = r\<rparr>"
    using poller_invD(2) [OF q(2) assms(4)] st(1,2) by simp
  define w2 where "w2 = w1\<lparr>poller_of := upd_chan r (SetRevents POLLIN) (poller_of w1)\<rparr>"
  have w2: "chans (poller_of w2) r = SetRevents POLLIN (chans q r)" "sig_state w2 = sig_state w"
    "SignalCallback (signals_of w2 i) = Some f" "SignalFd (signals_of w2 i) = SignalFd (signals_of w i)"
    by (simp_all add: w2_def w1 upd_chan_def)
  have read: "Signals_HandleRead ssys usr i w2 = usr f (w2\<lparr>sig_state := s\<rparr>)"
    if "sig_read ssys (sig_state w) (SignalFd (signals_of w i)) = (n, s)" for n s
    using that by (simp add: Signals_HandleRead_def w2)
  have quiet: "bindR (usr f (w2\<lparr>sig_state := s\<rparr>)) (\<lambda>v. fire (revents (chans (poller_of v) r) AND POLLOUT \<noteq> 0)
      (WriteCallback (chans (poller_of v) r)) run v) = usr f (w2\<lparr>sig_state := s\<rparr>)" for s run
  proof (cases "usr f (w2\<lparr>sig_state := s\<rparr>)")
    case (Inr v)
    with assms(7) have "revents (chans (poller_of v) r) = revents (chans (poller_of w2) r)" by fastforce
    then show ?thesis by (simp add: Inr fire_def w2 SetRevents_def poll_bits)
  qed simp
  have "handle_channel alive (run_handler sys run_timer (run_sig_handler ssys usr)) r t w2 =
      usr f (w2\<lparr>sig_state := s\<rparr>)"
    if "sig_read ssys (sig_state w) (SignalFd (signals_of w i)) = (n, s)" for n s
    using st(4,5) quiet read [OF that] unfolding handle_channel_def HandleEvent_def HandleEventWithGuard_def
    by (simp add: w2 fire_def SetRevents_def poll_bits)
  with ret q(2) reg bits [of "events (chans (poller_of w) r)"] show ?thesis
    unfolding w2_def st(3) by (intro exI [of _ w1]) (simp add: w1 Let_def)
qed

text \<open>A loop with one object, on channel 1 and descriptor 5; the read counts.\<close>

definition demo_sig_sys :: "nat sig_sys" where
  "demo_sig_sys = \<lparr>sig_add = (\<lambda>i. 0 < i \<and> i \<le> 64), sig_block = (\<lambda>s _. (True, s)),
     sig_open = (\<lambda>s _. (5, s)), sig_read = (\<lambda>s _. (128, Suc s)), sig_close = (\<lambda>s _. s)\<rparr>"

definition demo_sig_loop :: "(unit, int \<Rightarrow> epoll_event option, nat, unit, unit, nat) sig_loop" where
  "demo_sig_loop = \<lparr>timers = [], CallingExpiredTimers = False, CancelTimers = {}, timerfd_value = None,
     isLooping = True, quit_flag = False, callable = False, PollreturnTime = ts_zero,
     poller_of = \<lparr>chans = (\<lambda>r. new_Channel 5), channels = Map.empty, epoll = (\<lambda>_. None),
       events_size = InitEventListSize\<rparr>,
     wakeupFd = 0, WakeupChannel = 0, ActiveChannels = [], functors = [], TotalNum = 0,
     clock = (\<lambda>n. Timestamp (of_nat n)),
     signals_of = (\<lambda>_. \<lparr>SignalFd = 5, SignalChannel = 1, SignalCallback = None\<rparr>), sig_state = 0\<rparr>"

lemma demo_sig_loop_facts:
  "poller_inv id {1} (poller_of demo_sig_loop)" "SignalChannel (signals_of demo_sig_loop i) = 1"
  "SignalFd (signals_of demo_sig_loop i) = 5" "fd (chans (poller_of demo_sig_loop) r) = 5"
  "\<not> tied (chans (poller_of demo_sig_loop) r)" "sig_state demo_sig_loop = 0"
  by (simp_all add: demo_sig_loop_def poller_inv_def new_Channel_def)

theorem signal_runs_callback_witness:
  "\<exists>w' w''. Signals_wait quiet_sys 0 (Some ()) demo_sig_loop = Inr w' \<and>
     epoll (poller_of w') 5 \<noteq> None \<and>
     handle_channel (\<lambda>_ _. True) (run_handler quiet_sys (\<lambda>_. Inr) (run_sig_handler demo_sig_sys (\<lambda>_. Inr)))
       1 ts_zero (w'\<lparr>poller_of := upd_chan 1 (SetRevents POLLIN) (poller_of w')\<rparr>) = Inr w'' \<and>
     sig_state w'' = 1"
proof -
  have epoll: "epoll_laws (sys_ctl quiet_sys) id"
    by (simp add: quiet_sys_def epoll_laws_map)
  from signal_runs_callback [OF epoll demo_sig_loop_facts(1), where i = 0 and r = 1 and f = "()" and
      usr = "\<lambda>_. Inr" and alive = "\<lambda>_ _. True" and run_timer = "\<lambda>_. Inr" and ssys = demo_sig_sys and t = ts_zero]
  show ?thesis by (auto simp: demo_sig_loop_facts Let_def demo_sig_sys_def)
qed

end
