(* ===== verification/Log_Stream.thy ===== *)
theory Log_Stream
  imports Timestamps
begin

text \<open>
  \<^verbatim>\<open>FixedBuffer\<close> and \<^verbatim>\<open>LogStream\<close> of include/base/LogStream.h and
  src/base/LogStream.cpp. A fixed buffer is the array of \<^verbatim>\<open>SIZE\<close> bytes with the write
  position; \<^verbatim>\<open>buffer_\<close> is the only member of a \<^verbatim>\<open>LogStream\<close>, so a stream is its
  buffer. The text \<^verbatim>\<open>snprintf\<close> makes of a double (\<^verbatim>\<open>"%.12g"\<close>) is a parameter.
\<close>

section \<open>The fixed buffer\<close>

record fixed_buffer =
  fb_data :: "char list"
  cur :: nat

definition kSmallBuffer :: nat where "kSmallBuffer = 4096"

definition kLargeBuffer :: nat where "kLargeBuffer = 4096 * 1024"

definition kMaxNumericSize :: nat where "kMaxNumericSize = 32"

text \<open>The constructor leaves the array as it is in memory.\<close>

definition new_FixedBuffer :: "char list \<Rightarrow> fixed_buffer" where
  "new_FixedBuffer memory = \<lparr>fb_data = memory, cur = 0\<rparr>"

definition FreeSize :: "fixed_buffer \<Rightarrow> nat" where
  "FreeSize b = sz_sub (length (fb_data b)) (cur b)"

text \<open>\<open>msg\<close> is the memory behind the pointer; more than it holds cannot be read.\<close>

definition fb_append :: "char list \<Rightarrow> nat \<Rightarrow> fixed_buffer \<Rightarrow> fixed_buffer res" where
  "fb_append msg len b =
     (if len < FreeSize b then
        (if len \<le> length msg
         then bindR (copy_at (take len msg) (cur b) (fb_data b))
                (\<lambda>d. Inr (b\<lparr>fb_data := d, cur := cur b + len\<rparr>))
         else Inl OutOfBounds)
      else Inr b)"

definition fb_add :: "nat \<Rightarrow> fixed_buffer \<Rightarrow> fixed_buffer" where
  "fb_add len b = b\<lparr>cur := cur b + len\<rparr>"

definition fb_reset :: "fixed_buffer \<Rightarrow> fixed_buffer" where
  "fb_reset b = b\<lparr>cur := 0\<rparr>"

definition fb_bzero :: "fixed_buffer \<Rightarrow> fixed_buffer" where
  "fb_bzero b = b\<lparr>fb_data := replicate (length (fb_data b)) (CHR 0x00)\<rparr>"

definition fb_length :: "fixed_buffer \<Rightarrow> nat" where
  "fb_length b = cur b"

definition fb_toString :: "fixed_buffer \<Rightarrow> string" where
  "fb_toString b = take (fb_length b) (fb_data b)"

section \<open>Printing an integer\<close>

definition digits :: "char list" where
  "digits = ''0123456789'' @ [CHR 0x00]"

text \<open>
  The \<^verbatim>\<open>do ... while\<close> of \<^verbatim>\<open>convert\<close>: \<^verbatim>\<open>%\<close> and \<^verbatim>\<open>/\<close> of C++ round towards
  zero, so the remainder of a negative number is not positive.
\<close>

lemma sdiv_smaller: "i sdiv 10 \<noteq> 0 \<Longrightarrow> i \<noteq> 0 \<and> \<bar>i sdiv 10\<bar> < \<bar>i :: int\<bar>"
  by (simp add: signed_divide_int_def abs_mult sgn_if split: if_splits)

function convert_loop :: "int \<Rightarrow> nat \<Rightarrow> char list \<Rightarrow> (nat \<times> char list) res" where
  "convert_loop i p data =
     (let t = i smod 10; i' = i sdiv 10 in
      if t < 0 \<or> int (length digits) \<le> t then Inl OutOfBounds
      else bindR (copy_at [digits ! nat t] p data)
             (\<lambda>data. if i' \<noteq> 0 then convert_loop i' (Suc p) data else Inr (Suc p, data)))"
  by pat_completeness auto
termination
  by (relation "measure (\<lambda>(i, p, data). nat \<bar>i\<bar>)") (simp_all add: sdiv_smaller)

declare convert_loop.simps [simp del]

definition convert :: "int \<Rightarrow> nat \<Rightarrow> char list \<Rightarrow> (nat \<times> char list) res" where
  "convert v buf data =
     bindR (convert_loop v buf data) (\<lambda>(p, data).
       bindR (if v < 0 then bindR (copy_at [CHR ''-''] p data) (\<lambda>data. Inr (Suc p, data))
              else Inr (p, data)) (\<lambda>(p, data).
         bindR (copy_at [CHR 0x00] p data) (\<lambda>data.
           Inr (p - buf, take buf data @ rev (slice data buf p) @ drop p data))))"

definition FormatInteger :: "int \<Rightarrow> fixed_buffer \<Rightarrow> fixed_buffer res" where
  "FormatInteger v b =
     (if kMaxNumericSize < FreeSize b
      then bindR (convert v (cur b) (fb_data b)) (\<lambda>(len, d). Inr (fb_add len (b\<lparr>fb_data := d\<rparr>)))
      else Inr b)"

section \<open>The operators\<close>

definition put_bool :: "bool \<Rightarrow> fixed_buffer \<Rightarrow> fixed_buffer res" where
  "put_bool v b = (if v then fb_append ''true'' 4 b else fb_append ''false'' 5 b)"

definition put_uint :: "32 word \<Rightarrow> fixed_buffer \<Rightarrow> fixed_buffer res" where
  "put_uint v = FormatInteger (uint v)"

definition put_ulong :: "64 word \<Rightarrow> fixed_buffer \<Rightarrow> fixed_buffer res" where
  "put_ulong v = FormatInteger (uint v)"

definition put_ulonglong :: "64 word \<Rightarrow> fixed_buffer \<Rightarrow> fixed_buffer res" where
  "put_ulonglong v = FormatInteger (uint v)"

definition put_int :: "32 word \<Rightarrow> fixed_buffer \<Rightarrow> fixed_buffer res" where
  "put_int v = FormatInteger (sint v)"

definition put_long :: "64 word \<Rightarrow> fixed_buffer \<Rightarrow> fixed_buffer res" where
  "put_long v = FormatInteger (sint v)"

definition put_longlong :: "64 word \<Rightarrow> fixed_buffer \<Rightarrow> fixed_buffer res" where
  "put_longlong v = FormatInteger (sint v)"

definition put_ushort :: "16 word \<Rightarrow> fixed_buffer \<Rightarrow> fixed_buffer res" where
  "put_ushort v = put_uint (ucast v)"

definition put_short :: "16 word \<Rightarrow> fixed_buffer \<Rightarrow> fixed_buffer res" where
  "put_short v = put_int (scast v)"

text \<open>
  \<^verbatim>\<open>snprintf\<close> writes what fits into the 32 bytes with a NUL behind it, and answers with the
  length of the whole text.
\<close>

definition put_double :: "('d \<Rightarrow> string) \<Rightarrow> 'd \<Rightarrow> fixed_buffer \<Rightarrow> fixed_buffer res" where
  "put_double fmt v b =
     (if kMaxNumericSize \<le> FreeSize b
      then bindR (copy_at (snprintf_buf kMaxNumericSize (fmt v) @ [CHR 0x00]) (cur b) (fb_data b))
             (\<lambda>d. Inr (fb_add (length (fmt v)) (b\<lparr>fb_data := d\<rparr>)))
      else Inr b)"

definition put_char :: "char \<Rightarrow> fixed_buffer \<Rightarrow> fixed_buffer res" where
  "put_char v = fb_append [v] 1"

text \<open>A C string is the bytes before its NUL; \<^verbatim>\<open>strlen\<close> is their number.\<close>

definition put_cstring :: "string option \<Rightarrow> fixed_buffer \<Rightarrow> fixed_buffer res" where
  "put_cstring v b = (case v of Some s \<Rightarrow> fb_append s (length s) b
                              | None \<Rightarrow> fb_append ''(null)'' 6 b)"

definition put_string :: "string \<Rightarrow> fixed_buffer \<Rightarrow> fixed_buffer res" where
  "put_string v = fb_append v (length v)"

definition put_buffer :: "fixed_buffer \<Rightarrow> fixed_buffer \<Rightarrow> fixed_buffer res" where
  "put_buffer v = put_string (fb_toString v)"

text \<open>\<^verbatim>\<open>LogStream::append(const char*, int)\<close> converts its \<^verbatim>\<open>int\<close> to \<^verbatim>\<open>size_t\<close>.\<close>

definition size_of_int :: "32 word \<Rightarrow> nat" where
  "size_of_int len = unat (scast len :: 64 word)"

definition stream_append :: "char list \<Rightarrow> 32 word \<Rightarrow> fixed_buffer \<Rightarrow> fixed_buffer res" where
  "stream_append msg len = fb_append msg (size_of_int len)"

text \<open>The overloads of \<^verbatim>\<open><<\<close> as one operation; a float is widened to a double.\<close>

datatype 'd item =
    BoolItem bool | UShortItem "16 word" | UIntItem "32 word" | ULongItem "64 word"
  | ULongLongItem "64 word" | ShortItem "16 word" | IntItem "32 word" | LongItem "64 word"
  | LongLongItem "64 word" | DoubleItem 'd | CharItem char | CStringItem "string option"
  | StringItem string | BufferItem fixed_buffer

fun put_item :: "('d \<Rightarrow> string) \<Rightarrow> 'd item \<Rightarrow> fixed_buffer \<Rightarrow> fixed_buffer res" where
  "put_item fmt (BoolItem v) = put_bool v"
| "put_item fmt (UShortItem v) = put_ushort v"
| "put_item fmt (UIntItem v) = put_uint v"
| "put_item fmt (ULongItem v) = put_ulong v"
| "put_item fmt (ULongLongItem v) = put_ulonglong v"
| "put_item fmt (ShortItem v) = put_short v"
| "put_item fmt (IntItem v) = put_int v"
| "put_item fmt (LongItem v) = put_long v"
| "put_item fmt (LongLongItem v) = put_longlong v"
| "put_item fmt (DoubleItem v) = put_double fmt v"
| "put_item fmt (CharItem v) = put_char v"
| "put_item fmt (CStringItem v) = put_cstring v"
| "put_item fmt (StringItem v) = put_string v"
| "put_item fmt (BufferItem v) = put_buffer v"

section \<open>What convert writes\<close>

lemma length_digits: "length digits = 11"
  by (simp add: digits_def)

lemma digits_nth: "k < 10 \<Longrightarrow> digits ! k = digit_char k"
proof -
  assume "k < 10"
  then have "k \<in> {0, 1, 2, 3, 4, 5, 6, 7, 8, 9}" by auto
  then have "digit_char k = digits ! k" by (auto simp: digits_def digit_char_def char_of_eq_iff)
  then show ?thesis by simp
qed

lemma int_sdiv_smod: "int n sdiv 10 = int (n div 10)" "int n smod 10 = int (n mod 10)"
  by (simp_all add: signed_divide_int_def signed_modulo_int_def zdiv_int zmod_int sgn_if)

lemma convert_loop_step:
  "convert_loop (int n) p data =
     bindR (copy_at [digit_char (n mod 10)] p data)
       (\<lambda>data. if n div 10 \<noteq> 0 then convert_loop (int (n div 10)) (Suc p) data
               else Inr (Suc p, data))"
proof -
  have "\<not> 11 \<le> int (n mod 10)" by simp
  then show ?thesis
    by (subst convert_loop.simps)
      (simp add: int_sdiv_smod digits_nth length_digits Let_def del: of_nat_mod of_nat_div)
qed

lemma convert_loop_digits:
  assumes "p + length (dec_nat n) \<le> length data"
  shows "convert_loop (int n) p data =
    Inr (p + length (dec_nat n), take p data @ rev (dec_nat n) @ drop (p + length (dec_nat n)) data)"
  using assms
proof (induction n arbitrary: p data rule: dec_nat.induct)
  case (1 n)
  let ?d = "take p data @ [digit_char (n mod 10)] @ drop (Suc p) data"
  have len: "0 < length (dec_nat n)" by simp
  have room: "p < length data" using "1.prems" len by linarith
  have "copy_at [digit_char (n mod 10)] p data = Inr ?d" using room by (simp add: copy_at_def)
  then have step: "convert_loop (int n) p data =
      (if n div 10 \<noteq> 0 then convert_loop (int (n div 10)) (Suc p) ?d else Inr (Suc p, ?d))"
    by (subst convert_loop_step) simp
  show ?case
  proof (cases "n < 10")
    case True
    then show ?thesis using step by (simp add: dec_nat_small)
  next
    case False
    let ?l = "length (dec_nat (n div 10))"
    have l: "length (dec_nat n) = Suc ?l" using False by (simp add: dec_nat_big)
    have "convert_loop (int (n div 10)) (Suc p) ?d =
        Inr (Suc p + ?l, take (Suc p) ?d @ rev (dec_nat (n div 10)) @ drop (Suc p + ?l) ?d)"
      using "1.prems" l room by (intro "1.IH" [OF False]) simp
    moreover have "take (Suc p) ?d = take p data @ [digit_char (n mod 10)]" using room by simp
    moreover have "drop (Suc p + ?l) ?d = drop (Suc p + ?l) data" using room by (simp add: ac_simps)
    ultimately have rec: "convert_loop (int (n div 10)) (Suc p) ?d =
        Inr (Suc p + ?l, take p data @ [digit_char (n mod 10)] @ rev (dec_nat (n div 10)) @
          drop (Suc p + ?l) data)" by simp
    have "n div 10 \<noteq> 0" using False by simp
    then have "convert_loop (int n) p data = convert_loop (int (n div 10)) (Suc p) ?d"
      using step by (simp only: if_True not_False_eq_True)
    also have "\<dots> = Inr (Suc p + ?l, take p data @ [digit_char (n mod 10)] @ rev (dec_nat (n div 10)) @
          drop (Suc p + ?l) data)" by (rule rec)
    finally show ?thesis using False by (simp add: dec_nat_big)
  qed
qed

lemma convert_loop_negative: "i < 0 \<Longrightarrow> convert_loop i p data = Inl OutOfBounds"
proof (induction i p data rule: convert_loop.induct)
  case (1 i p data)
  have sm: "i smod 10 = - ((- i) mod 10)" "i sdiv 10 = - ((- i) div 10)"
    using "1.prems" by (simp_all add: signed_divide_int_def signed_modulo_int_def)
  show ?case
  proof (cases "i smod 10 < 0")
    case True
    then show ?thesis by (subst convert_loop.simps) simp
  next
    case False
    with sm(1) have t: "i smod 10 = 0" by (simp add: order_antisym)
    then have "(- i) mod 10 = 0" using sm(1) by simp
    then have neg: "i sdiv 10 < 0" using "1.prems" sm(2) by presburger
    have "\<not> (i smod 10 < 0 \<or> int (length digits) \<le> i smod 10)" using t by (simp add: digits_def)
    from "1.IH" [OF refl refl this] neg t
    have rest: "copy_at [digits ! 0] p data = Inr d \<Longrightarrow> convert_loop (i sdiv 10) (Suc p) d = Inl OutOfBounds" for d
      by simp
    show ?thesis
      using t neg rest
      by (subst convert_loop.simps) (simp add: length_digits Let_def copy_at_def)
  qed
qed

lemma convert_digits:
  assumes "buf + length (dec_nat n) < length data"
  shows "convert (int n) buf data = Inr (length (dec_nat n),
    take buf data @ dec_nat n @ [CHR 0x00] @ drop (Suc (buf + length (dec_nat n))) data)"
proof -
  let ?l = "length (dec_nat n)"
  let ?d = "take buf data @ rev (dec_nat n) @ drop (buf + ?l) data"
  have loop: "convert_loop (int n) buf data = Inr (buf + ?l, ?d)"
    using assms by (intro convert_loop_digits) simp
  have tk: "take (buf + ?l) ?d = take buf data @ rev (dec_nat n)" using assms by simp
  let ?e = "take buf data @ rev (dec_nat n) @ [CHR 0x00] @ drop (Suc (buf + ?l)) data"
  have nul: "copy_at [CHR 0x00] (buf + ?l) ?d = Inr ?e"
    using assms tk by (simp add: copy_at_def)
  have "slice ?e buf (buf + ?l) = rev (dec_nat n)"
    using assms slice_middle [of "take buf data" "rev (dec_nat n)"] by simp
  moreover have "drop (buf + ?l) ?e = [CHR 0x00] @ drop (Suc (buf + ?l)) data" using assms by simp
  moreover have "take buf ?e = take buf data" using assms by simp
  ultimately show ?thesis by (simp add: convert_def loop nul)
qed

lemma convert_negative: "v < 0 \<Longrightarrow> convert v buf data = Inl OutOfBounds"
  by (simp add: convert_def convert_loop_negative)

section \<open>One item\<close>

text \<open>
  The position stays strictly inside the array: an append needs more room than it fills, and an
  integer never needs all of the 32 bytes it asks for.
\<close>

definition fb_inv :: "fixed_buffer \<Rightarrow> bool" where
  "fb_inv b \<longleftrightarrow> cur b < length (fb_data b) \<and> length (fb_data b) \<le> max_size"

lemma FreeSize_eq: "fb_inv b \<Longrightarrow> FreeSize b = length (fb_data b) - cur b"
  using max_size_below by (simp add: fb_inv_def FreeSize_def size_arith)

lemma new_FixedBuffer_inv: "0 < length m \<Longrightarrow> length m \<le> max_size \<Longrightarrow> fb_inv (new_FixedBuffer m)"
  by (simp add: fb_inv_def new_FixedBuffer_def)

lemma fb_simps [simp]:
  "fb_toString (new_FixedBuffer m) = []" "fb_toString (fb_reset b) = []"
  "fb_inv b \<Longrightarrow> fb_inv (fb_reset b)" "length (fb_data (fb_reset b)) = length (fb_data b)"
  "fb_inv b \<Longrightarrow> fb_inv (fb_bzero b)" "length (fb_data (fb_bzero b)) = length (fb_data b)"
  "fb_inv b \<Longrightarrow> length (fb_toString b) = cur b"
  by (auto simp: fb_toString_def fb_length_def new_FixedBuffer_def fb_reset_def fb_bzero_def fb_inv_def)

text \<open>The outcome of a successful \<^verbatim>\<open><<\<close>: the text stands behind the old content.\<close>

definition gained :: "string \<Rightarrow> fixed_buffer \<Rightarrow> fixed_buffer \<Rightarrow> bool" where
  "gained txt b b' \<longleftrightarrow> fb_inv b' \<and> fb_toString b' = fb_toString b @ txt \<and>
     cur b' = cur b + length txt \<and> length (fb_data b') = length (fb_data b)"

lemma fb_append_cases:
  assumes "fb_inv b" and "len \<le> length msg"
  shows "if len < FreeSize b then \<exists>b'. fb_append msg len b = Inr b' \<and> gained (take len msg) b b'
         else fb_append msg len b = Inr b"
proof (cases "len < FreeSize b")
  case True
  then have room: "cur b + len < length (fb_data b)" using assms(1) by (simp add: FreeSize_eq)
  let ?d = "take (cur b) (fb_data b) @ take len msg @ drop (cur b + len) (fb_data b)"
  have "copy_at (take len msg) (cur b) (fb_data b) = Inr ?d"
    using room assms(2) by (simp add: copy_at_def min_def)
  moreover have "gained (take len msg) b (b\<lparr>fb_data := ?d, cur := cur b + len\<rparr>)"
    using room assms by (simp add: gained_def fb_inv_def fb_toString_def fb_length_def min_def)
  ultimately show ?thesis using True assms(2) by (simp add: fb_append_def)
qed (simp add: fb_append_def)

lemma fb_append_all:
  assumes "fb_inv b"
  shows "if length msg < FreeSize b then \<exists>b'. fb_append msg (length msg) b = Inr b' \<and> gained msg b b'
         else fb_append msg (length msg) b = Inr b"
  using fb_append_cases [OF assms, of "length msg" msg] by (simp split: if_splits)

lemma FormatInteger_eq:
  assumes inv: "fb_inv b" and v: "v < 2 ^ 64"
  shows "FormatInteger v b =
    (if FreeSize b \<le> kMaxNumericSize then Inr b
     else if v < 0 then Inl OutOfBounds
     else let s = dec_int v; end_pos = cur b + length s in
       Inr (b\<lparr>fb_data := take (cur b) (fb_data b) @ s @ [CHR 0x00] @ drop (Suc end_pos) (fb_data b),
              cur := end_pos\<rparr>))"
    and "0 \<le> v \<Longrightarrow> length (dec_int v) \<le> 20"
proof -
  have len: "length (dec_int v) \<le> 20" if "0 \<le> v"
  proof -
    have "nat v < 10 ^ 20" using v by simp
    then have "length (dec_nat (nat v)) \<le> 20" by (rule dec_nat_length) simp
    then show ?thesis using that by (simp add: dec_int_def)
  qed
  then show "0 \<le> v \<Longrightarrow> length (dec_int v) \<le> 20" .
  show "FormatInteger v b =
    (if FreeSize b \<le> kMaxNumericSize then Inr b
     else if v < 0 then Inl OutOfBounds
     else let s = dec_int v; end_pos = cur b + length s in
       Inr (b\<lparr>fb_data := take (cur b) (fb_data b) @ s @ [CHR 0x00] @ drop (Suc end_pos) (fb_data b),
              cur := end_pos\<rparr>))"
  proof (cases "kMaxNumericSize < FreeSize b \<and> 0 \<le> v")
    case False
    then show ?thesis by (auto simp: FormatInteger_def convert_negative)
  next
    case True
    then have "cur b + length (dec_int v) < length (fb_data b)"
      using inv len by (auto simp: FreeSize_eq kMaxNumericSize_def)
    then show ?thesis
      using True convert_digits [of "cur b" "nat v" "fb_data b"]
      by (simp add: FormatInteger_def dec_int_def fb_add_def Let_def)
  qed
qed

lemma FormatInteger_cases:
  assumes inv: "fb_inv b" and v: "v < 2 ^ 64"
  shows "if FreeSize b \<le> kMaxNumericSize then FormatInteger v b = Inr b
         else if v < 0 then FormatInteger v b = Inl OutOfBounds
         else \<exists>b'. FormatInteger v b = Inr b' \<and> gained (dec_int v) b b'"
proof (cases "kMaxNumericSize < FreeSize b \<and> 0 \<le> v")
  case False
  then show ?thesis by (auto simp: FormatInteger_eq [OF assms])
next
  case True
  then have len: "length (dec_int v) \<le> 20" using FormatInteger_eq(2) [OF assms] by blast
  moreover have "cur b + 32 < length (fb_data b)"
    using True inv by (auto simp: FreeSize_eq kMaxNumericSize_def)
  ultimately have "gained (dec_int v) b (b\<lparr>fb_data := take (cur b) (fb_data b) @ dec_int v @
      [CHR 0x00] @ drop (Suc (cur b + length (dec_int v))) (fb_data b), cur := cur b + length (dec_int v)\<rparr>)"
    using inv by (simp add: gained_def fb_inv_def fb_toString_def fb_length_def) linarith
  with True show ?thesis by (auto simp: FormatInteger_eq(1) [OF assms] Let_def)
qed

text \<open>What an item prints, and whether there is the room its operator asks for.\<close>

fun item_number :: "'d item \<Rightarrow> int option" where
  "item_number (UShortItem v) = Some (uint v)"
| "item_number (UIntItem v) = Some (uint v)"
| "item_number (ULongItem v) = Some (uint v)"
| "item_number (ULongLongItem v) = Some (uint v)"
| "item_number (ShortItem v) = Some (sint v)"
| "item_number (IntItem v) = Some (sint v)"
| "item_number (LongItem v) = Some (sint v)"
| "item_number (LongLongItem v) = Some (sint v)"
| "item_number _ = None"

fun item_text :: "('d \<Rightarrow> string) \<Rightarrow> 'd item \<Rightarrow> string" where
  "item_text fmt (BoolItem v) = (if v then ''true'' else ''false'')"
| "item_text fmt (DoubleItem v) = fmt v"
| "item_text fmt (CharItem v) = [v]"
| "item_text fmt (CStringItem v) = (case v of Some s \<Rightarrow> s | None \<Rightarrow> ''(null)'')"
| "item_text fmt (StringItem v) = v"
| "item_text fmt (BufferItem v) = fb_toString v"
| "item_text fmt it = (case item_number it of Some v \<Rightarrow> dec_int v | None \<Rightarrow> [])"

definition item_fits :: "('d \<Rightarrow> string) \<Rightarrow> 'd item \<Rightarrow> nat \<Rightarrow> bool" where
  "item_fits fmt it room \<longleftrightarrow> (case item_number it of
      Some v \<Rightarrow> 32 < room
    | None \<Rightarrow> (case it of DoubleItem v \<Rightarrow> 32 \<le> room | _ \<Rightarrow> length (item_text fmt it) < room))"

definition item_faults :: "'d item \<Rightarrow> bool" where
  "item_faults it \<longleftrightarrow> (case item_number it of Some v \<Rightarrow> v < 0 | None \<Rightarrow> False)"

definition item_law :: "('d \<Rightarrow> string) \<Rightarrow> 'd item \<Rightarrow> fixed_buffer \<Rightarrow> bool" where
  "item_law fmt it b \<longleftrightarrow>
     (if \<not> item_fits fmt it (FreeSize b) then put_item fmt it b = Inr b
      else if item_faults it then put_item fmt it b = Inl OutOfBounds
      else \<exists>b'. put_item fmt it b = Inr b' \<and> gained (item_text fmt it) b b')"

lemma item_law_number:
  assumes "put_item fmt it b = FormatInteger v b" and "item_number it = Some v"
    and "item_text fmt it = dec_int v" and "v < 2 ^ 64" and "fb_inv b"
  shows "item_law fmt it b"
  using FormatInteger_cases [OF assms(5,4)] assms(1-3)
  by (auto simp: item_law_def item_fits_def item_faults_def kMaxNumericSize_def split: if_splits)

lemma item_law_append:
  assumes "put_item fmt it b = fb_append (item_text fmt it) (length (item_text fmt it)) b"
    and "item_number it = None" and "\<And>v. it \<noteq> DoubleItem v" and "fb_inv b"
  shows "item_law fmt it b"
proof -
  have "item_fits fmt it (FreeSize b) \<longleftrightarrow> length (item_text fmt it) < FreeSize b"
    using assms(2) by (cases it) (simp_all add: item_fits_def assms(3))
  with fb_append_all [OF assms(4), of "item_text fmt it"] assms(1,2) show ?thesis
    by (auto simp: item_law_def item_faults_def split: if_splits)
qed

lemma item_law_double:
  assumes "fb_inv b" and len: "length (fmt v) < 32"
  shows "item_law fmt (DoubleItem v) b"
proof (cases "32 \<le> FreeSize b")
  case True
  let ?t = "fmt v @ [CHR 0x00]"
  let ?d = "take (cur b) (fb_data b) @ ?t @ drop (cur b + length ?t) (fb_data b)"
  have room: "cur b + 32 \<le> length (fb_data b)" using True assms(1) by (auto simp: FreeSize_eq)
  have "copy_at ?t (cur b) (fb_data b) = Inr ?d" using room len by (simp add: copy_at_def)
  moreover have "gained (fmt v) b (fb_add (length (fmt v)) (b\<lparr>fb_data := ?d\<rparr>))"
    using room len assms(1)
    by (simp add: gained_def fb_add_def fb_inv_def fb_toString_def fb_length_def) linarith
  ultimately show ?thesis
    using True len
    by (simp add: item_law_def item_fits_def item_faults_def put_double_def kMaxNumericSize_def
        snprintf_buf_fits)
qed (simp add: item_law_def item_fits_def put_double_def kMaxNumericSize_def)

lemma put_bool_append: "put_bool v b = (let s = if v then ''true'' else ''false'' in fb_append s (length s) b)"
  by (simp add: put_bool_def eval_nat_numeral)

lemma put_cstring_append:
  "put_cstring v b = (let s = case v of Some s \<Rightarrow> s | None \<Rightarrow> ''(null)'' in fb_append s (length s) b)"
  by (simp add: put_cstring_def eval_nat_numeral split: option.split)

lemmas append_operators =
  put_bool_append put_cstring_append put_char_def put_string_def put_buffer_def Let_def

lemma put_item_law:
  assumes inv: "fb_inv b" and fmt: "\<And>v. length (fmt v) < 32"
  shows "item_law fmt it b"
proof (cases it)
  case (DoubleItem v)
  with item_law_double [OF inv, of fmt v] fmt show ?thesis by simp
next
  case (UShortItem v)
  have "uint v < 2 ^ 16" using uint_bounded [of v] by simp
  then have "uint v < 2 ^ 64" using uint_bounded [of v] by simp
  then show ?thesis
    by (intro item_law_number [OF _ _ _ _ inv])
      (simp_all add: UShortItem put_ushort_def put_uint_def uint_up_ucast is_up)
next
  case (UIntItem v)
  have "uint v < 2 ^ 32" using uint_bounded [of v] by simp
  then have "uint v < 2 ^ 64" using uint_bounded [of v] by simp
  then show ?thesis
    by (intro item_law_number [OF _ _ _ _ inv]) (simp_all add: UIntItem put_uint_def)
next
  case (ULongItem v)
  have "uint v < 2 ^ 64" using uint_bounded [of v] by simp
  then show ?thesis by (intro item_law_number [OF _ _ _ _ inv]) (simp_all add: ULongItem put_ulong_def)
next
  case (ULongLongItem v)
  have "uint v < 2 ^ 64" using uint_bounded [of v] by simp
  then show ?thesis
    by (intro item_law_number [OF _ _ _ _ inv]) (simp_all add: ULongLongItem put_ulonglong_def)
next
  case (ShortItem v)
  have "sint v < 2 ^ 15" using sint_lt [of v] by simp
  then have "sint v < 2 ^ 64" by simp
  then show ?thesis
    by (intro item_law_number [OF _ _ _ _ inv])
      (simp_all add: ShortItem put_short_def put_int_def sint_up_scast is_up)
next
  case (IntItem v)
  have "sint v < 2 ^ 31" using sint_lt [of v] by simp
  then have "sint v < 2 ^ 64" by simp
  then show ?thesis by (intro item_law_number [OF _ _ _ _ inv]) (simp_all add: IntItem put_int_def)
next
  case (LongItem v)
  have "sint v < 2 ^ 63" using sint_lt [of v] by simp
  then have "sint v < 2 ^ 64" by simp
  then show ?thesis by (intro item_law_number [OF _ _ _ _ inv]) (simp_all add: LongItem put_long_def)
next
  case (LongLongItem v)
  have "sint v < 2 ^ 63" using sint_lt [of v] by simp
  then have "sint v < 2 ^ 64" by simp
  then show ?thesis
    by (intro item_law_number [OF _ _ _ _ inv]) (simp_all add: LongLongItem put_longlong_def)
qed (simp_all add: item_law_append [OF _ _ _ inv] append_operators split: option.splits)

section \<open>A line of items\<close>

text \<open>
  What a statement \<^verbatim>\<open>stream << a << b << ...\<close> leaves, as a function of the room: an item
  without room is left out, a negative integer that has room is undefined behaviour.
\<close>

fun printed :: "('d \<Rightarrow> string) \<Rightarrow> 'd item list \<Rightarrow> nat \<Rightarrow> string res" where
  "printed fmt [] room = Inr []"
| "printed fmt (it # its) room =
     (if \<not> item_fits fmt it room then printed fmt its room
      else if item_faults it then Inl OutOfBounds
      else bindR (printed fmt its (room - length (item_text fmt it)))
             (\<lambda>s. Inr (item_text fmt it @ s)))"

lemma gained_room: "gained s b b' \<Longrightarrow> fb_inv b \<Longrightarrow> FreeSize b' = FreeSize b - length s"
  by (simp add: gained_def FreeSize_eq)

lemma gained_trans: "gained s b c \<Longrightarrow> gained t c d \<Longrightarrow> gained (s @ t) b d"
  by (simp add: gained_def)

lemma gained_refl: "fb_inv b \<Longrightarrow> gained [] b b"
  by (simp add: gained_def)

lemma put_items_printed:
  assumes "fb_inv b" and fmt: "\<And>v. length (fmt v) < 32"
  shows "case printed fmt its (FreeSize b) of
           Inl e \<Rightarrow> foldR (put_item fmt) its b = Inl e
         | Inr s \<Rightarrow> \<exists>b'. foldR (put_item fmt) its b = Inr b' \<and> gained s b b'"
  using assms(1)
proof (induction its arbitrary: b)
  case Nil
  then show ?case by (simp add: gained_refl)
next
  case (Cons it its)
  have law: "item_law fmt it b" by (intro put_item_law Cons.prems fmt)
  note law = law [unfolded item_law_def]
  show ?case
  proof (cases "item_fits fmt it (FreeSize b) \<and> \<not> item_faults it")
    case True
    with law obtain c where c: "put_item fmt it b = Inr c" and g: "gained (item_text fmt it) b c"
      by auto
    have "fb_inv c" using g by (simp add: gained_def)
    from Cons.IH [OF this] gained_room [OF g Cons.prems] True c g show ?thesis
      by (auto split: sum.splits intro: gained_trans)
  next
    case False
    with law Cons.IH [OF Cons.prems] show ?thesis by (auto split: if_splits sum.splits)
  qed
qed

text \<open>
  C33. The operators for integers, exactly. Without more than 32 free bytes nothing is printed.
  With them a number that is not negative is printed in decimal at the write position with a NUL
  behind it, at most 21 bytes; a negative number indexes \<^verbatim>\<open>digits\<close> with its negative
  remainder, an access out of the array.
\<close>

theorem FormatInteger_exact:
  assumes "fb_inv b" and "v < 2 ^ 64"
  shows "FormatInteger v b =
    (if FreeSize b \<le> 32 then Inr b
     else if v < 0 then Inl OutOfBounds
     else let s = dec_int v; end_pos = cur b + length s in
       Inr (b\<lparr>fb_data := take (cur b) (fb_data b) @ s @ [CHR 0x00] @ drop (Suc end_pos) (fb_data b),
              cur := end_pos\<rparr>)) \<and> (v < 0 \<or> length (dec_int v) \<le> 20)"
proof
  show "v < 0 \<or> length (dec_int v) \<le> 20" using FormatInteger_eq(2) [OF assms] by linarith
qed (rule FormatInteger_eq(1) [OF assms, unfolded kMaxNumericSize_def])

definition demo_stream :: fixed_buffer where
  "demo_stream = new_FixedBuffer (replicate 4096 (CHR ''?''))"

lemma demo_stream_inv: "fb_inv demo_stream" "FreeSize demo_stream = 4096" "fb_toString demo_stream = []"
proof -
  show inv: "fb_inv demo_stream"
    unfolding demo_stream_def by (rule new_FixedBuffer_inv) (simp_all add: max_size_def)
  show "FreeSize demo_stream = 4096"
    unfolding FreeSize_eq [OF inv] by (simp add: demo_stream_def new_FixedBuffer_def)
qed (simp add: demo_stream_def)

theorem FormatInteger_exact_witness:
  "FormatInteger (- 5) demo_stream = Inl OutOfBounds \<and>
   (\<exists>b'. FormatInteger 407 demo_stream = Inr b' \<and> take (cur b') (fb_data b') = ''407'')"
proof
  show "FormatInteger (- 5) demo_stream = Inl OutOfBounds"
    using FormatInteger_exact [OF demo_stream_inv(1), of "- 5"] by (simp add: demo_stream_inv)
  have "dec_int 407 = ''407''"
    by (simp add: dec_int_def dec_nat.simps digit_char_def char_of_eq_iff)
  then show "\<exists>b'. FormatInteger 407 demo_stream = Inr b' \<and> take (cur b') (fb_data b') = ''407''"
    using FormatInteger_exact [OF demo_stream_inv(1), of 407]
    by (simp add: demo_stream_inv) (simp add: demo_stream_def new_FixedBuffer_def)
qed

text \<open>
  C34. A line of items. On a well-formed stream the operators write exactly the texts of the items
  that have the room they ask for when their turn comes, whole items and in order, and leave the
  position inside the array; they fault exactly when a negative integer is among the items that
  have room.
\<close>

theorem stream_prints:
  assumes "fb_inv b" and "\<forall>v. length (fmt v) < 32"
  shows "case printed fmt its (FreeSize b) of
           Inl e \<Rightarrow> foldR (put_item fmt) its b = Inl e
         | Inr s \<Rightarrow> \<exists>b'. foldR (put_item fmt) its b = Inr b' \<and>
             fb_toString b' = fb_toString b @ s \<and> cur b' < length (fb_data b')"
  using put_items_printed [where its = its and fmt = fmt, OF assms(1) spec [OF assms(2)]]
  by (auto simp: gained_def fb_inv_def split: sum.splits)

theorem stream_prints_witness:
  "\<exists>b'. foldR (put_item (\<lambda>d :: unit. ''1.5'')) [BoolItem True, CharItem CHR ''='', DoubleItem ()]
      demo_stream = Inr b' \<and> fb_toString b' = ''true=1.5''"
  using stream_prints [OF demo_stream_inv(1), of "\<lambda>d :: unit. ''1.5''"
    "[BoolItem True, CharItem CHR ''='', DoubleItem ()]"]
  by (auto simp add: demo_stream_inv item_fits_def item_faults_def)

end
