(* ===== verification/Loggers.thy ===== *)
theory Loggers
  imports Log_Stream
begin

text \<open>
  \<^verbatim>\<open>Logger\<close> of include/base/Logger.h and src/base/Logger.cpp: a line is built in the
  stream of a temporary object, from its constructor to its destructor, and handed to the global
  output function. Output and flush functions are values; the calls made are recorded in order.
  \<^verbatim>\<open>localtime\<close>, the clock and the text of a double are arguments.
\<close>

section \<open>Levels\<close>

datatype LogLevel = DEBUG | INFO | WARN | ERROR | FATAL | LOG_NUM

fun level_number :: "LogLevel \<Rightarrow> nat" where
  "level_number DEBUG = 0"
| "level_number INFO = 1"
| "level_number WARN = 2"
| "level_number ERROR = 3"
| "level_number FATAL = 4"
| "level_number LOG_NUM = 5"

definition LogLevelName :: "string list" where
  "LogLevelName = [''DEBUG '', ''INFO  '', ''WARN  '', ''ERROR '', ''FATAL '']"

section \<open>The global state\<close>

datatype 'o output_fun = DefaultOutput | OutputFun 'o

datatype 'f flush_fun = DefaultFlush | FlushFun 'f

record ('o, 'f) log_world =
  g_LogLevel :: LogLevel
  g_output :: "'o output_fun"
  g_flush :: "'f flush_fun"
  outputs :: "('o output_fun \<times> string) list"
  flushes :: "'f flush_fun list"

text \<open>The initial values; \<^verbatim>\<open>LOG_DEBUG_ON\<close> is 1.\<close>

definition initial_log_world :: "('o, 'f) log_world" where
  "initial_log_world = \<lparr>g_LogLevel = DEBUG, g_output = DefaultOutput, g_flush = DefaultFlush,
     outputs = [], flushes = []\<rparr>"

definition loglevel :: "('o, 'f) log_world \<Rightarrow> LogLevel" where
  "loglevel w = g_LogLevel w"

definition SetLogLevel :: "LogLevel \<Rightarrow> ('o, 'f) log_world \<Rightarrow> ('o, 'f) log_world" where
  "SetLogLevel l w = w\<lparr>g_LogLevel := l\<rparr>"

definition SetOutput :: "'o output_fun \<Rightarrow> ('o, 'f) log_world \<Rightarrow> ('o, 'f) log_world" where
  "SetOutput f w = w\<lparr>g_output := f\<rparr>"

definition SetFlush :: "'f flush_fun \<Rightarrow> ('o, 'f) log_world \<Rightarrow> ('o, 'f) log_world" where
  "SetFlush f w = w\<lparr>g_flush := f\<rparr>"

section \<open>The logger object\<close>

record logger =
  log_stream :: fixed_buffer
  level :: LogLevel
  log_line :: "32 word"
  log_file_name :: string

text \<open>
  The constructor with a level; the one without passes \<^verbatim>\<open>INFO\<close>. \<open>memory\<close> is what the
  array of the stream holds before, \<open>now\<close> the reading of the clock.
\<close>

definition new_Logger :: "(int \<Rightarrow> tm) \<Rightarrow> timestamp \<Rightarrow> char list \<Rightarrow>
    string \<Rightarrow> 32 word \<Rightarrow> LogLevel \<Rightarrow> logger res" where
  "new_Logger localtime now memory src_file line l =
     bindR (put_string (ts_toString localtime now) (new_FixedBuffer memory)) (\<lambda>s.
     bindR (put_char (CHR '' '') s) (\<lambda>s.
     if level_number l < length LogLevelName
     then bindR (put_cstring (Some (LogLevelName ! level_number l)) s) (\<lambda>s.
            Inr \<lparr>log_stream = s, level = l, log_line = line, log_file_name = src_file\<rparr>)
     else Inl OutOfBounds))"

definition new_Logger_info :: "(int \<Rightarrow> tm) \<Rightarrow> timestamp \<Rightarrow> char list \<Rightarrow>
    string \<Rightarrow> 32 word \<Rightarrow> logger res" where
  "new_Logger_info localtime now memory src_file line =
     new_Logger localtime now memory src_file line INFO"

text \<open>The destructor; the first component of the answer tells whether it ends in \<^verbatim>\<open>abort()\<close>.\<close>

definition delete_Logger :: "logger \<Rightarrow> ('o, 'f) log_world \<Rightarrow> (bool \<times> ('o, 'f) log_world) res" where
  "delete_Logger l w =
     bindR (put_cstring (Some '' - '') (log_stream l)) (\<lambda>s.
     bindR (put_string (log_file_name l) s) (\<lambda>s.
     bindR (put_char (CHR '':'') s) (\<lambda>s.
     bindR (put_int (log_line l) s) (\<lambda>s.
     bindR (put_char (CHR 0x0A) s) (\<lambda>s.
       let w = w\<lparr>outputs := outputs w @ [(g_output w, take (fb_length s) (fb_data s))]\<rparr> in
       if level l = FATAL then Inr (True, w\<lparr>flushes := flushes w @ [g_flush w]\<rparr>)
       else Inr (False, w))))))"

section \<open>A logging statement\<close>

text \<open>
  \<^verbatim>\<open>LOG_INFO\<close> and \<^verbatim>\<open>LOG_DEBUG\<close> test the level, the other three macros do not. The
  items are those of the statement \<^verbatim>\<open>LOG_X << a << b\<close>.
\<close>

definition macro_logs :: "LogLevel \<Rightarrow> ('o, 'f) log_world \<Rightarrow> bool" where
  "macro_logs l w \<longleftrightarrow>
     (if l = INFO \<or> l = DEBUG then level_number (loglevel w) \<le> level_number l else True)"

definition log_statement :: "(int \<Rightarrow> tm) \<Rightarrow> ('d \<Rightarrow> string) \<Rightarrow> timestamp \<Rightarrow> char list \<Rightarrow>
    string \<Rightarrow> 32 word \<Rightarrow> LogLevel \<Rightarrow> 'd item list \<Rightarrow> ('o, 'f) log_world \<Rightarrow>
    (bool \<times> ('o, 'f) log_world) res" where
  "log_statement localtime fmt now memory src_file line l its w =
     (if macro_logs l w
      then bindR (new_Logger localtime now memory src_file line l) (\<lambda>lg.
             bindR (foldR (put_item fmt) its (log_stream lg)) (\<lambda>s.
               delete_Logger (lg\<lparr>log_stream := s\<rparr>) w))
      else Inr (False, w))"

section \<open>The line\<close>

text \<open>Constructor, items and destructor put one list of items into the stream.\<close>

definition line_items :: "string \<Rightarrow> string \<Rightarrow> 32 word \<Rightarrow> LogLevel \<Rightarrow> 'd item list \<Rightarrow> 'd item list" where
  "line_items time src_file line l its =
     [StringItem time, CharItem (CHR '' ''), CStringItem (Some (LogLevelName ! level_number l))] @
     its @ [CStringItem (Some '' - ''), StringItem src_file, CharItem (CHR '':''), IntItem line,
            CharItem (CHR 0x0A)]"

lemma log_statement_items:
  assumes "macro_logs l w" and "l \<noteq> LOG_NUM"
  shows "log_statement localtime fmt now memory src_file line l its w =
    bindR (foldR (put_item fmt) (line_items (ts_toString localtime now) src_file line l its)
             (new_FixedBuffer memory))
      (\<lambda>s. Inr (l = FATAL, w\<lparr>outputs := outputs w @ [(g_output w, fb_toString s)],
             flushes := flushes w @ (if l = FATAL then [g_flush w] else [])\<rparr>))"
proof -
  have names: "level_number l < length LogLevelName"
    using assms(2) by (cases l) (simp_all add: LogLevelName_def)
  show ?thesis
    using assms(1) names
    by (simp add: log_statement_def new_Logger_def delete_Logger_def line_items_def foldR_append
        bindR_assoc fb_toString_def Let_def if_distrib cong: if_cong)
qed

lemma it_fits: "length (item_text fmt it) + 32 < room \<Longrightarrow> item_fits fmt it room"
  by (cases it) (auto simp: item_fits_def split: option.splits)

lemma printed_all:
  assumes "\<forall>it\<in>set its. \<not> item_faults it"
    and "length (concat (map (item_text fmt) its)) + 32 < room"
  shows "printed fmt its room = Inr (concat (map (item_text fmt) its))"
  using assms
proof (induction its arbitrary: room)
  case (Cons it its)
  have "item_fits fmt it room"
    using Cons.prems(2) by (intro it_fits) simp
  with Cons show ?case by simp
qed simp

lemma log_statement_value:
  assumes "l \<noteq> LOG_NUM" and "length memory = 4096" and "\<forall>v. length (fmt v) < 32"
    and "\<forall>it\<in>set its. \<not> item_faults it" and "0 \<le> sint line"
    and "line_text = ts_toString localtime now @ '' '' @ LogLevelName ! level_number l @
           concat (map (item_text fmt) its) @ '' - '' @ src_file @ '':'' @ dec_int (sint line) @ [CHR 0x0A]"
    and "length line_text + 32 < 4096"
  shows "log_statement localtime fmt now memory src_file line l its w =
    Inr (if macro_logs l w
         then (l = FATAL, w\<lparr>outputs := outputs w @ [(g_output w, line_text)],
                 flushes := flushes w @ (if l = FATAL then [g_flush w] else [])\<rparr>)
         else (False, w))"
proof (cases "macro_logs l w")
  case True
  let ?its = "line_items (ts_toString localtime now) src_file line l its"
  have inv: "fb_inv (new_FixedBuffer memory)"
    using assms(2) by (intro new_FixedBuffer_inv) (simp_all add: max_size_def)
  have room: "FreeSize (new_FixedBuffer memory) = 4096"
    using FreeSize_eq [OF inv] assms(2) by (simp add: new_FixedBuffer_def)
  have "concat (map (item_text fmt) ?its) = line_text"
    by (simp add: line_items_def assms(6))
  moreover have "\<forall>it\<in>set ?its. \<not> item_faults it"
    using assms(4,5) by (auto simp: line_items_def item_faults_def)
  ultimately have "printed fmt ?its 4096 = Inr line_text"
    using printed_all [of ?its fmt 4096] assms(7) by simp
  with put_items_printed [where its = ?its and fmt = fmt, OF inv spec [OF assms(3)]] room
  obtain s where "foldR (put_item fmt) ?its (new_FixedBuffer memory) = Inr s"
    and "gained line_text (new_FixedBuffer memory) s" by auto
  then show ?thesis
    using True by (simp add: log_statement_items [OF True assms(1)] gained_def)
qed (simp add: log_statement_def)

text \<open>
  C35. A logging statement, exactly, as long as the line with 32 bytes to spare fits into the
  4096 bytes and no number in it is negative: below the level of its macro nothing happens;
  otherwise one line of time, level, items, file and line number goes to the output function,
  and \<^verbatim>\<open>LOG_FATAL\<close>, and it alone, flushes and aborts.
\<close>

theorem log_statement_line:
  assumes "l \<noteq> LOG_NUM" and "length memory = 4096" and "\<forall>v. length (fmt v) < 32"
    and "\<forall>it\<in>set its. \<not> item_faults it" and "0 \<le> sint line"
    and "line_text = ts_toString localtime now @ '' '' @ LogLevelName ! level_number l @
           concat (map (item_text fmt) its) @ '' - '' @ src_file @ '':'' @ dec_int (sint line) @ [CHR 0x0A]"
    and "length line_text + 32 < 4096"
  shows "log_statement localtime fmt now memory src_file line l its w =
    Inr (if macro_logs l w
         then (l = FATAL, w\<lparr>outputs := outputs w @ [(g_output w, line_text)],
                 flushes := flushes w @ (if l = FATAL then [g_flush w] else [])\<rparr>)
         else (False, w))"
  by (rule log_statement_value [OF assms])

definition demo_time :: tm where
  "demo_time = \<lparr>tm_year = 124, tm_mon = 0, tm_mday = 22, tm_hour = 3, tm_min = 4, tm_sec = 5\<rparr>"

lemma demo_line:
  "dec_int 12 = ''12''" "ts_toString (\<lambda>_. demo_time) ts_zero = ''2024/01/22 03:04:05''"
proof -
  have "dec_int 12 = ''12''" "dec_int 2024 = ''2024''"
    "dec_nat 1 = ''1''" "dec_nat 22 = ''22''" "dec_nat 3 = ''3''" "dec_nat 4 = ''4''" "dec_nat 5 = ''5''"
    by (simp_all add: dec_int_def dec_nat_small dec_nat_big digit_char_def char_of_eq_iff)
  then show "dec_int 12 = ''12''" "ts_toString (\<lambda>_. demo_time) ts_zero = ''2024/01/22 03:04:05''"
    by (simp_all add: ts_toString_def demo_time_def fmt_d_def fmt_0d_def pad_left_def snprintf_buf_def Let_def)
qed

theorem log_statement_line_witness:
  "log_statement (\<lambda>_. demo_time) (\<lambda>d :: unit. []) ts_zero (replicate 4096 (CHR ''?'')) ''a.cpp'' 12
     FATAL [StringItem ''no memory''] (initial_log_world :: (unit, unit) log_world) =
   Inr (True, initial_log_world\<lparr>
     outputs := [(DefaultOutput, ''2024/01/22 03:04:05 FATAL no memory - a.cpp:12'' @ [CHR 0x0A])],
     flushes := [DefaultFlush]\<rparr>)"
  using log_statement_line [OF _ _ _ _ _ refl, where l = FATAL and memory = "replicate 4096 (CHR ''?'')"
      and fmt = "\<lambda>d :: unit. []" and its = "[StringItem ''no memory'']" and line = 12 and src_file = "''a.cpp''"
      and localtime = "\<lambda>_. demo_time" and now = ts_zero
      and w = "initial_log_world :: (unit, unit) log_world"]
  by (simp add: demo_line item_faults_def LogLevelName_def macro_logs_def initial_log_world_def)

end
