(* ===== verification/Log_File.thy ===== *)
theory Log_File
  imports Timestamps
begin

text \<open>
  \<^verbatim>\<open>LogFile\<close> of include/base/LogFile.h and src/base/LogFile.cpp: the file a log is written
  to, rolled by size and by day. The file system is seen through what the code does and asks: the
  writes made, whether a file can be opened, the sizes \<^verbatim>\<open>file_size\<close> answers, the readings of
  \<^verbatim>\<open>time\<close>. The interface \<open>log_sink\<close> states what the asynchronous logger relies on.
\<close>

section \<open>State\<close>

text \<open>
  \<open>file_writes\<close> are the writes so far, each with the name of the file that was open; \<open>opened\<close> the
  names opened, the last one last. \<open>time_readings\<close> and \<open>size_answers\<close> are the answers still to
  come, \<^const>\<open>None\<close> where \<^verbatim>\<open>file_size\<close> throws.
\<close>

record log_file =
  lf_basename :: string
  RollSize :: int
  FlushInterval :: int
  CheckEveryN :: int
  count :: int
  lf_start :: int
  LastRoll :: int
  LastFlush :: int
  out_file :: "string option"
  filename :: string
  file_writes :: "(string \<times> string) list"
  opened :: "string list"
  time_readings :: "nat \<Rightarrow> int"
  size_answers :: "nat \<Rightarrow> nat option"

text \<open>What does not change: how names are made, and which files can be opened.\<close>

record log_sys =
  log_localtime :: "int \<Rightarrow> tm"
  can_open :: "string \<Rightarrow> bool"

definition kRollPerSeconds :: int where "kRollPerSeconds = 60 * 60 * 24"

definition lf_time :: "log_file \<Rightarrow> int \<times> log_file" where
  "lf_time f = (time_readings f 0, f\<lparr>time_readings := (\<lambda>n. time_readings f (Suc n))\<rparr>)"

section \<open>Operations\<close>

text \<open>\<^verbatim>\<open>strftime\<close> with \<^verbatim>\<open>"-%Y-%m-%d %H:%M:%S"\<close>.\<close>

definition LogFileName :: "log_sys \<Rightarrow> string \<Rightarrow> log_file \<Rightarrow> (string \<times> int) \<times> log_file" where
  "LogFileName sys name f =
     (let (now, f) = lf_time f; time = log_localtime sys now
      in ((name @ ''-'' @ dec_int (tm_year time + 1900) @ ''-'' @ fmt_0d 2 (tm_mon time + 1) @ ''-'' @
           fmt_0d 2 (tm_mday time) @ '' '' @ fmt_0d 2 (tm_hour time) @ '':'' @
           fmt_0d 2 (tm_min time) @ '':'' @ fmt_0d 2 (tm_sec time) @ ''.log'', now), f))"

definition RollFile :: "log_sys \<Rightarrow> log_file \<Rightarrow> bool \<times> log_file" where
  "RollFile sys f =
     (let ((name, now), f) = LogFileName sys (lf_basename f) f;
          start = now sdiv kRollPerSeconds * kRollPerSeconds
      in if LastRoll f < now
         then (True, f\<lparr>filename := name, LastRoll := now, LastFlush := now, lf_start := start,
                       out_file := (if can_open sys name then Some name else None),
                       opened := opened f @ [name]\<rparr>)
         else (False, f))"

definition new_LogFile :: "log_sys \<Rightarrow> string \<Rightarrow> int \<Rightarrow> int \<Rightarrow> int \<Rightarrow> (nat \<Rightarrow> int) \<Rightarrow> (nat \<Rightarrow> nat option) \<Rightarrow>
    log_file" where
  "new_LogFile sys name roll flush_interval check readings sizes =
     snd (RollFile sys \<lparr>lf_basename = name, RollSize = roll, FlushInterval = flush_interval,
       CheckEveryN = check, count = 0, lf_start = 0, LastRoll = 0, LastFlush = 0, out_file = None,
       filename = [], file_writes = [], opened = [], time_readings = readings, size_answers = sizes\<rparr>)"

text \<open>Flushing moves bytes between buffers of the same file.\<close>

definition flush_file :: "log_file \<Rightarrow> log_file" where
  "flush_file f = f"

definition write_file :: "string \<Rightarrow> log_file \<Rightarrow> log_file" where
  "write_file msg f = (case out_file f of
      None \<Rightarrow> f | Some name \<Rightarrow> f\<lparr>file_writes := file_writes f @ [(name, msg)]\<rparr>)"

text \<open>\<^verbatim>\<open>int size\<close> is the size narrowed to 32 bits; \<open>msg\<close> are the \<^verbatim>\<open>len\<close> bytes.\<close>

definition append_file :: "log_sys \<Rightarrow> string \<Rightarrow> log_file \<Rightarrow> log_file res" where
  "append_file sys msg f =
     (let f = write_file msg f; answer = size_answers f 0;
          f = f\<lparr>size_answers := (\<lambda>n. size_answers f (Suc n))\<rparr> in
      case answer of
        None \<Rightarrow> Inl FilesystemError
      | Some bytes \<Rightarrow> Inr (
          if RollSize f < sint (word_of_nat bytes :: 32 word) then snd (RollFile sys f)
          else (let f = f\<lparr>count := count f + 1\<rparr> in
            if CheckEveryN f \<le> count f then
              (let f = f\<lparr>count := 0\<rparr>; (now, f) = lf_time f;
                   cur = now sdiv kRollPerSeconds * kRollPerSeconds in
               if cur \<noteq> lf_start f then snd (RollFile sys f)
               else if FlushInterval f < now - LastFlush f then flush_file (f\<lparr>LastFlush := now\<rparr>)
               else f)
            else f)))"

section \<open>What the writes amount to\<close>

definition log_text :: "log_file \<Rightarrow> string" where
  "log_text f = concat (map snd (file_writes f))"

text \<open>
  A usable log: the open file is the one of the current name, files can be opened, the size
  queries answer.
\<close>

definition log_ready :: "log_sys \<Rightarrow> log_file \<Rightarrow> bool" where
  "log_ready sys f \<longleftrightarrow> (\<forall>name. can_open sys name) \<and> out_file f = Some (filename f) \<and>
     (\<forall>n. size_answers f n \<noteq> None)"

lemma lf_time_simps [simp]:
  "fst (lf_time f) = time_readings f 0"
  "out_file (snd (lf_time f)) = out_file f" "filename (snd (lf_time f)) = filename f"
  "file_writes (snd (lf_time f)) = file_writes f" "size_answers (snd (lf_time f)) = size_answers f"
  "LastRoll (snd (lf_time f)) = LastRoll f" "count (snd (lf_time f)) = count f"
  "CheckEveryN (snd (lf_time f)) = CheckEveryN f" "lf_start (snd (lf_time f)) = lf_start f"
  "opened (snd (lf_time f)) = opened f" "lf_basename (snd (lf_time f)) = lf_basename f"
  "RollSize (snd (lf_time f)) = RollSize f" "FlushInterval (snd (lf_time f)) = FlushInterval f"
  "LastFlush (snd (lf_time f)) = LastFlush f"
  "time_readings (snd (lf_time f)) n = time_readings f (Suc n)"
  by (simp_all add: lf_time_def)

lemma lf_time_case: "(case lf_time f of (t, g) \<Rightarrow> P t g) = P (time_readings f 0) (snd (lf_time f))"
  by (simp add: lf_time_def)

text \<open>What rolling does: nothing but a reading of the clock, or a new file.\<close>

lemma RollFile_cases:
  obtains (same) "RollFile sys f = (False, snd (lf_time f))" and "time_readings f 0 \<le> LastRoll f"
  | (new) name where "LastRoll f < time_readings f 0" and "RollFile sys f = (True, snd (lf_time f)\<lparr>
      filename := name, LastRoll := time_readings f 0, LastFlush := time_readings f 0,
      lf_start := time_readings f 0 sdiv kRollPerSeconds * kRollPerSeconds,
      out_file := (if can_open sys name then Some name else None), opened := opened f @ [name]\<rparr>)"
proof -
  define g where g_eq: "g = snd (lf_time f)"
  have g: "lf_time f = (time_readings f 0, g)" unfolding g_eq by (simp only: lf_time_def snd_conv)
  define name where "name = fst (fst (LogFileName sys (lf_basename f) f))"
  have name: "LogFileName sys (lf_basename f) f = ((name, time_readings f 0), g)"
    unfolding name_def LogFileName_def g by (simp only: Let_def prod.case fst_conv)
  have kept: "opened g = opened f" "LastRoll g = LastRoll f" unfolding g_eq by simp_all
  have roll: "RollFile sys f = (if LastRoll f < time_readings f 0
      then (True, g\<lparr>filename := name, LastRoll := time_readings f 0, LastFlush := time_readings f 0,
        lf_start := time_readings f 0 sdiv kRollPerSeconds * kRollPerSeconds,
        out_file := (if can_open sys name then Some name else None), opened := opened f @ [name]\<rparr>)
      else (False, g))"
    by (simp only: RollFile_def name Let_def prod.case kept)
  show thesis
  proof (cases "LastRoll f < time_readings f 0")
    case True
    from roll show thesis unfolding if_P [OF True] g_eq by (rule new [OF True, of name])
  next
    case False
    from roll have "RollFile sys f = (False, g)" unfolding if_not_P [OF False] .
    then show thesis unfolding g_eq by (rule same) (use False in simp)
  qed
qed

lemma RollFile_keeps:
  "log_ready sys f \<Longrightarrow> log_ready sys (snd (RollFile sys f)) \<and>
     file_writes (snd (RollFile sys f)) = file_writes f \<and>
     CheckEveryN (snd (RollFile sys f)) = CheckEveryN f \<and> count (snd (RollFile sys f)) = count f"
  by (rule RollFile_cases [of sys f]) (simp_all add: log_ready_def)

text \<open>One append: either the file is kept, or \<^verbatim>\<open>RollFile\<close> is asked.\<close>

definition after_write :: "string \<Rightarrow> log_file \<Rightarrow> log_file" where
  "after_write msg f = write_file msg f\<lparr>size_answers := (\<lambda>n. size_answers (write_file msg f) (Suc n))\<rparr>"

lemma after_write_simps [simp]:
  "RollSize (after_write msg f) = RollSize f" "CheckEveryN (after_write msg f) = CheckEveryN f"
  "count (after_write msg f) = count f" "LastRoll (after_write msg f) = LastRoll f"
  "lf_start (after_write msg f) = lf_start f" "opened (after_write msg f) = opened f"
  "time_readings (after_write msg f) = time_readings f"
  "FlushInterval (after_write msg f) = FlushInterval f" "LastFlush (after_write msg f) = LastFlush f"
  by (simp_all add: after_write_def write_file_def Let_def split: option.split)

lemma after_write_ready:
  "log_ready sys f \<Longrightarrow> log_ready sys (after_write msg f) \<and> log_text (after_write msg f) = log_text f @ msg"
  by (simp add: after_write_def write_file_def log_ready_def log_text_def Let_def)

lemma log_ready_upd [simp]:
  "log_ready sys (f\<lparr>count := n\<rparr>) = log_ready sys f"
  "log_ready sys (f\<lparr>LastFlush := t\<rparr>) = log_ready sys f"
  "log_ready sys (snd (lf_time f)) = log_ready sys f"
  "log_text (f\<lparr>count := n\<rparr>) = log_text f" "log_text (f\<lparr>LastFlush := t\<rparr>) = log_text f"
  "log_text (snd (lf_time f)) = log_text f"
  by (simp_all add: log_ready_def log_text_def)

definition day_of :: "int \<Rightarrow> int" where
  "day_of t = t sdiv kRollPerSeconds * kRollPerSeconds"

lemma append_file_eq:
  "append_file sys msg f = (case size_answers (write_file msg f) 0 of
     None \<Rightarrow> Inl FilesystemError
   | Some bytes \<Rightarrow> (let g = after_write msg f in Inr (
       if RollSize f < sint (word_of_nat bytes :: 32 word) then snd (RollFile sys g)
       else if count f + 1 < CheckEveryN f then g\<lparr>count := count f + 1\<rparr>
       else if day_of (time_readings f 0) \<noteq> lf_start f
            then snd (RollFile sys (snd (lf_time (g\<lparr>count := 0\<rparr>))))
       else if FlushInterval f < time_readings f 0 - LastFlush f
            then (snd (lf_time (g\<lparr>count := 0\<rparr>)))\<lparr>LastFlush := time_readings f 0\<rparr>
       else snd (lf_time (g\<lparr>count := 0\<rparr>)))))"
  unfolding append_file_def Let_def after_write_def [symmetric] lf_time_case day_of_def [symmetric]
    flush_file_def
  by (simp split: option.split)

text \<open>The shape of one append on a usable log.\<close>

inductive appended :: "log_sys \<Rightarrow> string \<Rightarrow> log_file \<Rightarrow> log_file \<Rightarrow> bool" for sys msg f where
  kept: "log_ready sys f' \<Longrightarrow> log_text f' = log_text f @ msg \<Longrightarrow> opened f' = opened f \<Longrightarrow>
    LastRoll f' = LastRoll f \<Longrightarrow> appended sys msg f f'"
| rolled: "log_ready sys f' \<Longrightarrow> log_text f' = log_text f @ msg \<Longrightarrow> opened f' = opened f @ [name] \<Longrightarrow>
    LastRoll f < LastRoll f' \<Longrightarrow> appended sys msg f f'"

lemma RollFile_appended:
  assumes "log_ready sys g" and "log_text g = log_text f @ msg" and "opened g = opened f"
    and "LastRoll g = LastRoll f"
  shows "appended sys msg f (snd (RollFile sys g))"
  using assms(1)
proof (cases rule: RollFile_cases [of sys g])
  case same
  then show ?thesis using assms by (intro appended.kept) simp_all
next
  case (new name)
  then show ?thesis using assms RollFile_keeps [OF assms(1)]
    by (intro appended.rolled [where name = name]) (simp_all add: log_text_def)
qed

lemma append_file_appended:
  assumes "log_ready sys f"
  shows "\<exists>f'. append_file sys msg f = Inr f' \<and> appended sys msg f f'"
proof -
  let ?g = "after_write msg f"
  have g: "log_ready sys ?g" "log_text ?g = log_text f @ msg" using after_write_ready [OF assms] by auto
  obtain bytes where b: "size_answers (write_file msg f) 0 = Some bytes"
    using assms by (auto simp: log_ready_def write_file_def)
  have "appended sys msg f (snd (RollFile sys ?g))" using g by (intro RollFile_appended) simp_all
  moreover have "appended sys msg f (snd (RollFile sys (snd (lf_time (?g\<lparr>count := 0\<rparr>)))))"
    using g by (intro RollFile_appended) simp_all
  moreover have "appended sys msg f (?g\<lparr>count := count f + 1\<rparr>)"
    using g by (intro appended.kept) simp_all
  moreover have "appended sys msg f (snd (lf_time (?g\<lparr>count := 0\<rparr>)))"
    using g by (intro appended.kept) simp_all
  moreover have "appended sys msg f ((snd (lf_time (?g\<lparr>count := 0\<rparr>)))\<lparr>LastFlush := time_readings f 0\<rparr>)"
    using g by (intro appended.kept) simp_all
  ultimately show ?thesis by (simp add: append_file_eq b Let_def)
qed

section \<open>The sink interface\<close>

text \<open>What the writer of an asynchronous log relies on: nothing written is lost or reordered.\<close>

locale log_sink =
  fixes ready :: "'s \<Rightarrow> bool"
    and written :: "'s \<Rightarrow> string"
    and put :: "string \<Rightarrow> 's \<Rightarrow> 's res"
    and flush :: "'s \<Rightarrow> 's"
  assumes put_law: "ready s \<Longrightarrow> \<exists>s'. put msg s = Inr s' \<and> ready s' \<and> written s' = written s @ msg"
    and flush_law: "ready s \<Longrightarrow> ready (flush s) \<and> written (flush s) = written s"
begin

lemma put_all: "ready s \<Longrightarrow> \<exists>s'. foldR put msgs s = Inr s' \<and> ready s' \<and> written s' = written s @ concat msgs"
proof (induction msgs arbitrary: s)
  case (Cons m ms)
  from put_law [OF Cons.prems, of m] obtain t
    where t: "put m s = Inr t" "ready t" "written t = written s @ m" by blast
  from Cons.IH [OF t(2)] t show ?case by simp
qed simp

lemma put_flush: "ready s \<Longrightarrow> put msg s = Inr s' \<Longrightarrow> written (flush s') = written s @ msg"
  using put_law [of s msg] flush_law [of s'] by auto

end

lemma appendedD: "appended sys msg f f' \<Longrightarrow> log_ready sys f' \<and> log_text f' = log_text f @ msg"
  by (auto elim: appended.cases)

interpretation log_file: log_sink "log_ready sys" log_text "append_file sys" flush_file for sys
proof
  show "log_ready sys f \<Longrightarrow>
      \<exists>f'. append_file sys msg f = Inr f' \<and> log_ready sys f' \<and> log_text f' = log_text f @ msg" for f msg
    using append_file_appended appendedD by blast
qed (simp add: flush_file_def)

section \<open>Sequences of appends\<close>

lemma appends_bounded:
  "log_ready sys f \<Longrightarrow> \<exists>f'. foldR (append_file sys) msgs f = Inr f' \<and> log_ready sys f' \<and>
     log_text f' = log_text f @ concat msgs \<and> length (opened f) \<le> length (opened f') \<and>
     int (length (opened f')) - int (length (opened f)) \<le> LastRoll f' - LastRoll f"
proof (induction msgs arbitrary: f)
  case (Cons m ms)
  from append_file_appended [OF Cons.prems, of m] obtain g
    where g: "append_file sys m f = Inr g" "appended sys m f g" by blast
  then have "length (opened f) \<le> length (opened g)"
    "int (length (opened g)) - int (length (opened f)) \<le> LastRoll g - LastRoll f"
    by (auto elim: appended.cases)
  with Cons.IH [of g] g appendedD [OF g(2)] show ?case by fastforce
qed simp

text \<open>
  C36. On a usable log every sequence of appends returns, the bytes written, over all files in the
  order of writing, are the messages in order, and no more files are opened than seconds have
  passed between the last roll before and the last roll after.
\<close>

theorem log_file_keeps_messages:
  assumes "log_ready sys f"
  shows "\<exists>f'. foldR (append_file sys) msgs f = Inr f' \<and> log_ready sys f' \<and>
     log_text f' = log_text f @ concat msgs \<and>
     int (length (opened f')) - int (length (opened f)) \<le> LastRoll f' - LastRoll f"
  using appends_bounded [OF assms, of msgs] by blast

text \<open>A roll that is asked for at a time later than the last one happens.\<close>

lemma RollFile_later:
  assumes "LastRoll g < time_readings g 0"
  shows "length (opened (snd (RollFile sys g))) = Suc (length (opened g))"
  by (rule RollFile_cases [of sys g]) (use assms in simp_all)

lemma append_rolls_or_counts:
  assumes "log_ready sys f" and "\<forall>n. LastRoll f < time_readings f n \<and> day_of (time_readings f n) \<noteq> lf_start f"
    and "append_file sys msg f = Inr f'"
  shows "length (opened f') = Suc (length (opened f)) \<or>
    (count f + 1 < CheckEveryN f \<and> f' = after_write msg f\<lparr>count := count f + 1\<rparr>)"
proof -
  let ?g = "after_write msg f"
  have "length (opened (snd (RollFile sys ?g))) = Suc (length (opened f))"
    using assms(2) RollFile_later [of ?g sys] by simp
  moreover have "length (opened (snd (RollFile sys (snd (lf_time (?g\<lparr>count := 0\<rparr>)))))) = Suc (length (opened f))"
    using assms(2) RollFile_later [of "snd (lf_time (?g\<lparr>count := 0\<rparr>))" sys] by simp
  ultimately show ?thesis
    using assms(2,3) by (auto simp: append_file_eq Let_def split: option.splits if_splits)
qed

text \<open>
  The roll at midnight: if from now on every reading of the clock is later than the last roll
  and of another day than the open file, then the file is rolled at the latest by the append that
  completes \<^verbatim>\<open>CheckEveryN_\<close> since the last check, whatever the messages and the sizes are.
\<close>

theorem log_file_rolls_daily:
  assumes "log_ready sys f"
    and "\<forall>n. LastRoll f < time_readings f n \<and> day_of (time_readings f n) \<noteq> lf_start f"
    and "int (length msgs) = CheckEveryN f - count f" and "count f < CheckEveryN f"
  shows "\<exists>f'. foldR (append_file sys) msgs f = Inr f' \<and> length (opened f) < length (opened f')"
  using assms
proof (induction msgs arbitrary: f)
  case Nil
  then show ?case by simp
next
  case (Cons m ms)
  from append_file_appended [OF Cons.prems(1), of m] obtain g
    where g: "append_file sys m f = Inr g" and ready: "log_ready sys g" using appendedD by blast
  from append_rolls_or_counts [OF Cons.prems(1,2) g]
  show ?case
  proof
    assume "length (opened g) = Suc (length (opened f))"
    with appends_bounded [OF ready, of ms] g show ?thesis by fastforce
  next
    assume c: "count f + 1 < CheckEveryN f \<and> g = after_write m f\<lparr>count := count f + 1\<rparr>"
    have "\<exists>f'. foldR (append_file sys) ms g = Inr f' \<and> length (opened g) < length (opened f')"
      using Cons.prems c by (intro Cons.IH [OF ready]) simp_all
    with c g show ?thesis by simp
  qed
qed

definition demo_log_sys :: log_sys where
  "demo_log_sys = \<lparr>log_localtime = (\<lambda>_. \<lparr>tm_year = 124, tm_mon = 0, tm_mday = 22, tm_hour = 3,
     tm_min = 4, tm_sec = 5\<rparr>), can_open = (\<lambda>_. True)\<rparr>"

text \<open>A file opened on the day before, one append before its next check.\<close>

definition demo_log :: log_file where
  "demo_log = \<lparr>lf_basename = ''a'', RollSize = 1000, FlushInterval = 5, CheckEveryN = 2, count = 1,
     lf_start = 0, LastRoll = 7, LastFlush = 7, out_file = Some ''a.log'', filename = ''a.log'',
     file_writes = [], opened = [''a.log''], time_readings = (\<lambda>n. 90000), size_answers = (\<lambda>n. Some 0)\<rparr>"

lemma demo_log_facts: "log_ready demo_log_sys demo_log" "log_text demo_log = []" "count demo_log = 1"
  "CheckEveryN demo_log = 2" "time_readings demo_log n = 90000" "LastRoll demo_log = 7"
  "lf_start demo_log = 0" "opened demo_log = [''a.log'']"
  by (simp_all add: log_ready_def demo_log_def demo_log_sys_def log_text_def)

theorem log_file_keeps_messages_witness:
  "\<exists>f'. foldR (append_file demo_log_sys) [''x'', ''yz''] demo_log = Inr f' \<and> log_text f' = ''xyz''"
  using log_file_keeps_messages [OF demo_log_facts(1), of "[''x'', ''yz'']"] by (auto simp: demo_log_facts)

theorem log_file_rolls_daily_witness:
  "\<exists>f'. foldR (append_file demo_log_sys) [''x''] demo_log = Inr f' \<and> 1 < length (opened f')"
  using log_file_rolls_daily [OF demo_log_facts(1), of "[''x'']"]
  by (simp add: demo_log_facts day_of_def kRollPerSeconds_def)

end
