(* ===== verification/Async_Logger.thy ===== *)
theory Async_Logger
  imports Log_Stream Log_File
begin

text \<open>
  \<^verbatim>\<open>AsyncLogger\<close> of include/base/AsyncLogger.h and src/base/AsyncLogger.cpp: any number of
  threads append to a current buffer under a mutex, a background thread swaps the filled buffers
  out and writes them to a \<^verbatim>\<open>LogFile\<close>. One step is one critical section, one test of
  \<^verbatim>\<open>running_\<close>, or the background thread's work between two sections, which only touches its
  own variables. A \<^verbatim>\<open>unique_ptr\<close> to a buffer is an option; what memory holds when a buffer
  is allocated is the argument \<open>memory\<close>.
\<close>

section \<open>State\<close>

text \<open>
  Where the background thread is: not started, at the test of \<^verbatim>\<open>running_\<close>, before the
  critical section (waiting in \<^verbatim>\<open>wait_for\<close> or not: the wait ends after the flush interval in
  any case), writing, or at its end.
\<close>

datatype logging_pc = LogNotStarted | AtRunningTest | AtSwapSection | AtWriting | LogFinished

text \<open>
  \<open>buffer1\<close>, \<open>buffer2\<close> and \<open>BuffersWrite\<close> are the thread's own variables. \<open>accepted\<close> is the text
  the calls of \<^verbatim>\<open>append\<close> have handed over, \<open>dropped\<close> whether the thread has thrown buffers
  away.
\<close>

record 'o async_logger =
  running :: bool
  CurrentBuffer :: "fixed_buffer option"
  NextBuffer :: "fixed_buffer option"
  buffers :: "fixed_buffer option list"
  buffer1 :: "fixed_buffer option"
  buffer2 :: "fixed_buffer option"
  BuffersWrite :: "fixed_buffer option list"
  log_output :: 'o
  log_pc :: logging_pc
  accepted :: string
  dropped :: bool

definition new_buffer :: "char list \<Rightarrow> fixed_buffer" where
  "new_buffer memory = fb_bzero (new_FixedBuffer memory)"

definition new_AsyncLogger :: "char list \<Rightarrow> 'o \<Rightarrow> 'o async_logger" where
  "new_AsyncLogger memory out = \<lparr>running = False, CurrentBuffer = Some (new_buffer memory),
     NextBuffer = Some (new_buffer memory), buffers = [], buffer1 = None, buffer2 = None,
     BuffersWrite = [], log_output = out, log_pc = LogNotStarted, accepted = [], dropped = False\<rparr>"

definition deref_buffer :: "fixed_buffer option \<Rightarrow> fixed_buffer res" where
  "deref_buffer p = (case p of None \<Rightarrow> Inl NullPointer | Some b \<Rightarrow> Inr b)"

section \<open>Operations\<close>

text \<open>\<^verbatim>\<open>append\<close>; the comparison of \<^verbatim>\<open>size_t\<close> with \<^verbatim>\<open>int\<close> is one of \<^verbatim>\<open>size_t\<close>.\<close>

definition append_async :: "char list \<Rightarrow> char list \<Rightarrow> 32 word \<Rightarrow> 'o async_logger \<Rightarrow> 'o async_logger res" where
  "append_async memory msg len s =
     bindR (deref_buffer (CurrentBuffer s)) (\<lambda>cb.
       if size_of_int len < FreeSize cb
       then bindR (fb_append msg (size_of_int len) cb) (\<lambda>cb. Inr (s\<lparr>CurrentBuffer := Some cb\<rparr>))
       else (let s = s\<lparr>buffers := buffers s @ [CurrentBuffer s], CurrentBuffer := None\<rparr>;
                 s = (if NextBuffer s \<noteq> None then s\<lparr>CurrentBuffer := NextBuffer s, NextBuffer := None\<rparr>
                      else s\<lparr>CurrentBuffer := Some (new_FixedBuffer memory)\<rparr>)
             in bindR (deref_buffer (CurrentBuffer s)) (\<lambda>cb.
                  bindR (fb_append msg (size_of_int len) cb) (\<lambda>cb. Inr (s\<lparr>CurrentBuffer := Some cb\<rparr>)))))"

text \<open>The beginning of \<^verbatim>\<open>StartLog\<close>, and the critical section of its loop.\<close>

definition enter_StartLog :: "char list \<Rightarrow> 'o async_logger \<Rightarrow> 'o async_logger" where
  "enter_StartLog memory s = s\<lparr>buffer1 := Some (new_buffer memory), buffer2 := Some (new_buffer memory),
     BuffersWrite := []\<rparr>"

definition swap_section :: "'o async_logger \<Rightarrow> 'o async_logger" where
  "swap_section s =
     (let s = s\<lparr>buffers := buffers s @ [CurrentBuffer s]\<rparr>;
          s = s\<lparr>CurrentBuffer := buffer1 s, buffer1 := None\<rparr>;
          s = s\<lparr>BuffersWrite := buffers s, buffers := BuffersWrite s\<rparr>
      in if NextBuffer s = None then s\<lparr>NextBuffer := buffer2 s, buffer2 := None\<rparr> else s)"

definition dropped_text :: "string \<Rightarrow> nat \<Rightarrow> string" where
  "dropped_text time n = snprintf_buf 256 (''Dropped log messages at '' @ time @ '', '' @ dec_nat n @
     '' larger buffers'' @ [CHR 0x0A])"

text \<open>
  The work outside: writing what was swapped out, at most two buffers of more than 25, and
  keeping two of them as the new spare buffers. Taking the last element of an empty vector is
  undefined.
\<close>

definition recycle :: "fixed_buffer option \<Rightarrow> fixed_buffer option list \<Rightarrow>
    (fixed_buffer option \<times> fixed_buffer option list) res" where
  "recycle spare bufs =
     (if spare = None then
        (if bufs = [] then Inl OutOfBounds
         else bindR (deref_buffer (last bufs)) (\<lambda>b. Inr (Some (fb_reset b), butlast bufs)))
      else Inr (spare, bufs))"

definition write_section :: "(string \<Rightarrow> 'o \<Rightarrow> 'o res) \<Rightarrow> ('o \<Rightarrow> 'o) \<Rightarrow> string \<Rightarrow>
    'o async_logger \<Rightarrow> 'o async_logger res" where
  "write_section put flush time s =
     bindR (if 25 < length (BuffersWrite s)
            then bindR (put (dropped_text time (length (BuffersWrite s) - 2)) (log_output s))
                   (\<lambda>out. Inr (s\<lparr>log_output := out, BuffersWrite := take 2 (BuffersWrite s), dropped := True\<rparr>))
            else Inr s) (\<lambda>s.
     bindR (foldR (\<lambda>p out. bindR (deref_buffer p) (\<lambda>b. put (take (fb_length b) (fb_data b)) out))
              (BuffersWrite s) (log_output s)) (\<lambda>out.
       let s = s\<lparr>log_output := out\<rparr>;
           s = (if 2 < length (BuffersWrite s) then s\<lparr>BuffersWrite := take 2 (BuffersWrite s)\<rparr> else s)
       in bindR (recycle (buffer1 s) (BuffersWrite s)) (\<lambda>(b1, bufs).
          bindR (recycle (buffer2 s) bufs) (\<lambda>(b2, bufs).
            Inr (s\<lparr>buffer1 := b1, buffer2 := b2, BuffersWrite := [], log_output := flush (log_output s)\<rparr>)))))"

section \<open>Steps\<close>

text \<open>
  \<open>step_append\<close> is a whole call of \<^verbatim>\<open>append\<close> by any thread; its length is that of a
  readable message. A fault of an operation has no step here: that there is none is a theorem.
\<close>

definition accepts :: "char list \<Rightarrow> char list \<Rightarrow> 32 word \<Rightarrow> string" where
  "accepts memory msg len = (if size_of_int len < length memory then take (size_of_int len) msg else [])"

inductive async_step :: "char list \<Rightarrow> (string \<Rightarrow> 'o \<Rightarrow> 'o res) \<Rightarrow> ('o \<Rightarrow> 'o) \<Rightarrow>
    'o async_logger \<Rightarrow> 'o async_logger \<Rightarrow> bool" for memory put flush where
  step_append: "size_of_int len \<le> length msg \<Longrightarrow> append_async memory msg len s = Inr s' \<Longrightarrow>
    async_step memory put flush s (s'\<lparr>accepted := accepted s @ accepts memory msg len\<rparr>)"
| step_start: "log_pc s = LogNotStarted \<Longrightarrow>
    async_step memory put flush s (enter_StartLog memory s\<lparr>running := True, log_pc := AtRunningTest\<rparr>)"
| step_stop: "log_pc s \<noteq> LogNotStarted \<Longrightarrow> async_step memory put flush s (s\<lparr>running := False\<rparr>)"
| step_test: "log_pc s = AtRunningTest \<Longrightarrow> async_step memory put flush s
    (if running s then s\<lparr>log_pc := AtSwapSection\<rparr>
     else s\<lparr>log_pc := LogFinished, log_output := flush (log_output s)\<rparr>)"
| step_swap: "log_pc s = AtSwapSection \<Longrightarrow>
    async_step memory put flush s (swap_section s\<lparr>log_pc := AtWriting\<rparr>)"
| step_write: "log_pc s = AtWriting \<Longrightarrow> write_section put flush time s = Inr s' \<Longrightarrow>
    async_step memory put flush s (s'\<lparr>log_pc := AtRunningTest\<rparr>)"

text \<open>
  The destructor calls \<^verbatim>\<open>stop\<close> if the logger runs: it clears the flag, as \<open>step_stop\<close> does,
  and waits in \<^verbatim>\<open>join\<close> for the thread's end.
\<close>

definition delete_AsyncLogger :: "'o async_logger \<Rightarrow> 'o async_logger" where
  "delete_AsyncLogger s = (if running s then s\<lparr>running := False\<rparr> else s)"

definition reachable_logger :: "char list \<Rightarrow> (string \<Rightarrow> 'o \<Rightarrow> 'o res) \<Rightarrow> ('o \<Rightarrow> 'o) \<Rightarrow> 'o \<Rightarrow>
    'o async_logger \<Rightarrow> bool" where
  "reachable_logger memory put flush out s \<longleftrightarrow>
     (async_step memory put flush)\<^sup>*\<^sup>* (new_AsyncLogger memory out) s"

section \<open>The invariant\<close>

text \<open>The text of a list of buffers.\<close>

fun buffers_text :: "fixed_buffer option list \<Rightarrow> string" where
  "buffers_text [] = []"
| "buffers_text (None # bs) = buffers_text bs"
| "buffers_text (Some b # bs) = fb_toString b @ buffers_text bs"

lemma buffers_text_append [simp]: "buffers_text (xs @ ys) = buffers_text xs @ buffers_text ys"
  by (induction xs rule: buffers_text.induct) simp_all

definition good_buffer :: "nat \<Rightarrow> fixed_buffer option \<Rightarrow> bool" where
  "good_buffer n p \<longleftrightarrow> (\<exists>b. p = Some b \<and> fb_inv b \<and> length (fb_data b) = n)"

definition spare_buffer :: "nat \<Rightarrow> fixed_buffer option \<Rightarrow> bool" where
  "spare_buffer n p \<longleftrightarrow> good_buffer n p \<and> buffers_text [p] = []"

text \<open>What holds of the variables all threads share, whenever no thread is in its critical section.\<close>

definition shared_ok :: "nat \<Rightarrow> 'o async_logger \<Rightarrow> bool" where
  "shared_ok n s \<longleftrightarrow> good_buffer n (CurrentBuffer s) \<and> (\<forall>p\<in>set (buffers s). good_buffer n p) \<and>
     (if NextBuffer s = None then buffers s \<noteq> [] else spare_buffer n (NextBuffer s))"

text \<open>What holds of the thread's own variables, by where it is.\<close>

definition thread_ok :: "nat \<Rightarrow> 'o async_logger \<Rightarrow> bool" where
  "thread_ok n s \<longleftrightarrow> (case log_pc s of
      LogNotStarted \<Rightarrow> BuffersWrite s = []
    | AtWriting \<Rightarrow> buffer1 s = None \<and> (\<forall>p\<in>set (BuffersWrite s). good_buffer n p) \<and>
        (if buffer2 s = None then 2 \<le> length (BuffersWrite s)
         else spare_buffer n (buffer2 s) \<and> 1 \<le> length (BuffersWrite s))
    | _ \<Rightarrow> BuffersWrite s = [] \<and> spare_buffer n (buffer1 s) \<and> spare_buffer n (buffer2 s))"

text \<open>The text accepted and not written yet, in order.\<close>

definition pending :: "'o async_logger \<Rightarrow> string" where
  "pending s = buffers_text (BuffersWrite s) @ buffers_text (buffers s) @ buffers_text [CurrentBuffer s]"

lemma frame_simps [simp]:
  "shared_ok n (s\<lparr>accepted := a\<rparr>) = shared_ok n s" "shared_ok n (s\<lparr>log_pc := l\<rparr>) = shared_ok n s"
  "shared_ok n (s\<lparr>running := r\<rparr>) = shared_ok n s" "shared_ok n (s\<lparr>log_output := out\<rparr>) = shared_ok n s"
  "thread_ok n (s\<lparr>accepted := a\<rparr>) = thread_ok n s" "thread_ok n (s\<lparr>running := r\<rparr>) = thread_ok n s"
  "thread_ok n (s\<lparr>log_output := out\<rparr>) = thread_ok n s"
  "pending (s\<lparr>accepted := a\<rparr>) = pending s" "pending (s\<lparr>log_pc := l\<rparr>) = pending s"
  "pending (s\<lparr>running := r\<rparr>) = pending s" "pending (s\<lparr>log_output := out\<rparr>) = pending s"
  by (simp_all add: shared_ok_def thread_ok_def pending_def cong: logging_pc.case_cong if_cong)

lemma good_bufferE:
  assumes "good_buffer n p"
  obtains b where "p = Some b" and "fb_inv b" and "length (fb_data b) = n"
  using assms by (auto simp: good_buffer_def)

lemma spare_bufferE:
  assumes "spare_buffer n p"
  obtains b where "p = Some b" and "fb_inv b" and "length (fb_data b) = n" and "fb_toString b = []"
    and "FreeSize b = n"
proof -
  from assms obtain b where b: "p = Some b" "fb_inv b" "length (fb_data b) = n" "fb_toString b = []"
    by (auto simp: spare_buffer_def good_buffer_def)
  then have "cur b = 0" using fb_simps(7) [of b] by simp
  with b that show thesis by (simp add: FreeSize_eq)
qed

lemma spare_new: "0 < length memory \<Longrightarrow> length memory \<le> max_size \<Longrightarrow>
    spare_buffer (length memory) (Some (new_FixedBuffer memory)) \<and>
    spare_buffer (length memory) (Some (new_buffer memory))"
  using new_FixedBuffer_inv [of memory]
  by (simp add: spare_buffer_def good_buffer_def new_buffer_def)
    (simp add: fb_toString_def fb_length_def fb_bzero_def new_FixedBuffer_def)

lemma spare_reset: "good_buffer n (Some b) \<Longrightarrow> spare_buffer n (Some (fb_reset b))"
  by (simp add: spare_buffer_def good_buffer_def)

lemma spare_good: "spare_buffer n p \<Longrightarrow> good_buffer n p"
  by (simp add: spare_buffer_def)

text \<open>An append to a buffer that does not overflow it, and one to an empty buffer.\<close>

lemma append_room:
  assumes "fb_inv b" and "length (fb_data b) = n" and "size_of_int len \<le> length msg"
    and "size_of_int len < FreeSize b"
  shows "\<exists>b'. fb_append msg (size_of_int len) b = Inr b' \<and> good_buffer n (Some b') \<and>
    fb_toString b' = fb_toString b @ take (size_of_int len) msg"
  using fb_append_cases [OF assms(1,3)] assms(2,4) by (auto simp: gained_def good_buffer_def)

lemma append_spare:
  assumes "spare_buffer n (Some b)" and "size_of_int len \<le> length msg"
  shows "\<exists>b'. fb_append msg (size_of_int len) b = Inr b' \<and> good_buffer n (Some b') \<and>
    fb_toString b' = (if size_of_int len < n then take (size_of_int len) msg else [])"
proof -
  from spare_bufferE [OF assms(1)] have b: "fb_inv b" "length (fb_data b) = n" "fb_toString b = []"
    "FreeSize b = n" by auto
  show ?thesis
    using fb_append_cases [OF b(1) assms(2)] b append_room [OF b(1,2) assms(2)]
    by (cases "size_of_int len < n") (auto simp: good_buffer_def)
qed

section \<open>Each step keeps it\<close>

definition same_thread :: "'o async_logger \<Rightarrow> 'o async_logger \<Rightarrow> bool" where
  "same_thread s s' \<longleftrightarrow> log_pc s' = log_pc s \<and> buffer1 s' = buffer1 s \<and> buffer2 s' = buffer2 s \<and>
     BuffersWrite s' = BuffersWrite s \<and> log_output s' = log_output s \<and> dropped s' = dropped s \<and>
     accepted s' = accepted s \<and> running s' = running s"

lemma same_thread_ok: "same_thread s s' \<Longrightarrow> thread_ok n s' = thread_ok n s"
  unfolding thread_ok_def same_thread_def by (elim conjE) (simp only:)

lemma append_async_ok:
  assumes ok: "shared_ok (length memory) s" and mem: "0 < length memory" "length memory \<le> max_size"
    and len: "size_of_int len \<le> length msg"
  shows "\<exists>s'. append_async memory msg len s = Inr s' \<and> shared_ok (length memory) s' \<and> same_thread s s' \<and>
    pending s' = pending s @ accepts memory msg len"
proof -
  from ok obtain cb where cb: "CurrentBuffer s = Some cb" "fb_inv cb" "length (fb_data cb) = length memory"
    by (auto simp: shared_ok_def elim: good_bufferE)
  show ?thesis
  proof (cases "size_of_int len < FreeSize cb")
    case True
    from append_room [OF cb(2,3) len True] obtain b'
      where b': "fb_append msg (size_of_int len) cb = Inr b'" "good_buffer (length memory) (Some b')"
        "fb_toString b' = fb_toString cb @ take (size_of_int len) msg" by blast
    have "size_of_int len < length memory" using True cb by (simp add: FreeSize_eq)
    with b' cb True ok show ?thesis
      by (simp add: append_async_def deref_buffer_def shared_ok_def same_thread_def pending_def accepts_def)
  next
    case False
    let ?cb = "if NextBuffer s \<noteq> None then NextBuffer s else Some (new_FixedBuffer memory)"
    have spare: "spare_buffer (length memory) ?cb" using ok spare_new [OF mem] by (simp add: shared_ok_def)
    then obtain b where b: "?cb = Some b" by (auto elim: spare_bufferE)
    from append_spare [of "length memory" b len msg] spare len b obtain b'
      where b': "fb_append msg (size_of_int len) b = Inr b'" "good_buffer (length memory) (Some b')"
        "fb_toString b' = accepts memory msg len" by (auto simp: accepts_def)
    let ?s = "s\<lparr>buffers := buffers s @ [Some cb], NextBuffer := None, CurrentBuffer := Some b'\<rparr>"
    have "append_async memory msg len s = Inr ?s"
      using False cb(1) b b'(1) by (cases "NextBuffer s") (simp_all add: append_async_def deref_buffer_def Let_def)
    moreover have "shared_ok (length memory) ?s"
      using ok cb b'(2) by (auto simp: shared_ok_def good_buffer_def)
    ultimately show ?thesis using cb(1) b'(3) by (simp add: same_thread_def pending_def)
  qed
qed

lemma swap_section_ok:
  assumes "shared_ok n s" and "thread_ok n s" and "log_pc s = AtSwapSection"
  shows "shared_ok n (swap_section s)" and "thread_ok n (swap_section s\<lparr>log_pc := AtWriting\<rparr>)"
    and "pending (swap_section s) = pending s"
proof -
  have t: "BuffersWrite s = []" "spare_buffer n (buffer1 s)" "spare_buffer n (buffer2 s)"
    using assms(2,3) by (simp_all add: thread_ok_def)
  then have "buffer2 s \<noteq> None" "buffers_text [buffer1 s] = []"
    by (auto simp: spare_buffer_def good_buffer_def)
  with t assms(1) show "shared_ok n (swap_section s)" "thread_ok n (swap_section s\<lparr>log_pc := AtWriting\<rparr>)"
    "pending (swap_section s) = pending s"
    by (auto simp: swap_section_def shared_ok_def thread_ok_def pending_def spare_good Let_def Suc_le_eq)
qed

text \<open>Recycling needs as many buffers as there are spares missing.\<close>

lemma recycle_ok:
  assumes "\<forall>p\<in>set bufs. good_buffer n p" and "spare = None \<Longrightarrow> bufs \<noteq> []"
    and "spare \<noteq> None \<Longrightarrow> spare_buffer n spare"
  shows "\<exists>b. recycle spare bufs = Inr (b, if spare = None then butlast bufs else bufs) \<and> spare_buffer n b"
proof (cases "spare = None")
  case True
  with assms(2) have "last bufs \<in> set bufs" by simp
  with assms(1) obtain b where "last bufs = Some b" "good_buffer n (Some b)"
    by (metis good_bufferE)
  with True assms(2) show ?thesis by (simp add: recycle_def deref_buffer_def spare_reset)
qed (use assms(3) in \<open>auto simp: recycle_def\<close>)

text \<open>
  The invariant of the logger over its sink: what has been written and what is pending is what
  was there and what was accepted, as long as no buffers were dropped.
\<close>

definition async_inv :: "('o \<Rightarrow> bool) \<Rightarrow> ('o \<Rightarrow> string) \<Rightarrow> nat \<Rightarrow> 'o \<Rightarrow> 'o async_logger \<Rightarrow> bool" where
  "async_inv ready written n out s \<longleftrightarrow> shared_ok n s \<and> thread_ok n s \<and> ready (log_output s) \<and>
     (\<not> dropped s \<longrightarrow> written (log_output s) @ pending s = written out @ accepted s)"

text \<open>The writing thread as a client of its sink.\<close>

context log_sink
begin

lemma put_buffers:
  "ready out \<Longrightarrow> \<forall>p\<in>set bufs. good_buffer n p \<Longrightarrow>
     \<exists>out'. foldR (\<lambda>p out. bindR (deref_buffer p) (\<lambda>b. put (take (fb_length b) (fb_data b)) out)) bufs out =
       Inr out' \<and> ready out' \<and> written out' = written out @ buffers_text bufs"
proof (induction bufs arbitrary: out)
  case (Cons p bufs)
  then obtain b where p: "p = Some b" by (auto simp: good_buffer_def)
  from put_law [OF Cons.prems(1), of "fb_toString b"] obtain t
    where t: "put (fb_toString b) out = Inr t" "ready t" "written t = written out @ fb_toString b" by blast
  from Cons.IH [OF t(2)] Cons.prems(2) t p show ?case
    by (auto simp: deref_buffer_def fb_toString_def)
qed simp

lemma write_section_ok:
  assumes "thread_ok n s" and "log_pc s = AtWriting" and "ready (log_output s)"
  shows "\<exists>s'. write_section put flush time s = Inr s' \<and> thread_ok n (s'\<lparr>log_pc := AtRunningTest\<rparr>) \<and>
    ready (log_output s') \<and> dropped s' = (dropped s \<or> 25 < length (BuffersWrite s)) \<and>
    (\<not> dropped s' \<longrightarrow> written (log_output s') = written (log_output s) @ buffers_text (BuffersWrite s)) \<and>
    CurrentBuffer s' = CurrentBuffer s \<and> NextBuffer s' = NextBuffer s \<and> buffers s' = buffers s \<and>
    BuffersWrite s' = [] \<and> accepted s' = accepted s"
proof -
  let ?big = "25 < length (BuffersWrite s)"
  let ?bw = "if ?big then take 2 (BuffersWrite s) else BuffersWrite s"
  let ?bw2 = "take 2 (BuffersWrite s)"
  have t: "buffer1 s = None" "\<forall>p\<in>set (BuffersWrite s). good_buffer n p"
    "if buffer2 s = None then 2 \<le> length (BuffersWrite s)
     else spare_buffer n (buffer2 s) \<and> 1 \<le> length (BuffersWrite s)"
    using assms(1) unfolding thread_ok_def assms(2) logging_pc.case by blast+
  have good: "\<forall>p\<in>set ?bw. good_buffer n p" "\<forall>p\<in>set ?bw2. good_buffer n p"
    using t(2) by (auto dest: in_set_takeD)
  obtain out0 where out0: "(if ?big then put (dropped_text time (length (BuffersWrite s) - 2)) (log_output s)
      else Inr (log_output s)) = Inr out0" "ready out0" "\<not> ?big \<longrightarrow> out0 = log_output s"
    using put_law [OF assms(3), of "dropped_text time (length (BuffersWrite s) - 2)"] assms(3)
    by (cases ?big) (simp only: if_True if_False, blast)+
  from put_buffers [OF out0(2) good(1)] obtain out1
    where out1: "foldR (\<lambda>p out. bindR (deref_buffer p) (\<lambda>b. put (take (fb_length b) (fb_data b)) out)) ?bw out0
        = Inr out1" "ready out1" "written out1 = written out0 @ buffers_text ?bw" by blast
  have bw2: "(if 2 < length ?bw then take 2 ?bw else ?bw) = ?bw2" by (simp add: min_def)
  have n1: "?bw2 \<noteq> []" using t(3) by (auto split: if_splits)
  from recycle_ok [OF good(2), of None] n1 obtain b1
    where b1: "recycle None ?bw2 = Inr (b1, butlast ?bw2)" "spare_buffer n b1" by auto
  have "buffer2 s = None \<Longrightarrow> butlast ?bw2 \<noteq> []"
    using t(3) by (cases "BuffersWrite s"; cases "tl (BuffersWrite s)") auto
  moreover have "\<forall>p\<in>set (butlast ?bw2). good_buffer n p" using good(2) by (auto dest: in_set_butlastD)
  moreover have "buffer2 s \<noteq> None \<Longrightarrow> spare_buffer n (buffer2 s)" using t(3) by simp
  ultimately obtain b2 bufs where b2: "recycle (buffer2 s) (butlast ?bw2) = Inr (b2, bufs)" "spare_buffer n b2"
    using recycle_ok by meson
  let ?s = "s\<lparr>buffer1 := b1, buffer2 := b2, BuffersWrite := [], log_output := flush out1,
    dropped := (dropped s \<or> ?big)\<rparr>"
  have "write_section put flush time s = Inr ?s"
  proof (cases ?big)
    case True
    then show ?thesis using out0(1) out1(1) b1(1) b2(1) t(1) bw2
      by (simp add: write_section_def Let_def)
  next
    case False
    then show ?thesis using out0(1) out1(1) b1(1) b2(1) t(1) bw2
      by (cases "2 < length (BuffersWrite s)") (simp_all add: write_section_def Let_def)
  qed
  moreover have "ready (flush out1)" "written (flush out1) = written out1" using flush_law [OF out1(2)] by auto
  ultimately show ?thesis
    using b1(2) b2(2) out0(3) out1(3) by (auto simp: thread_ok_def)
qed

lemma async_inv_initial:
  assumes "0 < length memory" and "length memory \<le> max_size" and "ready out"
  shows "async_inv ready written (length memory) out (new_AsyncLogger memory out)"
proof -
  have "spare_buffer (length memory) (Some (new_buffer memory))" using spare_new [OF assms(1,2)] by blast
  then show ?thesis using assms(3)
    by (auto simp: async_inv_def new_AsyncLogger_def shared_ok_def thread_ok_def pending_def spare_buffer_def)
qed

lemma async_step_inv:
  assumes inv: "async_inv ready written (length memory) out s"
    and mem: "0 < length memory" "length memory \<le> max_size"
    and step: "async_step memory put flush s s'"
  shows "async_inv ready written (length memory) out s'"
  using step
proof cases
  case (step_append len msg t)
  have "shared_ok (length memory) s" using inv by (simp add: async_inv_def)
  from append_async_ok [OF this mem step_append(2)] step_append(3)
  have t: "shared_ok (length memory) t" "same_thread s t" "pending t = pending s @ accepts memory msg len"
    by auto
  then have "thread_ok (length memory) t" using inv by (simp add: async_inv_def same_thread_ok)
  moreover have "dropped t = dropped s" "log_output t = log_output s" using t(2) by (simp_all add: same_thread_def)
  ultimately show ?thesis using t inv unfolding step_append(1) by (simp add: async_inv_def)
next
  case step_start
  have "spare_buffer (length memory) (Some (new_buffer memory))" using spare_new [OF mem] by blast
  with inv step_start(2) show ?thesis unfolding step_start(1)
    by (auto simp: async_inv_def shared_ok_def thread_ok_def pending_def enter_StartLog_def)
next
  case step_stop
  with inv show ?thesis by (simp add: async_inv_def)
next
  case step_test
  with inv flush_law [of "log_output s"] show ?thesis
    by (auto simp: async_inv_def) (simp_all add: thread_ok_def)
next
  case step_swap
  from inv have ok: "shared_ok (length memory) s" "thread_ok (length memory) s" by (simp_all add: async_inv_def)
  note sw = swap_section_ok [OF ok step_swap(2)]
  have same: "log_output (swap_section s) = log_output s" "dropped (swap_section s) = dropped s"
    "accepted (swap_section s) = accepted s" by (simp_all add: swap_section_def Let_def)
  have "shared_ok (length memory) (swap_section s\<lparr>log_pc := AtWriting\<rparr>)"
    "pending (swap_section s\<lparr>log_pc := AtWriting\<rparr>) = pending s"
    using sw(1,3) by (simp_all add: shared_ok_def pending_def)
  with sw(2) inv same show ?thesis unfolding step_swap(1) by (simp add: async_inv_def)
next
  case (step_write time t)
  from write_section_ok [of "length memory" s time] inv step_write(2,3)
  have t: "thread_ok (length memory) (t\<lparr>log_pc := AtRunningTest\<rparr>)" "ready (log_output t)"
    "\<not> dropped t \<longrightarrow> \<not> dropped s \<and> written (log_output t) = written (log_output s) @ buffers_text (BuffersWrite s)"
    "CurrentBuffer t = CurrentBuffer s" "NextBuffer t = NextBuffer s" "buffers t = buffers s"
    "BuffersWrite t = []" "accepted t = accepted s" by (auto simp: async_inv_def)
  then show ?thesis using inv unfolding step_write(1)
    by (auto simp: async_inv_def shared_ok_def pending_def)
qed

lemma reachable_logger_inv:
  assumes "reachable_logger memory put flush out s" and "0 < length memory" and "length memory \<le> max_size"
    and "ready out"
  shows "async_inv ready written (length memory) out s"
  using assms(1) unfolding reachable_logger_def
  by (induction rule: rtranclp_induct)
    (use async_inv_initial [where memory = memory] async_step_inv assms(2-4) in blast)+

text \<open>One round of the writing thread puts everything accepted into the sink.\<close>

lemma round_writes:
  assumes inv: "async_inv ready written (length memory) out s" and mem: "0 < length memory" "length memory \<le> max_size"
    and at: "log_pc s = AtRunningTest" "running s" and few: "\<not> dropped s" "length (buffers s) < 25"
  obtains s1 s2 s3 where "async_step memory put flush s s1" and "async_step memory put flush s1 s2"
    and "async_step memory put flush s2 s3" and "accepted s1 = accepted s" and "accepted s2 = accepted s"
    and "accepted s3 = accepted s" and "written (log_output s3) = written out @ accepted s" and "log_pc s3 = AtRunningTest"
proof -
  let ?s1 = "s\<lparr>log_pc := AtSwapSection\<rparr>"
  let ?s2 = "swap_section ?s1\<lparr>log_pc := AtWriting\<rparr>"
  have step1: "async_step memory put flush s ?s1" using step_test [OF at(1)] at(2) by simp
  have step2: "async_step memory put flush ?s1 ?s2" by (rule step_swap) simp
  note inv2 = async_step_inv [OF async_step_inv [OF inv mem step1] mem step2]
  have s: "BuffersWrite s = []" "buffers_text [buffer1 s] = []"
    using inv at(1) by (simp_all add: async_inv_def thread_ok_def spare_buffer_def)
  have s2: "accepted ?s2 = accepted s" "dropped ?s2 = dropped s" "length (BuffersWrite ?s2) = Suc (length (buffers s))"
    "buffers ?s2 = []" "CurrentBuffer ?s2 = buffer1 s"
    using s(1) by (simp_all add: swap_section_def Let_def)
  have "thread_ok (length memory) ?s2" "ready (log_output ?s2)" using inv2 by (simp_all add: async_inv_def)
  from write_section_ok [OF this(1) _ this(2), of "[]"] s2 few obtain s3 where
    s3: "write_section put flush [] ?s2 = Inr s3" "\<not> dropped s3" "CurrentBuffer s3 = buffer1 s" "buffers s3 = []"
      "BuffersWrite s3 = []" "accepted s3 = accepted s" by auto
  let ?s3 = "s3\<lparr>log_pc := AtRunningTest\<rparr>"
  have step3: "async_step memory put flush ?s2 ?s3" by (rule step_write [OF _ s3(1)]) simp
  have "pending ?s3 = []" using s3(3-5) s(2) by (simp add: pending_def)
  with async_step_inv [OF inv2 mem step3] s3(2,6)
  have "written (log_output ?s3) = written out @ accepted s" by (simp add: async_inv_def)
  with that [OF step1 step2 step3] s2(1) s3(6) show thesis by simp
qed

end

text \<open>
  C18. Every state the logger and its threads reach over a usable log file: an append of a readable
  message returns, and so does the writing thread's work; no null buffer is ever dereferenced
  and no spare buffer taken from an empty vector.
\<close>

theorem async_logger_safe:
  assumes "reachable_logger memory (append_file sys) flush_file out s"
    and "0 < length memory" and "length memory \<le> max_size" and "log_ready sys out"
    and "size_of_int len \<le> length msg"
  shows "(\<exists>s'. append_async memory msg len s = Inr s') \<and>
    (log_pc s = AtWriting \<longrightarrow> (\<exists>s'. write_section (append_file sys) flush_file time s = Inr s'))"
proof -
  from log_file.reachable_logger_inv [OF assms(1-4)]
  have inv: "shared_ok (length memory) s" "thread_ok (length memory) s" "log_ready sys (log_output s)"
    by (simp_all add: async_inv_def)
  from append_async_ok [OF inv(1) assms(2,3,5)] log_file.write_section_ok [OF inv(2) _ inv(3)]
  show ?thesis by blast
qed

text \<open>
  Nothing is lost or reordered on the way to the file: as long as the thread has not dropped
  buffers, what the log file was given followed by what waits in the buffers (those being
  written, those filled, the current one) is what the calls of \<^verbatim>\<open>append\<close> handed over, in
  their order.
\<close>

theorem async_logger_order:
  assumes "reachable_logger memory (append_file sys) flush_file out s"
    and "0 < length memory" and "length memory \<le> max_size" and "log_ready sys out"
    and "\<not> dropped s"
  shows "log_text (log_output s) @ pending s = log_text out @ accepted s"
  using log_file.reachable_logger_inv [OF assms(1-4)] assms(5) by (simp add: async_inv_def)

text \<open>
  C40. \<^verbatim>\<open>stop\<close> loses the last messages. Once the writing thread has seen
  \<^verbatim>\<open>running_\<close> false it writes nothing any more, and it does not look at the buffers before:
  there is a run that starts the logger, hands it any message that fits into a buffer, stops it,
  and ends with the message in the current buffer and the file as it was.
\<close>

theorem stop_loses_messages:
  assumes "0 < length memory" and "length memory \<le> max_size"
    and "size_of_int len = length msg" and "length msg < length memory"
  shows "\<exists>s. reachable_logger memory (append_file sys) flush_file out s \<and> log_pc s = LogFinished \<and>
    accepted s = msg \<and> pending s = msg \<and>
    (\<forall>s'. (async_step memory (append_file sys) flush_file)\<^sup>*\<^sup>* s s' \<longrightarrow> log_output s' = out)"
proof -
  let ?step = "async_step memory (append_file sys) flush_file"
  let ?s1 = "enter_StartLog memory (new_AsyncLogger memory out)\<lparr>running := True, log_pc := AtRunningTest\<rparr>"
  have "?step (new_AsyncLogger memory out) ?s1" by (rule step_start) (simp add: new_AsyncLogger_def)
  then have r1: "?step\<^sup>*\<^sup>* (new_AsyncLogger memory out) ?s1" by (rule r_into_rtranclp)
  have spare: "spare_buffer (length memory) (Some (new_buffer memory))"
    using spare_new [OF assms(1,2)] by blast
  then have ok: "shared_ok (length memory) ?s1"
    by (simp add: shared_ok_def enter_StartLog_def new_AsyncLogger_def spare_good)
  have fits: "accepts memory msg len = msg" using assms(3,4) by (simp add: accepts_def)
  from append_async_ok [OF ok assms(1,2), of len msg] assms(3) obtain s2
    where s2: "append_async memory msg len ?s1 = Inr s2" "same_thread ?s1 s2"
      "pending s2 = pending ?s1 @ msg" by (auto simp: fits)
  have p1: "pending ?s1 = []" "accepted ?s1 = []" "log_pc ?s1 = AtRunningTest" "log_output ?s1 = out"
    using spare by (simp_all add: pending_def enter_StartLog_def new_AsyncLogger_def spare_buffer_def)
  let ?s2 = "s2\<lparr>accepted := accepted ?s1 @ accepts memory msg len\<rparr>"
  have "?step ?s1 ?s2" using assms(3) s2(1) by (intro step_append) simp_all
  with r1 have r2: "?step\<^sup>*\<^sup>* (new_AsyncLogger memory out) ?s2" by (rule rtranclp.rtrancl_into_rtrancl)
  have pc2: "log_pc s2 = AtRunningTest" "log_output s2 = out" using s2(2) p1 by (simp_all add: same_thread_def)
  let ?s3 = "?s2\<lparr>running := False\<rparr>"
  have "?step ?s2 ?s3" by (rule step_stop) (simp add: pc2)
  with r2 have r3: "?step\<^sup>*\<^sup>* (new_AsyncLogger memory out) ?s3" by (rule rtranclp.rtrancl_into_rtrancl)
  let ?s4 = "?s3\<lparr>log_pc := LogFinished, log_output := flush_file (log_output ?s3)\<rparr>"
  have "?step ?s3 ?s4" using step_test [of ?s3] by (simp add: pc2)
  with r3 have r4: "?step\<^sup>*\<^sup>* (new_AsyncLogger memory out) ?s4" by (rule rtranclp.rtrancl_into_rtrancl)
  have "log_pc s' = LogFinished \<and> log_output s' = out" if "?step\<^sup>*\<^sup>* ?s4 s'" for s'
    using that
  proof (induction rule: rtranclp_induct)
    case base
    then show ?case by (simp add: flush_file_def pc2)
  next
    case (step t u)
    from step(2,3) show ?case
      by cases (auto simp: append_async_def deref_buffer_def Let_def split: option.splits if_splits)
  qed
  moreover have "accepted ?s4 = msg" "pending ?s4 = msg"
    using fits p1 s2(3) by (simp_all add: pending_def)
  ultimately show ?thesis using r4 unfolding reachable_logger_def
    by (intro exI [of _ ?s4]) simp
qed

lemma delete_AsyncLogger_step:
  "log_pc s \<noteq> LogNotStarted \<Longrightarrow> running s \<Longrightarrow> async_step memory put flush s (delete_AsyncLogger s)"
  by (simp add: delete_AsyncLogger_def step_stop)

text \<open>
  The destructor returns: once the flag is cleared, the writing thread comes to its end in at most
  three of its steps, whatever it was doing, so that the join does not wait for ever.
\<close>

theorem destructor_joins_writer:
  assumes "reachable_logger memory (append_file sys) flush_file out s"
    and "0 < length memory" and "length memory \<le> max_size" and "log_ready sys out" and "log_pc s \<noteq> LogNotStarted"
  shows "\<exists>s' n. n \<le> 3 \<and> (async_step memory (append_file sys) flush_file ^^ n) (delete_AsyncLogger s) s' \<and> log_pc s' = LogFinished"
proof -
  let ?step = "async_step memory (append_file sys) flush_file"
  note inv = log_file.async_step_inv [OF _ assms(2,3)]
  define d where "d = delete_AsyncLogger s"
  have d: "\<not> running d" "log_pc d = log_pc s" by (simp_all add: d_def delete_AsyncLogger_def)
  have inv_d: "async_inv (log_ready sys) log_text (length memory) out d"
    using log_file.reachable_logger_inv [OF assms(1-4)] by (simp add: d_def delete_AsyncLogger_def async_inv_def)
  have test: "\<exists>t. ?step u t \<and> log_pc t = LogFinished" if "log_pc u = AtRunningTest" "\<not> running u" for u :: "log_file async_logger"
    using step_test [OF that(1), of memory "append_file sys" flush_file] that(2)
    by (intro exI [of _ "u\<lparr>log_pc := LogFinished, log_output := flush_file (log_output u)\<rparr>"]) simp
  have written: "\<exists>t t'. ?step u t \<and> ?step t t' \<and> log_pc t' = LogFinished"
    if u: "log_pc u = AtWriting" "\<not> running u" "async_inv (log_ready sys) log_text (length memory) out u" for u
  proof -
    from log_file.write_section_ok [of "length memory" u _ "[]"] u obtain v where v: "write_section (append_file sys) flush_file [] u = Inr v"
      by (auto simp: async_inv_def)
    then have "running v = running u" by (auto simp: write_section_def Let_def bindR_def split: if_splits sum.splits prod.splits)
    with test [of "v\<lparr>log_pc := AtRunningTest\<rparr>"] step_write [OF u(1) v] u(2) show ?thesis by auto
  qed
  consider "log_pc d = LogFinished" | "log_pc d = AtRunningTest" | "log_pc d = AtSwapSection" | "log_pc d = AtWriting"
    using assms(5) d(2) by (cases "log_pc d") auto
  then have "\<exists>s' n. n \<le> 3 \<and> (?step ^^ n) d s' \<and> log_pc s' = LogFinished"
  proof cases
    case 1
    then show ?thesis by (intro exI [of _ d] exI [of _ 0]) simp
  next
    case 2
    with test [OF _ d(1)] obtain t where "?step d t" "log_pc t = LogFinished" by blast
    then have "(?step ^^ 1) d t" by auto
    with \<open>log_pc t = LogFinished\<close> show ?thesis by (intro exI [of _ t] exI [of _ 1]) simp
  next
    case 3
    let ?u = "swap_section d\<lparr>log_pc := AtWriting\<rparr>"
    have u: "?step d ?u" by (rule step_swap [OF 3])
    have "\<not> running ?u" using d(1) by (simp add: swap_section_def Let_def)
    with written [of ?u] inv [OF inv_d u] obtain t t' where "?step ?u t" "?step t t'" "log_pc t' = LogFinished" by auto
    with u have "(?step ^^ 3) d t'" by (auto simp: numeral_3_eq_3)
    with \<open>log_pc t' = LogFinished\<close> show ?thesis by blast
  next
    case 4
    with written [OF _ d(1) inv_d] obtain t t' where "?step d t" "?step t t'" "log_pc t' = LogFinished" by blast
    then have "(?step ^^ 2) d t'" by (auto simp: numeral_2_eq_2)
    with \<open>log_pc t' = LogFinished\<close> show ?thesis by (intro exI [of _ t'] exI [of _ 2]) simp
  qed
  then show ?thesis by (simp add: d_def)
qed

section \<open>Instances\<close>

lemma demo_memory: "0 < length (replicate 16 (CHR ''?''))" "length (replicate 16 (CHR ''?'')) \<le> max_size"
  by (simp_all add: max_size_def)

lemma demo_started: "reachable_logger memory put flush out (new_AsyncLogger memory out)"
  by (simp add: reachable_logger_def)

lemma demo_appended:
  "\<exists>s. reachable_logger (replicate 16 (CHR ''?'')) (append_file demo_log_sys) flush_file demo_log s \<and>
     \<not> dropped s \<and> accepted s = ''ab'' \<and> log_output s = demo_log"
proof -
  let ?m = "replicate 16 (CHR ''?'')" and ?s = "new_AsyncLogger (replicate 16 (CHR ''?'')) demo_log"
  have "spare_buffer (length ?m) (Some (new_buffer ?m))" using spare_new [OF demo_memory] by blast
  then have ok: "shared_ok (length ?m) ?s" by (simp add: shared_ok_def new_AsyncLogger_def spare_good)
  have two: "size_of_int 2 = 2" by (simp add: size_of_int_def)
  from append_async_ok [OF ok demo_memory, of 2 "''ab''"] two obtain t
    where t: "append_async ?m ''ab'' 2 ?s = Inr t" "same_thread ?s t" by auto
  have "async_step ?m (append_file demo_log_sys) flush_file ?s (t\<lparr>accepted := accepted ?s @ accepts ?m ''ab'' 2\<rparr>)"
    using t(1) two by (intro step_append) simp_all
  then have "reachable_logger ?m (append_file demo_log_sys) flush_file demo_log
      (t\<lparr>accepted := accepted ?s @ accepts ?m ''ab'' 2\<rparr>)"
    unfolding reachable_logger_def by (rule r_into_rtranclp)
  moreover have "accepts ?m ''ab'' 2 = ''ab''" by (simp add: accepts_def two)
  ultimately show ?thesis using t(2)
    by (intro exI [of _ "t\<lparr>accepted := accepted ?s @ accepts ?m ''ab'' 2\<rparr>"])
      (simp add: same_thread_def new_AsyncLogger_def)
qed

theorem async_logger_safe_witness:
  "\<exists>s'. append_async (replicate 16 (CHR ''?'')) ''ab'' 2
     (new_AsyncLogger (replicate 16 (CHR ''?'')) demo_log) = Inr s'"
  using async_logger_safe [OF demo_started demo_memory demo_log_facts(1), of 2 "''ab''"]
  by (simp add: size_of_int_def)

theorem async_logger_order_witness:
  "\<exists>s. reachable_logger (replicate 16 (CHR ''?'')) (append_file demo_log_sys) flush_file demo_log s \<and>
     pending s = ''ab''"
proof -
  from demo_appended obtain s
    where s: "reachable_logger (replicate 16 (CHR ''?'')) (append_file demo_log_sys) flush_file demo_log s"
      "\<not> dropped s" "accepted s = ''ab''" "log_output s = demo_log" by blast
  from async_logger_order [OF s(1) demo_memory demo_log_facts(1) s(2)] s show ?thesis
    by (auto simp: demo_log_facts)
qed

theorem stop_loses_messages_witness:
  "\<exists>s. reachable_logger (replicate 16 (CHR ''?'')) (append_file demo_log_sys) flush_file demo_log s \<and>
     log_pc s = LogFinished \<and> accepted s = ''ab'' \<and> log_output s = demo_log"
  using stop_loses_messages [OF demo_memory, of 2 "''ab''" demo_log_sys demo_log]
  by (auto simp: size_of_int_def)

theorem destructor_joins_writer_witness:
  "\<exists>s' n. n \<le> 3 \<and> (async_step (replicate 16 (CHR ''?'')) (append_file demo_log_sys) flush_file ^^ n)
     (delete_AsyncLogger (enter_StartLog (replicate 16 (CHR ''?'')) (new_AsyncLogger (replicate 16 (CHR ''?'')) demo_log)
        \<lparr>running := True, log_pc := AtRunningTest\<rparr>)) s' \<and> log_pc s' = LogFinished"
proof -
  let ?m = "replicate 16 (CHR ''?'')"
  have "async_step ?m (append_file demo_log_sys) flush_file (new_AsyncLogger ?m demo_log)
      (enter_StartLog ?m (new_AsyncLogger ?m demo_log)\<lparr>running := True, log_pc := AtRunningTest\<rparr>)"
    by (rule step_start) (simp add: new_AsyncLogger_def)
  then have "reachable_logger ?m (append_file demo_log_sys) flush_file demo_log
      (enter_StartLog ?m (new_AsyncLogger ?m demo_log)\<lparr>running := True, log_pc := AtRunningTest\<rparr>)"
    unfolding reachable_logger_def by (rule r_into_rtranclp)
  from destructor_joins_writer [OF this demo_memory demo_log_facts(1)] show ?thesis by simp
qed

end
