(* ===== verification/Log_Pipeline.thy ===== *)
theory Log_Pipeline
  imports Loggers Async_Logger
begin

text \<open>
  The whole way of a log line: logging statements in any threads build it (\<^verbatim>\<open>Logger\<close>), the
  output function set by \<^verbatim>\<open>Logger::SetOutput\<close> hands it to \<^verbatim>\<open>AsyncLogger::append\<close>, the
  logger's thread writes it to the \<^verbatim>\<open>LogFile\<close>.
\<close>

section \<open>Delivery\<close>

text \<open>
  The output function is the application's: it calls \<^verbatim>\<open>append\<close> with the line and its
  length.
\<close>

fun deliver :: "char list \<Rightarrow> (unit output_fun \<times> string) list \<Rightarrow> 'o async_logger \<Rightarrow> 'o async_logger res" where
  "deliver mem [] s = Inr s"
| "deliver mem ((DefaultOutput, t) # calls) s = deliver mem calls s"
| "deliver mem ((OutputFun u, t) # calls) s =
     (let len = word_of_nat (length t) in
      bindR (append_async mem t len s) (\<lambda>s'. deliver mem calls (s'\<lparr>accepted := accepted s @ accepts mem t len\<rparr>)))"

text \<open>
  A step is a logging statement that does not abort, with the calls of the output function it
  makes, or a step of the logger that is not an append. The stream of a statement has 4096 bytes.
\<close>

inductive pipe_step :: "char list \<Rightarrow> (int \<Rightarrow> tm) \<Rightarrow> ('d \<Rightarrow> string) \<Rightarrow> (string \<Rightarrow> 'o \<Rightarrow> 'o res) \<Rightarrow> ('o \<Rightarrow> 'o) \<Rightarrow>
    (unit, 'f) log_world \<times> 'o async_logger \<Rightarrow> (unit, 'f) log_world \<times> 'o async_logger \<Rightarrow> bool"
  for mem localtime fmt put flush where
  statement: "pipe_step mem localtime fmt put flush (w, s) (w', s')"
    if "length memory = kSmallBuffer"
      and "log_statement localtime fmt now memory src_file line l its w = Inr (False, w')"
      and "deliver mem (drop (length (outputs w)) (outputs w')) s = Inr s'"
| logger: "pipe_step mem localtime fmt put flush (w, s) (w, s')"
    if "async_step mem put flush s s'" and "accepted s' = accepted s"

section \<open>What a statement hands over\<close>

lemma size_of_length:
  assumes "n < 2 ^ 31"
  shows "size_of_int (word_of_nat n) = n"
proof -
  have n: "int n < 2 ^ 31" using assms by simp
  have "signed_take_bit 31 (int n) = int n" by (rule signed_take_bit_int_eq_self [OF _ n]) simp
  then have s: "sint (word_of_nat n :: 32 word) = int n" by (subst signed_of_nat) simp
  have "size_of_int (word_of_nat n) = unat (word_of_int (int n) :: 64 word)"
    unfolding size_of_int_def scast_eq s ..
  also have "\<dots> = nat (take_bit 64 (int n))" by (simp only: unat_eq_nat_uint unsigned_of_int) simp
  also have "take_bit 64 (int n) = int n" by (rule take_bit_int_eq_self) (use n in simp_all)
  finally show ?thesis by simp
qed

lemma statement_outputs:
  assumes "log_statement localtime fmt now memory src_file line l its w = Inr (ab, w')"
    and "length memory = 4096" and "\<forall>v. length (fmt v) < 32"
  shows "g_output w' = g_output w" and "outputs w' = outputs w \<or>
    (\<exists>t. outputs w' = outputs w @ [(g_output w, t)] \<and> length t \<le> 4096)"
proof -
  have "g_output w' = g_output w \<and> (outputs w' = outputs w \<or>
      (\<exists>t. outputs w' = outputs w @ [(g_output w, t)] \<and> length t \<le> 4096))"
  proof (cases "macro_logs l w")
    case True
    have "l \<noteq> LOG_NUM"
      using assms(1) True by (auto simp: log_statement_def new_Logger_def LogLevelName_def)
    note eq = log_statement_items [OF True this, of localtime fmt now memory src_file line its]
    have inv: "fb_inv (new_FixedBuffer memory)"
      using assms(2) by (intro new_FixedBuffer_inv) (simp_all add: max_size_def)
    from assms(1) eq obtain b where
      b: "foldR (put_item fmt) (line_items (ts_toString localtime now) src_file line l its) (new_FixedBuffer memory) = Inr b"
      and w': "w' = w\<lparr>outputs := outputs w @ [(g_output w, fb_toString b)],
        flushes := flushes w @ (if l = FATAL then [g_flush w] else [])\<rparr>" by auto
    from put_items_printed [where fmt = fmt and its = "line_items (ts_toString localtime now) src_file line l its",
        OF inv spec [OF assms(3)]] b
    obtain s where "gained s (new_FixedBuffer memory) b" by (auto split: sum.splits)
    then have "fb_inv b" "length (fb_data b) = 4096"
      using assms(2) by (simp_all add: gained_def new_FixedBuffer_def)
    then have "length (fb_toString b) \<le> 4096" by (simp add: fb_inv_def)
    then show ?thesis by (simp add: w')
  qed (use assms(1) in \<open>simp add: log_statement_def\<close>)
  then show "g_output w' = g_output w" "outputs w' = outputs w \<or>
      (\<exists>t. outputs w' = outputs w @ [(g_output w, t)] \<and> length t \<le> 4096)" by blast+
qed

section \<open>The composed system\<close>

text \<open>What is delivered goes through appends, steps of the logger.\<close>

lemma deliver_steps:
  assumes "deliver mem calls s = Inr s'" and "\<forall>(f, t)\<in>set calls. length t < 2 ^ 31"
  shows "(async_step mem put flush)\<^sup>*\<^sup>* s s'"
  using assms
proof (induction mem calls s rule: deliver.induct)
  case (3 mem u t calls s)
  let ?len = "word_of_nat (length t) :: 32 word"
  from 3(2) obtain s1 where s1: "append_async mem t ?len s = Inr s1"
    "deliver mem calls (s1\<lparr>accepted := accepted s @ accepts mem t ?len\<rparr>) = Inr s'"
    by (auto simp: Let_def)
  have "size_of_int ?len \<le> length t" using 3(3) by (simp add: size_of_length)
  then have "async_step mem put flush s (s1\<lparr>accepted := accepted s @ accepts mem t ?len\<rparr>)"
    using s1(1) by (rule step_append)
  moreover have "(async_step mem put flush)\<^sup>*\<^sup>* (s1\<lparr>accepted := accepted s @ accepts mem t ?len\<rparr>) s'"
    using 3(1) [OF refl s1] 3(3) by simp
  ultimately show ?case by (rule converse_rtranclp_into_rtranclp)
qed auto

lemma deliver_line:
  assumes "shared_ok (length mem) s" and "0 < length mem" and "length mem \<le> max_size" and "length t < 2 ^ 31"
    and "length t < length mem"
  obtains s' where "deliver mem [(OutputFun u, t)] s = Inr s'" and "accepted s' = accepted s @ t"
proof -
  let ?len = "word_of_nat (length t) :: 32 word"
  have len: "size_of_int ?len = length t" using assms(4) by (rule size_of_length)
  obtain s' where s': "append_async mem t ?len s = Inr s'"
    using append_async_ok [OF assms(1-3), of ?len t] len by auto
  have "accepts mem t ?len = t" using assms(5) len by (simp add: accepts_def)
  with s' that show thesis by (simp add: Let_def)
qed

text \<open>
  Between the layers: the logger has accepted exactly the lines handed to the output function, and
  is itself in a state its own threads reach.
\<close>

definition pipe_inv :: "char list \<Rightarrow> (string \<Rightarrow> 'o \<Rightarrow> 'o res) \<Rightarrow> ('o \<Rightarrow> 'o) \<Rightarrow> 'o \<Rightarrow>
    (unit, 'f) log_world \<times> 'o async_logger \<Rightarrow> bool" where
  "pipe_inv mem put flush out ws \<longleftrightarrow> (case ws of (w, s) \<Rightarrow>
     g_output w = OutputFun () \<and> accepted s = concat (map snd (outputs w)) \<and> reachable_logger mem put flush out s)"

lemma pipe_step_inv:
  assumes step: "pipe_step mem localtime fmt (append_file sys) flush_file ws ws'"
    and inv: "pipe_inv mem (append_file sys) flush_file out ws"
    and fmt: "\<forall>v. length (fmt v) < 32" and mem: "4096 < length mem" "length mem \<le> max_size" and out: "log_ready sys out"
  shows "pipe_inv mem (append_file sys) flush_file out ws'"
  using step
proof cases
  case (statement memory now src_file line l its w w' s s')
  have I: "g_output w = OutputFun ()" "accepted s = concat (map snd (outputs w))"
    "reachable_logger mem (append_file sys) flush_file out s" using inv statement(1) by (simp_all add: pipe_inv_def)
  have memory: "length memory = 4096" using statement(3) by (simp add: kSmallBuffer_def)
  note O = statement_outputs [OF statement(4) memory fmt]
  show ?thesis
  proof (cases "outputs w' = outputs w")
    case True
    with statement(5) O(1) I show ?thesis by (simp add: statement(2) pipe_inv_def)
  next
    case False
    with O(2) I(1) obtain t where t: "outputs w' = outputs w @ [(OutputFun (), t)]" "length t \<le> 4096" by auto
    have "0 < length mem" using mem(1) by (rule le_less_trans [OF le0])
    from log_file.reachable_logger_inv [OF I(3) this mem(2) out]
    have "shared_ok (length mem) s" by (simp add: async_inv_def)
    from deliver_line [OF this \<open>0 < length mem\<close> mem(2), of t "()"] t(2) mem(1)
    have "accepted s' = accepted s @ t" using statement(5) t(1) by auto
    moreover have "(async_step mem (append_file sys) flush_file)\<^sup>*\<^sup>* s s'"
      by (rule deliver_steps [OF statement(5)]) (use t in simp)
    ultimately show ?thesis using I O(1) t(1)
      by (auto simp: statement(2) pipe_inv_def reachable_logger_def intro: rtranclp_trans)
  qed
next
  case (logger s s' w)
  with inv show ?thesis by (auto simp: pipe_inv_def reachable_logger_def intro: rtranclp.rtrancl_into_rtrancl)
qed

lemma pipe_reachable_inv:
  assumes "(pipe_step mem localtime fmt (append_file sys) flush_file)\<^sup>*\<^sup>* (w0, new_AsyncLogger mem out) ws"
    and "g_output w0 = OutputFun ()" and "outputs w0 = []" and "\<forall>v. length (fmt v) < 32"
    and "4096 < length mem" and "length mem \<le> max_size" and "log_ready sys out"
  shows "pipe_inv mem (append_file sys) flush_file out ws"
  using assms(1)
proof (induction rule: rtranclp_induct)
  case base
  then show ?case using assms(2,3) by (simp add: pipe_inv_def new_AsyncLogger_def reachable_logger_def)
next
  case (step ws ws')
  from pipe_step_inv [OF step(2,3) assms(4-7)] show ?case .
qed

text \<open>
  C16. From the logging statements to the file. Any threads log, each statement handing its line to
  the asynchronous logger, while the logger's thread works: as long as it has not thrown buffers
  away, what the file was given followed by what waits in the buffers is the lines of the
  statements, whole and in the order of their calls; and whenever a statement has built its line,
  the logger takes it.
\<close>

theorem log_lines_reach_logger:
  assumes "(pipe_step mem localtime fmt (append_file sys) flush_file)\<^sup>*\<^sup>* (w0, new_AsyncLogger mem out) (w, s)"
    and "g_output w0 = OutputFun ()" and "outputs w0 = []" and "\<forall>v. length (fmt v) < 32"
    and "4096 < length mem" and "length mem \<le> max_size" and "log_ready sys out"
  shows "(\<not> dropped s \<longrightarrow> log_text (log_output s) @ pending s = log_text out @ concat (map snd (outputs w))) \<and>
    (length memory = kSmallBuffer \<longrightarrow> log_statement localtime fmt now memory src_file line l its w = Inr (False, w') \<longrightarrow>
       (\<exists>s'. pipe_step mem localtime fmt (append_file sys) flush_file (w, s) (w', s')))"
proof -
  have mem: "0 < length mem" using assms(5) by (rule le_less_trans [OF le0])
  from pipe_reachable_inv [OF assms] have P: "g_output w = OutputFun ()" "accepted s = concat (map snd (outputs w))"
    "reachable_logger mem (append_file sys) flush_file out s" by (simp_all add: pipe_inv_def)
  note inv = log_file.reachable_logger_inv [OF P(3) mem assms(6,7)]
  have "\<exists>s'. pipe_step mem localtime fmt (append_file sys) flush_file (w, s) (w', s')"
    if st: "length memory = kSmallBuffer" "log_statement localtime fmt now memory src_file line l its w = Inr (False, w')"
  proof -
    have "shared_ok (length mem) s" using inv by (simp add: async_inv_def)
    note line = deliver_line [OF this mem assms(6), where u = "()"]
    from statement_outputs(2) [OF st(2) _ assms(4)] st(1) P(1) consider "outputs w' = outputs w"
      | t where "outputs w' = outputs w @ [(OutputFun (), t)]" "length t \<le> 4096" by (auto simp: kSmallBuffer_def)
    then have "\<exists>s'. deliver mem (drop (length (outputs w)) (outputs w')) s = Inr s'"
    proof cases
      case (2 t)
      with line [of t] assms(5) show ?thesis by auto
    qed simp
    with st show ?thesis by (blast intro: statement)
  qed
  with inv P(2) show ?thesis by (simp add: async_inv_def)
qed

text \<open>
  C17. Lines get to the file. Whenever the logger's thread is at the head of its loop, with fewer
  than 25 filled buffers waiting and none thrown away so far, one round of it writes the lines of
  all statements up to then.
\<close>

theorem log_lines_reach_file:
  assumes "(pipe_step mem localtime fmt (append_file sys) flush_file)\<^sup>*\<^sup>* (w0, new_AsyncLogger mem out) (w, s)"
    and "g_output w0 = OutputFun ()" and "outputs w0 = []" and "\<forall>v. length (fmt v) < 32"
    and "4096 < length mem" and "length mem \<le> max_size" and "log_ready sys out"
    and "log_pc s = AtRunningTest" and "running s" and "\<not> dropped s" and "length (buffers s) < 25"
  shows "\<exists>s'. (pipe_step mem localtime fmt (append_file sys) flush_file ^^ 3) (w, s) (w, s') \<and>
    log_text (log_output s') = log_text out @ concat (map snd (outputs w))"
proof -
  have mem: "0 < length mem" using assms(5) by (rule le_less_trans [OF le0])
  let ?pipe = "pipe_step mem localtime fmt (append_file sys) flush_file"
  from pipe_reachable_inv [OF assms(1-7)] have P: "accepted s = concat (map snd (outputs w))"
    "reachable_logger mem (append_file sys) flush_file out s" by (simp_all add: pipe_inv_def)
  obtain s1 s2 s3 where "async_step mem (append_file sys) flush_file s s1" "async_step mem (append_file sys) flush_file s1 s2"
    "async_step mem (append_file sys) flush_file s2 s3" "accepted s1 = accepted s" "accepted s2 = accepted s"
    "accepted s3 = accepted s" and out: "log_text (log_output s3) = log_text out @ accepted s"
    by (rule log_file.round_writes [OF log_file.reachable_logger_inv [OF P(2) mem assms(6,7)] mem assms(6,8-11)])
  then have "?pipe (w, s) (w, s1)" "?pipe (w, s1) (w, s2)" "?pipe (w, s2) (w, s3)" by (simp_all add: logger)
  then have "(?pipe ^^ 3) (w, s) (w, s3)" by (auto simp: numeral_3_eq_3)
  with out P(1) show ?thesis by auto
qed

section \<open>An instance\<close>

text \<open>A warning is logged while the logger runs.\<close>

definition demo_big :: "char list" where
  "demo_big = replicate 5000 (CHR ''?'')"

definition demo_world :: "(unit, unit) log_world" where
  "demo_world = initial_log_world\<lparr>g_output := OutputFun ()\<rparr>"

definition demo_warning :: string where
  "demo_warning = ''2024/01/22 03:04:05 WARN  no memory - a.cpp:12'' @ [CHR 0x0A]"

abbreviation "demo_pipe \<equiv> pipe_step demo_big (\<lambda>_. demo_time) (\<lambda>d :: unit. []) (append_file demo_log_sys) flush_file"

lemma demo_big: "4096 < length demo_big" "length demo_big \<le> max_size"
  by (simp_all add: demo_big_def max_size_def)

lemma demo_warns:
  "log_statement (\<lambda>_. demo_time) (\<lambda>d :: unit. []) ts_zero (replicate 4096 (CHR ''?'')) ''a.cpp'' 12
     WARN [StringItem ''no memory''] demo_world = Inr (False, demo_world\<lparr>outputs := [(OutputFun (), demo_warning)]\<rparr>)"
  using log_statement_value [OF _ _ _ _ _ refl, where l = WARN and memory = "replicate 4096 (CHR ''?'')"
      and fmt = "\<lambda>d :: unit. []" and its = "[StringItem ''no memory'']" and line = 12 and src_file = "''a.cpp''"
      and localtime = "\<lambda>_. demo_time" and now = ts_zero and w = demo_world]
  by (simp add: demo_line item_faults_def LogLevelName_def macro_logs_def demo_world_def initial_log_world_def demo_warning_def)

lemma demo_logs:
  obtains s where "demo_pipe\<^sup>*\<^sup>* (demo_world, new_AsyncLogger demo_big demo_log) (demo_world\<lparr>outputs := [(OutputFun (), demo_warning)]\<rparr>, s)"
    and "log_pc s = AtRunningTest" and "running s" and "\<not> dropped s" and "length (buffers s) < 25"
proof -
  let ?s = "new_AsyncLogger demo_big demo_log"
  let ?s1 = "enter_StartLog demo_big ?s\<lparr>running := True, log_pc := AtRunningTest\<rparr>"
  let ?w = "demo_world\<lparr>outputs := [(OutputFun (), demo_warning)]\<rparr>"
  have mem: "0 < length demo_big" using demo_big(1) by (rule le_less_trans [OF le0])
  have start: "async_step demo_big (append_file demo_log_sys) flush_file ?s ?s1"
    by (rule step_start) (simp add: new_AsyncLogger_def)
  have "demo_pipe (demo_world, ?s) (demo_world, ?s1)" by (rule logger [OF start]) (simp add: enter_StartLog_def)
  have spare: "spare_buffer (length demo_big) (Some (new_buffer demo_big))" using spare_new [OF mem demo_big(2)] by blast
  then obtain b where b: "new_buffer demo_big = b" "fb_inv b" "length (fb_data b) = length demo_big" "FreeSize b = length demo_big"
    by (auto elim: spare_bufferE)
  have len: "size_of_int (word_of_nat (length demo_warning)) = length demo_warning"
    by (rule size_of_length) (simp add: demo_warning_def)
  have "length demo_warning < FreeSize b" using b(4) demo_big(1) by (simp add: demo_warning_def)
  then obtain b' where "fb_append demo_warning (length demo_warning) b = Inr b'"
    using append_room [OF b(2,3), of "word_of_nat (length demo_warning)" demo_warning] len by auto
  with \<open>length demo_warning < FreeSize b\<close> len
  have app: "append_async demo_big demo_warning (word_of_nat (length demo_warning)) ?s1 = Inr (?s1\<lparr>CurrentBuffer := Some b'\<rparr>)"
    by (simp add: append_async_def deref_buffer_def enter_StartLog_def new_AsyncLogger_def b(1))
  let ?s2 = "?s1\<lparr>CurrentBuffer := Some b', accepted := accepted ?s1 @ accepts demo_big demo_warning (word_of_nat (length demo_warning))\<rparr>"
  have "drop (length (outputs demo_world)) (outputs ?w) = [(OutputFun (), demo_warning)]"
    by (simp add: demo_world_def initial_log_world_def)
  with app have "deliver demo_big (drop (length (outputs demo_world)) (outputs ?w)) ?s1 = Inr ?s2" by (simp add: Let_def)
  with demo_warns have "demo_pipe (demo_world, ?s1) (?w, ?s2)" by (intro statement) (simp_all add: kSmallBuffer_def)
  with \<open>demo_pipe (demo_world, ?s) (demo_world, ?s1)\<close> have "demo_pipe\<^sup>*\<^sup>* (demo_world, ?s) (?w, ?s2)" by simp
  then show thesis by (rule that) (simp_all add: enter_StartLog_def new_AsyncLogger_def)
qed

theorem log_lines_reach_logger_witness:
  "\<exists>s. demo_pipe\<^sup>*\<^sup>* (demo_world, new_AsyncLogger demo_big demo_log) (demo_world\<lparr>outputs := [(OutputFun (), demo_warning)]\<rparr>, s) \<and>
     log_text (log_output s) @ pending s = demo_warning"
proof -
  obtain s where s: "demo_pipe\<^sup>*\<^sup>* (demo_world, new_AsyncLogger demo_big demo_log)
      (demo_world\<lparr>outputs := [(OutputFun (), demo_warning)]\<rparr>, s)" "\<not> dropped s" by (rule demo_logs)
  have w0: "g_output demo_world = OutputFun ()" "outputs demo_world = []" "\<forall>v :: unit. length [] < (32 :: nat)"
    by (simp_all add: demo_world_def initial_log_world_def)
  from log_lines_reach_logger [OF s(1) w0 demo_big demo_log_facts(1)] s show ?thesis
    by (auto simp: demo_log_facts)
qed

theorem log_lines_reach_file_witness:
  "\<exists>s s'. (demo_pipe ^^ 3) (demo_world\<lparr>outputs := [(OutputFun (), demo_warning)]\<rparr>, s)
      (demo_world\<lparr>outputs := [(OutputFun (), demo_warning)]\<rparr>, s') \<and> log_text (log_output s') = demo_warning"
proof -
  obtain s where s: "demo_pipe\<^sup>*\<^sup>* (demo_world, new_AsyncLogger demo_big demo_log)
      (demo_world\<lparr>outputs := [(OutputFun (), demo_warning)]\<rparr>, s)"
    "log_pc s = AtRunningTest" "running s" "\<not> dropped s" "length (buffers s) < 25" by (rule demo_logs)
  have w0: "g_output demo_world = OutputFun ()" "outputs demo_world = []" "\<forall>v :: unit. length [] < (32 :: nat)"
    by (simp_all add: demo_world_def initial_log_world_def)
  from log_lines_reach_file [OF s(1) w0 demo_big demo_log_facts(1) s(2-5)] show ?thesis
    by (auto simp: demo_log_facts)
qed

end
