(* ===== verification/Thread_Queue.thy ===== *)
theory Thread_Queue
  imports Prelude
begin

text \<open>
  \<^verbatim>\<open>ThreadSafeQueue\<close> of include/base/ThreadSafeQueue.ipp: a singly linked list of nodes
  with a dummy node at the tail, behind two mutexes and a condition variable. The first half is
  the list on a heap of nodes and its refinement of a first-in first-out list; the second half is
  the interleaving of the threads, one step per critical section.
\<close>

section \<open>Nodes\<close>

text \<open>
  \<open>heap\<close> maps the address of a live node to it; \<open>brk\<close> is the next address \<^verbatim>\<open>new node\<close> hands
  out. \<^verbatim>\<open>head_\<close> is a \<^verbatim>\<open>unique_ptr\<close>, which may be null.
\<close>

record 'a node =
  data :: "'a option"
  link :: "nat option"

record 'a tsq =
  heap :: "nat \<Rightarrow> 'a node option"
  brk :: nat
  head :: "nat option"
  tail :: nat

definition new_node :: "'a node" where
  "new_node = \<lparr>data = None, link = None\<rparr>"

definition new_ThreadSafeQueue :: "'a tsq" where
  "new_ThreadSafeQueue = \<lparr>heap = (\<lambda>_. None)(0 \<mapsto> new_node), brk = 1, head = Some 0, tail = 0\<rparr>"

definition is_empty :: "'a tsq \<Rightarrow> bool" where
  "is_empty q \<longleftrightarrow> head q = Some (tail q)"

definition push_back :: "'a \<Rightarrow> 'a tsq \<Rightarrow> 'a tsq res" where
  "push_back new_value q =
     (let p = brk q; q = q\<lparr>heap := (heap q)(p \<mapsto> new_node), brk := Suc p\<rparr> in
      case heap q (tail q) of
        None \<Rightarrow> Inl DanglingPointer
      | Some n \<Rightarrow> Inr (q\<lparr>heap := (heap q)(tail q \<mapsto> n\<lparr>data := Some new_value, link := Some p\<rparr>),
                         tail := p\<rparr>))"

text \<open>\<^verbatim>\<open>PopHead\<close> takes the head node out of the list; its caller owns it and frees it.\<close>

definition PopHead :: "'a tsq \<Rightarrow> ('a node \<times> 'a tsq) res" where
  "PopHead q = (case head q of
      None \<Rightarrow> Inl NullPointer
    | Some a \<Rightarrow> (case heap q a of
        None \<Rightarrow> Inl DanglingPointer
      | Some n \<Rightarrow> Inr (n, q\<lparr>head := link n, heap := (heap q)(a := None)\<rparr>)))"

text \<open>\<^verbatim>\<open>value = std::move(*head_->data)\<close>.\<close>

definition move_head :: "'a tsq \<Rightarrow> 'a res" where
  "move_head q = (case head q of
      None \<Rightarrow> Inl NullPointer
    | Some a \<Rightarrow> (case heap q a of
        None \<Rightarrow> Inl DanglingPointer
      | Some n \<Rightarrow> (case data n of None \<Rightarrow> Inl NullPointer | Some v \<Rightarrow> Inr v)))"

definition TryPopHead :: "'a tsq \<Rightarrow> ('a node option \<times> 'a tsq) res" where
  "TryPopHead q = (if is_empty q then Inr (None, q)
                   else bindR (PopHead q) (\<lambda>(n, q). Inr (Some n, q)))"

definition TryPopHead_ref :: "'a tsq \<Rightarrow> (('a node \<times> 'a) option \<times> 'a tsq) res" where
  "TryPopHead_ref q = (if is_empty q then Inr (None, q)
     else bindR (move_head q) (\<lambda>v. bindR (PopHead q) (\<lambda>(n, q). Inr (Some (n, v), q))))"

definition TryPop :: "'a tsq \<Rightarrow> ('a option \<times> 'a tsq) res" where
  "TryPop q = bindR (TryPopHead q) (\<lambda>(OldHead, q).
     Inr (case OldHead of Some n \<Rightarrow> data n | None \<Rightarrow> None, q))"

text \<open>
  Its caller sees whether there was an element. (The conversion of the pointer to \<^verbatim>\<open>bool\<close> is
  an explicit one, so that a use of this overload would not compile as it is written.)
\<close>

definition TryPop_ref :: "'a tsq \<Rightarrow> ('a option \<times> 'a tsq) res" where
  "TryPop_ref q = bindR (TryPopHead_ref q) (\<lambda>(OldHead, q). Inr (map_option snd OldHead, q))"

text \<open>
  The waiting versions as their caller sees them when no other thread interferes: on an empty
  queue they do not return, the outer \<^const>\<open>None\<close>.
\<close>

definition WaitPopHead :: "'a tsq \<Rightarrow> ('a node \<times> 'a tsq) res option" where
  "WaitPopHead q = (if is_empty q then None else Some (PopHead q))"

definition WaitPopHead_ref :: "'a tsq \<Rightarrow> ('a \<times> 'a tsq) res option" where
  "WaitPopHead_ref q = (if is_empty q then None
     else Some (bindR (move_head q) (\<lambda>v. bindR (PopHead q) (\<lambda>(n, q). Inr (v, q)))))"

definition WaitPop :: "'a tsq \<Rightarrow> ('a option \<times> 'a tsq) res option" where
  "WaitPop q = map_option (\<lambda>r. bindR r (\<lambda>(OldHead, q). Inr (data OldHead, q))) (WaitPopHead q)"

definition WaitPop_ref :: "'a tsq \<Rightarrow> ('a \<times> 'a tsq) res option" where
  "WaitPop_ref q = WaitPopHead_ref q"

section \<open>The list in the heap\<close>

text \<open>The nodes from \<open>x\<close> to the dummy node \<open>t\<close>, with their addresses.\<close>

fun path :: "(nat \<Rightarrow> 'a node option) \<Rightarrow> nat \<Rightarrow> (nat \<times> 'a) list \<Rightarrow> nat \<Rightarrow> bool" where
  "path h x [] t \<longleftrightarrow> x = t \<and> h t = Some new_node"
| "path h x ((a, v) # ns) t \<longleftrightarrow>
     x = a \<and> (\<exists>y. h a = Some \<lparr>data = Some v, link = Some y\<rparr> \<and> path h y ns t)"

text \<open>No node is shared or lost: the live nodes are those of the list and the dummy.\<close>

definition holds_nodes :: "'a tsq \<Rightarrow> (nat \<times> 'a) list \<Rightarrow> bool" where
  "holds_nodes q ns \<longleftrightarrow>
     (\<exists>x. head q = Some x \<and> path (heap q) x ns (tail q)) \<and>
     distinct (map fst ns @ [tail q]) \<and> dom (heap q) = set (map fst ns @ [tail q]) \<and>
     (\<forall>a\<in>dom (heap q). a < brk q)"

definition holds :: "'a tsq \<Rightarrow> 'a list \<Rightarrow> bool" where
  "holds q vs \<longleftrightarrow> (\<exists>ns. holds_nodes q ns \<and> vs = map snd ns)"

lemma new_node_simps [simp]: "data new_node = None" "link new_node = None"
  by (simp_all add: new_node_def)

lemma path_upd: "b \<notin> set (map fst ns @ [t]) \<Longrightarrow> path (h(b := n)) x ns t \<longleftrightarrow> path h x ns t"
  by (induction h x ns t rule: path.induct) auto

lemma path_snoc:
  assumes "path h x ns t" and "distinct (map fst ns @ [t])" and "h p = Some new_node"
    and "p \<notin> set (map fst ns @ [t])"
  shows "path (h(t \<mapsto> \<lparr>data = Some v, link = Some p\<rparr>)) x (ns @ [(t, v)]) p"
  using assms
proof (induction h x ns t rule: path.induct)
  case (2 h x a w ns t)
  from "2.prems"(1) obtain y where y: "h a = Some \<lparr>data = Some w, link = Some y\<rparr>" "path h y ns t" "x = a"
    by auto
  with "2.prems" "2.IH" [OF y(2)] show ?case by auto
qed auto

lemma holds_new: "holds new_ThreadSafeQueue []"
  by (auto simp: holds_def holds_nodes_def new_ThreadSafeQueue_def intro!: exI [of _ "[]"])

lemma holds_empty_iff: "holds q vs \<Longrightarrow> is_empty q \<longleftrightarrow> vs = []"
proof -
  assume "holds q vs"
  then obtain ns where ns: "holds_nodes q ns" "vs = map snd ns" by (auto simp: holds_def)
  then show ?thesis by (cases ns) (auto simp: holds_nodes_def is_empty_def)
qed

lemma push_holds:
  assumes "holds q vs"
  shows "\<exists>q'. push_back v q = Inr q' \<and> holds q' (vs @ [v])"
proof -
  from assms obtain ns x where vs: "vs = map snd ns" and x: "head q = Some x"
    and path: "path (heap q) x ns (tail q)" and dist: "distinct (map fst ns @ [tail q])"
    and dom: "dom (heap q) = set (map fst ns @ [tail q])" and brk: "\<forall>a\<in>dom (heap q). a < brk q"
    by (auto simp: holds_def holds_nodes_def)
  have p: "brk q \<notin> set (map fst ns @ [tail q])" using brk unfolding dom by blast
  have t: "heap q (tail q) = Some new_node" using path
    by (induction "heap q" x ns "tail q" rule: path.induct) auto
  let ?h = "(heap q)(brk q \<mapsto> new_node)"
  have "path ?h x ns (tail q)" using path p by (simp add: path_upd)
  from path_snoc [OF this dist _ p, of v]
  have "path (?h(tail q \<mapsto> \<lparr>data = Some v, link = Some (brk q)\<rparr>)) x (ns @ [(tail q, v)]) (brk q)"
    by simp
  moreover have "push_back v q = Inr (q\<lparr>heap := ?h(tail q \<mapsto> \<lparr>data = Some v, link = Some (brk q)\<rparr>),
      brk := Suc (brk q), tail := brk q\<rparr>)"
    using p t by (simp add: push_back_def new_node_def Let_def)
  moreover have "distinct (map fst (ns @ [(tail q, v)]) @ [brk q])" using dist p by auto
  moreover have "dom (?h(tail q \<mapsto> n)) = set (map fst (ns @ [(tail q, v)]) @ [brk q])" for n
    using dom by auto
  ultimately show ?thesis
    using x vs brk dom by (auto simp: holds_def holds_nodes_def less_Suc_eq intro!: exI [of _ "ns @ [(tail q, v)]"])
qed

lemma PopHead_holds:
  assumes "holds q (v # vs)"
  shows "\<exists>n q'. PopHead q = Inr (n, q') \<and> data n = Some v \<and> move_head q = Inr v \<and> holds q' vs"
proof -
  from assms obtain ms where ms: "holds_nodes q ms" "v # vs = map snd ms" by (auto simp: holds_def)
  then obtain a ns where ns: "ms = (a, v) # ns" and vs: "vs = map snd ns" by (cases ms) auto
  from ms(1) have x: "head q = Some a" and path: "path (heap q) a ((a, v) # ns) (tail q)"
    and dist: "distinct (a # map fst ns @ [tail q])"
    and dom: "dom (heap q) = set (a # map fst ns @ [tail q])" and brk: "\<forall>a\<in>dom (heap q). a < brk q"
    unfolding holds_nodes_def ns by auto
  from path obtain y where y: "heap q a = Some \<lparr>data = Some v, link = Some y\<rparr>"
    and rest: "path (heap q) y ns (tail q)" by auto
  let ?q = "q\<lparr>head := Some y, heap := (heap q)(a := None)\<rparr>"
  have "path (heap ?q) y ns (tail q)" using rest dist by (simp add: path_upd)
  moreover have "dom (heap ?q) = set (map fst ns @ [tail q])" using dom dist by auto
  ultimately have "holds_nodes ?q ns" using dist brk dom by (auto simp: holds_nodes_def)
  then have "holds ?q vs" using vs by (auto simp: holds_def)
  with x y show ?thesis by (simp add: PopHead_def move_head_def)
qed

section \<open>The interface\<close>

text \<open>What a user of the queue relies on, and that \<^verbatim>\<open>WaitPop\<close> waits for an element.\<close>

locale fifo =
  fixes rep :: "'q \<Rightarrow> 'a list \<Rightarrow> bool"
    and enq :: "'a \<Rightarrow> 'q \<Rightarrow> 'q res"
    and deq :: "'q \<Rightarrow> ('a option \<times> 'q) res"
  assumes enq_law: "rep q vs \<Longrightarrow> \<exists>q'. enq v q = Inr q' \<and> rep q' (vs @ [v])"
    and deq_empty: "rep q [] \<Longrightarrow> deq q = Inr (None, q)"
    and deq_law: "rep q (v # vs) \<Longrightarrow> \<exists>q'. deq q = Inr (Some v, q') \<and> rep q' vs"
begin

lemma enq_all: "rep q vs \<Longrightarrow> \<exists>q'. foldR enq ws q = Inr q' \<and> rep q' (vs @ ws)"
proof (induction ws arbitrary: q vs)
  case (Cons w ws)
  from enq_law [OF Cons.prems] obtain q1 where q1: "enq w q = Inr q1" "rep q1 (vs @ [w])" by blast
  from Cons.IH [OF q1(2)] q1(1) show ?case by simp
qed simp

lemma deq_answer: "rep q vs \<Longrightarrow> deq q = Inr (a, q') \<Longrightarrow>
    a = (case vs of [] \<Rightarrow> None | v # _ \<Rightarrow> Some v) \<and> rep q' (tl vs)"
  using deq_empty deq_law by (cases vs) fastforce+

lemma enq_keeps: "rep q vs \<Longrightarrow> enq v q = Inr q' \<Longrightarrow> rep q' (vs @ [v])"
  using enq_law [of q vs v] by auto

end

locale waiting_fifo = fifo rep enq deq
  for rep :: "'q \<Rightarrow> 'a list \<Rightarrow> bool" and enq deq +
  fixes wait :: "'q \<Rightarrow> ('a option \<times> 'q) res option"
  assumes wait_blocks: "rep q [] \<Longrightarrow> wait q = None"
    and wait_law: "rep q (v # vs) \<Longrightarrow> wait q = Some (deq q)"
begin

lemma wait_returns: "rep q (v # vs) \<Longrightarrow> \<exists>q'. wait q = Some (Inr (Some v, q')) \<and> rep q' vs"
  using wait_law deq_law by metis

lemma wait_blocks_iff: "rep q vs \<Longrightarrow> wait q = None \<longleftrightarrow> vs = []"
  using wait_blocks wait_law by (cases vs) auto

end

lemma TryPop_holds:
  assumes "holds q (v # vs)"
  shows "\<exists>q'. TryPop q = Inr (Some v, q') \<and> holds q' vs"
    and "TryPop_ref q = TryPop q" and "WaitPop q = Some (TryPop q)"
    and "WaitPop_ref q = Some (bindR (TryPop q) (\<lambda>(a, q). Inr (v, q)))"
  using PopHead_holds [OF assms] holds_empty_iff [OF assms]
  by (auto simp: TryPop_def TryPop_ref_def TryPopHead_def TryPopHead_ref_def WaitPop_def WaitPop_ref_def
      WaitPopHead_def WaitPopHead_ref_def)

lemma TryPop_empty:
  assumes "holds q []"
  shows "TryPop q = Inr (None, q)" and "TryPop_ref q = Inr (None, q)"
    and "WaitPop q = None" and "WaitPop_ref q = None"
  using holds_empty_iff [OF assms]
  by (simp_all add: TryPop_def TryPop_ref_def TryPopHead_def TryPopHead_ref_def WaitPop_def WaitPop_ref_def
      WaitPopHead_def WaitPopHead_ref_def)

interpretation tsq: waiting_fifo holds push_back TryPop WaitPop
proof
  show "holds q vs \<Longrightarrow> \<exists>q'. push_back v q = Inr q' \<and> holds q' (vs @ [v])" for q vs and v :: 'a
    by (rule push_holds)
qed (simp_all add: TryPop_empty TryPop_holds)

section \<open>Every sequence of operations\<close>

datatype 'a queue_op = Push 'a | TryPopOp | TryPopRefOp | WaitPopOp | WaitPopRefOp | EmptyOp

datatype 'a answer = Pushed | Popped "'a option" | Blocked | IsEmpty bool

fun run_op :: "'a queue_op \<Rightarrow> 'a tsq \<Rightarrow> ('a answer \<times> 'a tsq) res" where
  "run_op (Push v) q = bindR (push_back v q) (\<lambda>q. Inr (Pushed, q))"
| "run_op TryPopOp q = bindR (TryPop q) (\<lambda>(a, q). Inr (Popped a, q))"
| "run_op TryPopRefOp q = bindR (TryPop_ref q) (\<lambda>(a, q). Inr (Popped a, q))"
| "run_op WaitPopOp q = (case WaitPop q of None \<Rightarrow> Inr (Blocked, q)
     | Some r \<Rightarrow> bindR r (\<lambda>(a, q). Inr (Popped a, q)))"
| "run_op WaitPopRefOp q = (case WaitPop_ref q of None \<Rightarrow> Inr (Blocked, q)
     | Some r \<Rightarrow> bindR r (\<lambda>(v, q). Inr (Popped (Some v), q)))"
| "run_op EmptyOp q = Inr (IsEmpty (is_empty q), q)"

fun run_ops :: "'a queue_op list \<Rightarrow> 'a tsq \<Rightarrow> ('a answer list \<times> 'a tsq) res" where
  "run_ops [] q = Inr ([], q)"
| "run_ops (x # xs) q = bindR (run_op x q) (\<lambda>(a, q).
     bindR (run_ops xs q) (\<lambda>(as, q). Inr (a # as, q)))"

text \<open>The specification: a list, pushed at the end and popped at the front.\<close>

fun spec_op :: "'a queue_op \<Rightarrow> 'a list \<Rightarrow> 'a answer \<times> 'a list" where
  "spec_op (Push v) vs = (Pushed, vs @ [v])"
| "spec_op EmptyOp vs = (IsEmpty (vs = []), vs)"
| "spec_op x (v # vs) = (Popped (Some v), vs)"
| "spec_op x [] = (if x = WaitPopOp \<or> x = WaitPopRefOp then Blocked else Popped None, [])"

fun spec_ops :: "'a queue_op list \<Rightarrow> 'a list \<Rightarrow> 'a answer list \<times> 'a list" where
  "spec_ops [] vs = ([], vs)"
| "spec_ops (x # xs) vs =
     (case spec_op x vs of (a, ws) \<Rightarrow> case spec_ops xs ws of (as, us) \<Rightarrow> (a # as, us))"

lemma run_op_spec:
  assumes "holds q vs"
  shows "\<exists>q'. run_op x q = Inr (fst (spec_op x vs), q') \<and> holds q' (snd (spec_op x vs))"
proof (cases x)
  case (Push v)
  with tsq.enq_law [OF assms, of v] show ?thesis by auto
next
  case EmptyOp
  with holds_empty_iff [OF assms] assms show ?thesis by simp
next
  case TryPopOp
  with assms TryPop_empty TryPop_holds(1) show ?thesis by (cases vs) force+
next
  case TryPopRefOp
  with assms TryPop_empty TryPop_holds(1,2) show ?thesis by (cases vs) force+
next
  case WaitPopOp
  with assms TryPop_empty TryPop_holds(1,3) show ?thesis by (cases vs) force+
next
  case WaitPopRefOp
  with assms TryPop_empty TryPop_holds(1,4) show ?thesis by (cases vs) force+
qed

lemma run_ops_spec:
  assumes "holds q vs"
  shows "\<exists>q'. run_ops xs q = Inr (fst (spec_ops xs vs), q') \<and> holds q' (snd (spec_ops xs vs))"
  using assms
proof (induction xs arbitrary: q vs)
  case (Cons x xs)
  from run_op_spec [OF Cons.prems, of x] obtain q1
    where q1: "run_op x q = Inr (fst (spec_op x vs), q1)" "holds q1 (snd (spec_op x vs))" by blast
  from Cons.IH [OF q1(2)] q1(1) show ?case by (auto split: prod.splits)
qed simp

text \<open>
  C19. The linked list refines a first-in first-out list: starting from the constructor, every
  sequence of operations returns without a null or dangling pointer, gives the answers of the
  list specification, and leaves the nodes of exactly the elements still to come, none leaked.
\<close>

theorem queue_refines_list:
  "\<exists>q. run_ops xs new_ThreadSafeQueue = Inr (fst (spec_ops xs []), q) \<and>
     holds q (snd (spec_ops xs [])) \<and> finite (dom (heap q)) \<and>
     card (dom (heap q)) = length (snd (spec_ops xs [])) + 1"
proof -
  obtain q where q: "run_ops xs new_ThreadSafeQueue = Inr (fst (spec_ops xs []), q)"
    "holds q (snd (spec_ops xs []))" using run_ops_spec [OF holds_new] by blast
  then obtain ns where ns: "holds_nodes q ns" and len: "length (snd (spec_ops xs [])) = length ns"
    by (auto simp: holds_def)
  then have "distinct (map fst ns @ [tail q])" "dom (heap q) = set (map fst ns @ [tail q])"
    by (simp_all add: holds_nodes_def)
  then have "card (dom (heap q)) = length (map fst ns @ [tail q])" "finite (dom (heap q))"
    using distinct_card [of "map fst ns @ [tail q]"] by simp_all
  with q len show ?thesis by auto
qed

section \<open>Threads\<close>

text \<open>
  Where a thread is in \<^verbatim>\<open>WaitPop\<close>: before it takes \<^verbatim>\<open>HeadMutex_\<close>, holding it with
  the predicate false and about to sleep, asleep in the condition variable, or holding it with
  the predicate true and about to pop. The elements are the abstract list; \<open>pushed\<close> and \<open>popped\<close>
  record the pushes and the pops.
\<close>

datatype waiter = Idle | Entering | AboutToSleep | Sleeping | Popping

record 'a queue_threads =
  items :: "'a list"
  waiter_at :: "nat \<Rightarrow> waiter"
  pushed :: "'a list"
  popped :: "(nat \<times> 'a) list"

definition initial_queue :: "'a queue_threads" where
  "initial_queue = \<lparr>items = [], waiter_at = (\<lambda>_. Idle), pushed = [], popped = []\<rparr>"

definition HeadMutex_free :: "'a queue_threads \<Rightarrow> bool" where
  "HeadMutex_free s \<longleftrightarrow> (\<forall>i. waiter_at s i \<noteq> AboutToSleep \<and> waiter_at s i \<noteq> Popping)"

definition move_to :: "nat \<Rightarrow> waiter \<Rightarrow> 'a queue_threads \<Rightarrow> 'a queue_threads" where
  "move_to i p s = s\<lparr>waiter_at := (waiter_at s)(i := p)\<rparr>"

definition add_item :: "'a \<Rightarrow> 'a queue_threads \<Rightarrow> 'a queue_threads" where
  "add_item v s = s\<lparr>items := items s @ [v], pushed := pushed s @ [v]\<rparr>"

text \<open>
  A push holds \<^verbatim>\<open>TailMutex\<close> only; its \<^verbatim>\<open>notify_one\<close> wakes one sleeper if there is one.
  \<^verbatim>\<open>TryPop\<close> is one critical section. The label tells which thread did what.
\<close>

datatype 'a queue_label =
    DoCall nat | DoTest nat | DoSleep nat | DoPop nat | DoTryPop nat | DoPush 'a "nat option"
  | DoNotifyAll | DoSpurious nat

inductive queue_step :: "'a queue_label \<Rightarrow> 'a queue_threads \<Rightarrow> 'a queue_threads \<Rightarrow> bool" where
  call: "waiter_at s i = Idle \<Longrightarrow> queue_step (DoCall i) s (move_to i Entering s)"
| test: "waiter_at s i = Entering \<Longrightarrow> HeadMutex_free s \<Longrightarrow>
    queue_step (DoTest i) s (move_to i (if items s = [] then AboutToSleep else Popping) s)"
| sleep: "waiter_at s i = AboutToSleep \<Longrightarrow> queue_step (DoSleep i) s (move_to i Sleeping s)"
| pop: "waiter_at s i = Popping \<Longrightarrow> items s = v # vs \<Longrightarrow>
    queue_step (DoPop i) s (move_to i Idle s\<lparr>items := vs, popped := popped s @ [(i, v)]\<rparr>)"
| try_pop: "waiter_at s i = Idle \<Longrightarrow> HeadMutex_free s \<Longrightarrow> items s = v # vs \<Longrightarrow>
    queue_step (DoTryPop i) s (s\<lparr>items := vs, popped := popped s @ [(i, v)]\<rparr>)"
| push_wakes: "waiter_at s j = Sleeping \<Longrightarrow>
    queue_step (DoPush v (Some j)) s (move_to j Entering (add_item v s))"
| push_alone: "\<forall>j. waiter_at s j \<noteq> Sleeping \<Longrightarrow> queue_step (DoPush v None) s (add_item v s)"
| notify_all: "queue_step DoNotifyAll s
    (s\<lparr>waiter_at := (\<lambda>i. if waiter_at s i = Sleeping then Entering else waiter_at s i)\<rparr>)"
| spurious: "waiter_at s i = Sleeping \<Longrightarrow> queue_step (DoSpurious i) s (move_to i Entering s)"

inductive reachable_queue :: "'a queue_threads \<Rightarrow> bool" where
  start: "reachable_queue initial_queue"
| step: "reachable_queue s \<Longrightarrow> queue_step l s s' \<Longrightarrow> reachable_queue s'"

inductive_cases queue_stepE: "queue_step l s s'"

lemma move_to_simps [simp]:
  "items (move_to i p s) = items s" "pushed (move_to i p s) = pushed s"
  "popped (move_to i p s) = popped s" "waiter_at (move_to i p s) = (waiter_at s)(i := p)"
  by (simp_all add: move_to_def)

lemma add_item_simps [simp]:
  "items (add_item v s) = items s @ [v]" "pushed (add_item v s) = pushed s @ [v]"
  "popped (add_item v s) = popped s" "waiter_at (add_item v s) = waiter_at s"
  by (simp_all add: add_item_def)

text \<open>At most one thread holds \<^verbatim>\<open>HeadMutex_\<close>, and one that is about to pop finds an element.\<close>

definition holds_HeadMutex :: "'a queue_threads \<Rightarrow> nat \<Rightarrow> bool" where
  "holds_HeadMutex s i \<longleftrightarrow> waiter_at s i = AboutToSleep \<or> waiter_at s i = Popping"

definition queue_inv :: "'a queue_threads \<Rightarrow> bool" where
  "queue_inv s \<longleftrightarrow> pushed s = map snd (popped s) @ items s \<and>
     (\<forall>i j. holds_HeadMutex s i \<longrightarrow> holds_HeadMutex s j \<longrightarrow> i = j) \<and>
     (\<forall>i. waiter_at s i = Popping \<longrightarrow> items s \<noteq> [])"

lemma queue_step_inv:
  assumes "queue_inv s" and "queue_step l s s'"
  shows "queue_inv s'"
  using assms(2,1)
proof (cases rule: queue_step.cases)
  case (pop i v vs)
  then show ?thesis using assms(1) unfolding queue_inv_def holds_HeadMutex_def
    by (simp split: if_splits) blast
next
  case (try_pop i v vs)
  then show ?thesis using assms(1) unfolding queue_inv_def holds_HeadMutex_def HeadMutex_free_def
    by (simp split: if_splits)
qed (use assms(1) in \<open>unfold queue_inv_def holds_HeadMutex_def HeadMutex_free_def,
       auto split: if_splits\<close>)

lemma reachable_queue_inv: "reachable_queue s \<Longrightarrow> queue_inv s"
proof (induction rule: reachable_queue.induct)
  case start
  then show ?case by (simp add: queue_inv_def initial_queue_def holds_HeadMutex_def)
next
  case (step s l s')
  then show ?case using queue_step_inv by blast
qed

text \<open>
  C20. Whatever the interleaving of pushes, waiting pops, pops that do not wait, notifications and
  spurious wake-ups: the elements popped so far, by whichever thread, followed by those in the
  queue are the elements pushed, in that order; at most one thread is inside
  \<^verbatim>\<open>HeadMutex_\<close>; and a thread that has passed its wait finds an element.
\<close>

theorem queue_threads_safe:
  assumes "reachable_queue s"
  shows "pushed s = map snd (popped s) @ items s \<and>
    (holds_HeadMutex s i \<and> holds_HeadMutex s j \<longrightarrow> i = j) \<and>
    (waiter_at s i = Popping \<longrightarrow> (\<exists>v vs. items s = v # vs))"
  using reachable_queue_inv [OF assms] by (auto simp: queue_inv_def neq_Nil_conv)

section \<open>The lost notification\<close>

text \<open>
  The run: a thread calls \<^verbatim>\<open>WaitPop\<close> and finds the queue empty; before it sleeps another
  thread pushes, which only needs \<^verbatim>\<open>TailMutex\<close>, and notifies nobody; then it sleeps.
\<close>

definition after_lost_wakeup :: "'a \<Rightarrow> 'a queue_threads" where
  "after_lost_wakeup v =
     move_to 0 Sleeping (add_item v (move_to 0 AboutToSleep (move_to 0 Entering initial_queue)))"

lemma initial_queue_simps [simp]:
  "items initial_queue = []" "waiter_at initial_queue i = Idle" "pushed initial_queue = []"
  "popped initial_queue = []"
  by (simp_all add: initial_queue_def)

lemma after_lost_wakeup_reachable: "reachable_queue (after_lost_wakeup (v :: 'a))"
proof -
  let ?a = "move_to 0 Entering (initial_queue :: 'a queue_threads)"
  let ?b = "move_to 0 AboutToSleep ?a"
  have "queue_step (DoCall 0) initial_queue ?a" by (rule queue_step.call) simp
  with reachable_queue.start have a: "reachable_queue ?a" by (rule reachable_queue.step)
  have "queue_step (DoTest 0) ?a ?b"
    using queue_step.test [of ?a 0] by (simp add: HeadMutex_free_def)
  with a have b: "reachable_queue ?b" by (rule reachable_queue.step)
  have "queue_step (DoPush v None) ?b (add_item v ?b)" by (rule queue_step.push_alone) simp
  with b have c: "reachable_queue (add_item v ?b)" by (rule reachable_queue.step)
  have "queue_step (DoSleep 0) (add_item v ?b) (after_lost_wakeup v)"
    unfolding after_lost_wakeup_def by (rule queue_step.sleep) simp
  with c show ?thesis by (rule reachable_queue.step)
qed

theorem queue_threads_safe_witness:
  "\<exists>s. reachable_queue s \<and> pushed s = [5 :: nat] \<and> map snd (popped s) @ items s = [5]"
  using queue_threads_safe [OF after_lost_wakeup_reachable [of "5 :: nat"], of 0 0]
    after_lost_wakeup_reachable [of "5 :: nat"]
  by (intro exI [of _ "after_lost_wakeup 5"]) (simp add: after_lost_wakeup_def)

text \<open>The steps of a thread inside an operation, except a spurious wake-up.\<close>

fun under_way :: "'a queue_label \<Rightarrow> bool" where
  "under_way (DoTest i) = True"
| "under_way (DoSleep i) = True"
| "under_way (DoPop i) = True"
| "under_way _ = False"

text \<open>
  C39. A notification can be lost: \<^verbatim>\<open>push\<close> does not take the mutex under which waiters test
  the queue, so a state can be reached in which an element is in the queue and a thread sleeps in
  \<^verbatim>\<open>WaitPop\<close>, and no thread that is under way can make a step: only a new call of an
  operation or a spurious wake-up changes anything.
\<close>

theorem notification_can_be_lost:
  "\<exists>s. reachable_queue s \<and> items s = [v :: 'a] \<and> waiter_at s 0 = Sleeping \<and>
     (\<forall>l s'. under_way l \<longrightarrow> \<not> queue_step l s s')"
proof (intro exI conjI allI impI)
  show "reachable_queue (after_lost_wakeup v)" by (rule after_lost_wakeup_reachable)
  fix l :: "'a queue_label" and s' :: "'a queue_threads"
  assume "under_way l"
  show "\<not> queue_step l (after_lost_wakeup v) s'"
  proof
    assume "queue_step l (after_lost_wakeup v) s'"
    then show False
      using \<open>under_way l\<close> by (cases rule: queue_step.cases) (auto simp: after_lost_wakeup_def split: if_splits)
  qed
qed (simp_all add: after_lost_wakeup_def)

theorem notification_can_be_lost_witness:
  "\<exists>s. reachable_queue s \<and> items s = [7 :: nat] \<and> waiter_at s 0 = Sleeping \<and>
     \<not> (\<exists>s'. queue_step (DoTest 0) s s')"
  using notification_can_be_lost [of "7 :: nat"] by (metis under_way.simps(1))

end
