(* ===== verification/Mysql_Pool.thy ===== *)
theory Mysql_Pool
  imports Thread_Queue Decimal
begin

text \<open>
  \<^verbatim>\<open>MysqlPool\<close> and \<^verbatim>\<open>Mysql\<close> of include/net/Mysql and src/net/Mysql: a pool of database
  connections in a \<^verbatim>\<open>ThreadSafeQueue\<close>. The connector library is not part of the sources:
  its driver is a record of parameters, the outcome of a statement on a connection is an
  argument, a value or an exception. Where the code waits for a connection and none is there, the
  operation has no value, \<^const>\<open>None\<close>.
\<close>

section \<open>The pool\<close>

record 'c mysql_pool =
  pool_size :: "32 word"
  pool :: "'c tsq"
  runing :: bool

record ('c, 'e) driver =
  connect :: "nat \<Rightarrow> string \<Rightarrow> string \<Rightarrow> string \<Rightarrow> 'e + 'c"
  isValid :: "'c \<Rightarrow> bool"
  setSchema :: "'c \<Rightarrow> string \<Rightarrow> 'e + 'c"

text \<open>
  The loop of the constructors: an exception of the driver leaves the constructor, an invalid
  connection ends in \<^verbatim>\<open>LOG_FATAL\<close>. \<open>schema\<close> is the database to select, if there is one.
\<close>

fun add_connections :: "('c, 'e) driver \<Rightarrow> string \<Rightarrow> string \<Rightarrow> string \<Rightarrow> string option \<Rightarrow> nat list \<Rightarrow>
    'c tsq \<Rightarrow> ('e + 'c tsq) res" where
  "add_connections drv url usr password schema [] q = Inr (Inr q)"
| "add_connections drv url usr password schema (i # is) q =
     (case connect drv i url usr password of
        Inl e \<Rightarrow> Inr (Inl e)
      | Inr con \<Rightarrow>
          if \<not> isValid drv con then Inl Abort
          else (case (case schema of None \<Rightarrow> Inr con | Some database \<Rightarrow> setSchema drv con database) of
                  Inl e \<Rightarrow> Inr (Inl e)
                | Inr con \<Rightarrow>
                    bindR (push_back con q) (add_connections drv url usr password schema is)))"

definition make_pool :: "('c, 'e) driver \<Rightarrow> string \<Rightarrow> string \<Rightarrow> string \<Rightarrow> string option \<Rightarrow> 32 word \<Rightarrow>
    ('e + 'c mysql_pool) res" where
  "make_pool drv url usr password schema sz =
     bindR (add_connections drv url usr password schema [0..<nat (sint sz)] new_ThreadSafeQueue)
       (\<lambda>r. Inr (case r of Inl e \<Rightarrow> Inl e
               | Inr q \<Rightarrow> Inr \<lparr>pool_size = sz, pool = q, runing = True\<rparr>))"

text \<open>The constructor with host and port, which writes the URL itself, and those with a URL.\<close>

definition new_MysqlPool_host :: "('c, 'e) driver \<Rightarrow> string \<Rightarrow> 32 word \<Rightarrow> string \<Rightarrow> string \<Rightarrow> string \<Rightarrow>
    32 word \<Rightarrow> ('e + 'c mysql_pool) res" where
  "new_MysqlPool_host drv host port usr password database sz =
     make_pool drv (''tcp:://'' @ host @ '':'' @ dec_nat (unat port)) usr password (Some database) sz"

definition new_MysqlPool_schema :: "('c, 'e) driver \<Rightarrow> string \<Rightarrow> string \<Rightarrow> string \<Rightarrow> string \<Rightarrow> 32 word \<Rightarrow>
    ('e + 'c mysql_pool) res" where
  "new_MysqlPool_schema drv url usr password database sz =
     make_pool drv url usr password (Some database) sz"

definition new_MysqlPool :: "('c, 'e) driver \<Rightarrow> string \<Rightarrow> string \<Rightarrow> string \<Rightarrow> 32 word \<Rightarrow>
    ('e + 'c mysql_pool) res" where
  "new_MysqlPool drv url usr password sz = make_pool drv url usr password None sz"

definition GetConnection :: "'c mysql_pool \<Rightarrow> ('c option \<times> 'c mysql_pool) res option" where
  "GetConnection p =
     (if \<not> runing p then Some (Inr (None, p))
      else case WaitPop (pool p) of
             None \<Rightarrow> None
           | Some r \<Rightarrow> Some (bindR r (\<lambda>(ConPtr, q). case ConPtr of
                 None \<Rightarrow> Inl NullPointer
               | Some c \<Rightarrow> Inr (Some c, p\<lparr>pool := q\<rparr>))))"

text \<open>After \<^verbatim>\<open>close\<close> the connection stays with the caller, whose pointer frees it.\<close>

definition ReturnConnection :: "'c \<Rightarrow> 'c mysql_pool \<Rightarrow> 'c mysql_pool res" where
  "ReturnConnection con p =
     (if \<not> runing p then Inr p else bindR (push_back con (pool p)) (\<lambda>q. Inr (p\<lparr>pool := q\<rparr>)))"

definition close_pool :: "'c mysql_pool \<Rightarrow> 'c mysql_pool" where
  "close_pool p = p\<lparr>runing := False\<rparr>"

text \<open>The loop of the destructor; a wait that would not end is \<^const>\<open>None\<close>.\<close>

partial_function (option) drain :: "'c tsq \<Rightarrow> 'c tsq res option" where
  "drain q = (if is_empty q then Some (Inr q)
     else Option.bind (WaitPop q) (\<lambda>r. case r of Inl e \<Rightarrow> Some (Inl e) | Inr (c, q) \<Rightarrow> drain q))"

definition destroy_MysqlPool :: "'c mysql_pool \<Rightarrow> 'c mysql_pool res option" where
  "destroy_MysqlPool p = map_option (\<lambda>r. bindR r (\<lambda>q. Inr (p\<lparr>pool := q\<rparr>))) (drain (pool p))"

section \<open>Statements\<close>

text \<open>
  The result of a statement: the exception that leaves it, or its value. \<open>outcome\<close> is what
  \<^verbatim>\<open>createStatement()\<close> with \<^verbatim>\<open>executeQuery\<close>, \<^verbatim>\<open>executeUpdate\<close> or
  \<^verbatim>\<open>execute\<close> does on a connection; \<open>sql\<close> tells whether an exception is an
  \<^verbatim>\<open>SQLException\<close>. An exception that leaves a function destroys its local connection.
\<close>

definition query :: "('c \<Rightarrow> 'e + 'r) \<Rightarrow> 'c mysql_pool \<Rightarrow> (('e + 'r option) \<times> 'c mysql_pool) res option" where
  "query outcome p = map_option (\<lambda>g. bindR g (\<lambda>(con, p). case con of
       None \<Rightarrow> Inr (Inr None, p)
     | Some c \<Rightarrow> (case outcome c of
           Inl e \<Rightarrow> Inr (Inl e, p)
         | Inr res \<Rightarrow> bindR (ReturnConnection c p) (\<lambda>p. Inr (Inr (Some res), p))))) (GetConnection p)"

definition update :: "('e \<Rightarrow> bool) \<Rightarrow> ('c \<Rightarrow> 'e + int) \<Rightarrow> 'c mysql_pool \<Rightarrow>
    (('e + int) \<times> 'c mysql_pool) res option" where
  "update sql outcome p = map_option (\<lambda>g. bindR g (\<lambda>(con, p). case con of
       None \<Rightarrow> Inr (Inr 0, p)
     | Some c \<Rightarrow> (case outcome c of
           Inl e \<Rightarrow> if sql e then bindR (ReturnConnection c p) (\<lambda>p. Inr (Inr 0, p)) else Inr (Inl e, p)
         | Inr n \<Rightarrow> bindR (ReturnConnection c p) (\<lambda>p. Inr (Inr n, p))))) (GetConnection p)"

definition exec :: "('e \<Rightarrow> bool) \<Rightarrow> ('c \<Rightarrow> 'e + unit) \<Rightarrow> 'c mysql_pool \<Rightarrow>
    (('e + bool) \<times> 'c mysql_pool) res option" where
  "exec sql outcome p = map_option (\<lambda>g. bindR g (\<lambda>(con, p). case con of
       None \<Rightarrow> Inr (Inr False, p)
     | Some c \<Rightarrow> (case outcome c of
           Inl e \<Rightarrow> if sql e then bindR (ReturnConnection c p) (\<lambda>p. Inr (Inr False, p)) else Inr (Inl e, p)
         | Inr _ \<Rightarrow> bindR (ReturnConnection c p) (\<lambda>p. Inr (Inr True, p))))) (GetConnection p)"

section \<open>The clients of a waiting queue\<close>

text \<open>The connections in the pool, first the next to be handed out.\<close>

definition idle :: "'c mysql_pool \<Rightarrow> 'c list \<Rightarrow> bool" where
  "idle p cs \<longleftrightarrow> holds (pool p) cs"

lemma GetConnection_open:
  assumes "idle p cs" and "runing p"
  shows "case cs of
      [] \<Rightarrow> GetConnection p = None
    | c # cs' \<Rightarrow> \<exists>q. GetConnection p = Some (Inr (Some c, p\<lparr>pool := q\<rparr>)) \<and> holds q cs'"
  using assms tsq.wait_blocks [of "pool p"] tsq.wait_returns [of "pool p" "hd cs" "tl cs"]
  by (cases cs) (auto simp: idle_def GetConnection_def)

lemma ReturnConnection_open:
  assumes "holds q cs" and "runing p"
  shows "\<exists>p'. ReturnConnection c (p\<lparr>pool := q\<rparr>) = Inr p' \<and> idle p' (cs @ [c]) \<and> runing p' \<and>
    pool_size p' = pool_size p"
  using assms tsq.enq_law [OF assms(1), of c] by (auto simp: idle_def ReturnConnection_def)

lemma drain_holds: "holds q cs \<Longrightarrow> \<exists>q'. drain q = Some (Inr q') \<and> holds q' []"
proof (induction cs arbitrary: q)
  case Nil
  then show ?case using holds_empty_iff [of q "[]"] by (auto simp: drain.simps)
next
  case (Cons c cs)
  from tsq.wait_returns [OF Cons.prems] obtain q1
    where q1: "WaitPop q = Some (Inr (Some c, q1))" "holds q1 cs" by blast
  from Cons.IH [OF q1(2)] q1(1) holds_empty_iff [OF Cons.prems] show ?case
    by (subst drain.simps) simp
qed

lemma add_connections_fills:
  assumes "\<forall>i\<in>set is. \<exists>c. connect drv i url usr password = Inr c \<and> isValid drv c \<and>
      (case schema of None \<Rightarrow> Inr c | Some database \<Rightarrow> setSchema drv c database) = Inr (con i)"
    and "holds q cs"
  shows "\<exists>q'. add_connections drv url usr password schema is q = Inr (Inr q') \<and>
    holds q' (cs @ map con is)"
  using assms
proof (induction "is" arbitrary: q cs)
  case (Cons i "is")
  then obtain c where c: "connect drv i url usr password = Inr c" "isValid drv c"
    "(case schema of None \<Rightarrow> Inr c | Some database \<Rightarrow> setSchema drv c database) = Inr (con i)" by auto
  from tsq.enq_law [OF Cons.prems(2), of "con i"] obtain q1
    where q1: "push_back (con i) q = Inr q1" "holds q1 (cs @ [con i])" by blast
  from Cons.IH [OF _ q1(2)] Cons.prems(1) c q1(1) show ?case by simp
qed simp

section \<open>Requests one after the other\<close>

datatype ('c, 'e, 'r) sql_request =
    QueryReq "'c \<Rightarrow> 'e + 'r" | UpdateReq "'c \<Rightarrow> 'e + int" | ExecReq "'c \<Rightarrow> 'e + unit"

fun run_request :: "('e \<Rightarrow> bool) \<Rightarrow> ('c, 'e, 'r) sql_request \<Rightarrow> 'c mysql_pool \<Rightarrow> 'c mysql_pool res option" where
  "run_request sql (QueryReq f) p = map_option (\<lambda>r. bindR r (\<lambda>(_, p). Inr p)) (query f p)"
| "run_request sql (UpdateReq f) p = map_option (\<lambda>r. bindR r (\<lambda>(_, p). Inr p)) (update sql f p)"
| "run_request sql (ExecReq f) p = map_option (\<lambda>r. bindR r (\<lambda>(_, p). Inr p)) (exec sql f p)"

fun run_requests :: "('e \<Rightarrow> bool) \<Rightarrow> ('c, 'e, 'r) sql_request list \<Rightarrow> 'c mysql_pool \<Rightarrow> 'c mysql_pool res option" where
  "run_requests sql [] p = Some (Inr p)"
| "run_requests sql (r # rs) p = Option.bind (run_request sql r p)
     (\<lambda>a. case a of Inl e \<Rightarrow> Some (Inl e) | Inr p \<Rightarrow> run_requests sql rs p)"

text \<open>
  The specification on the list of idle connections: a request takes the first one; it comes back
  at the end, unless an exception has left the function.
\<close>

fun loses :: "('e \<Rightarrow> bool) \<Rightarrow> ('c, 'e, 'r) sql_request \<Rightarrow> 'c \<Rightarrow> bool" where
  "loses sql (QueryReq f) c = (case f c of Inl e \<Rightarrow> True | Inr _ \<Rightarrow> False)"
| "loses sql (UpdateReq f) c = (case f c of Inl e \<Rightarrow> \<not> sql e | Inr _ \<Rightarrow> False)"
| "loses sql (ExecReq f) c = (case f c of Inl e \<Rightarrow> \<not> sql e | Inr _ \<Rightarrow> False)"

fun serve :: "('e \<Rightarrow> bool) \<Rightarrow> ('c, 'e, 'r) sql_request list \<Rightarrow> 'c list \<Rightarrow> 'c list option" where
  "serve sql [] cs = Some cs"
| "serve sql (r # rs) [] = None"
| "serve sql (r # rs) (c # cs) = serve sql rs (if loses sql r c then cs else cs @ [c])"

lemma run_request_spec:
  assumes "idle p cs" and "runing p"
  shows "case cs of
      [] \<Rightarrow> run_request sql r p = None
    | c # cs' \<Rightarrow> \<exists>p'. run_request sql r p = Some (Inr p') \<and> runing p' \<and> pool_size p' = pool_size p \<and>
        idle p' (if loses sql r c then cs' else cs' @ [c])"
proof (cases cs)
  case Nil
  with GetConnection_open [OF assms] show ?thesis by (cases r) (simp_all add: query_def update_def exec_def)
next
  case (Cons c cs')
  with GetConnection_open [OF assms] obtain q
    where g: "GetConnection p = Some (Inr (Some c, p\<lparr>pool := q\<rparr>))" "holds q cs'" by auto
  obtain p' where p': "ReturnConnection c (p\<lparr>pool := q\<rparr>) = Inr p'" "idle p' (cs' @ [c])" "runing p'"
    "pool_size p' = pool_size p"
    using ReturnConnection_open [OF g(2) assms(2), of c] by blast
  have lost: "idle (p\<lparr>pool := q\<rparr>) cs'" using g(2) by (simp add: idle_def)
  show ?thesis
  proof (cases r)
    case (QueryReq f)
    then show ?thesis using Cons g(1) p' lost assms(2) by (cases "f c") (simp_all add: query_def)
  next
    case (UpdateReq f)
    then show ?thesis using Cons g(1) p' lost assms(2) by (cases "f c") (simp_all add: update_def)
  next
    case (ExecReq f)
    then show ?thesis using Cons g(1) p' lost assms(2) by (cases "f c") (simp_all add: exec_def)
  qed
qed

lemma run_requests_spec:
  assumes "idle p cs" and "runing p"
  shows "case serve sql rs cs of
      None \<Rightarrow> run_requests sql rs p = None
    | Some cs' \<Rightarrow> \<exists>p'. run_requests sql rs p = Some (Inr p') \<and> idle p' cs' \<and> runing p' \<and>
        pool_size p' = pool_size p"
  using assms
proof (induction rs arbitrary: p cs)
  case (Cons r rs)
  show ?case
  proof (cases cs)
    case Nil
    with run_request_spec [OF Cons.prems, of sql r] show ?thesis by simp
  next
    case cs: (Cons c cs')
    define ds where "ds = (if loses sql r c then cs' else cs' @ [c])"
    from run_request_spec [OF Cons.prems, of sql r] cs obtain p'
      where p': "run_request sql r p = Some (Inr p')" "runing p'" "pool_size p' = pool_size p" "idle p' ds"
      by (auto simp: ds_def)
    have "serve sql (r # rs) cs = serve sql rs ds" by (simp add: cs ds_def)
    with Cons.IH [OF p'(4,2)] p'(1,3) show ?thesis by (auto split: option.splits)
  qed
qed simp

text \<open>
  An open pool, used by one thread at a time, hands its connections out in turn: every
  sequence of queries, updates and statements keeps exactly the connections the specification
  keeps, a connection being lost only when an exception leaves the function that holds it, and the
  sequence blocks for ever exactly when it comes to a request with no connection left.
\<close>

theorem pool_serves:
  assumes "idle p cs" and "runing p"
  shows "case serve sql rs cs of
      None \<Rightarrow> run_requests sql rs p = None
    | Some cs' \<Rightarrow> \<exists>p'. run_requests sql rs p = Some (Inr p') \<and> idle p' cs' \<and> runing p'"
  using run_requests_spec [OF assms, of sql rs] by (auto split: option.splits)

lemma serve_failing_queries:
  assumes "\<forall>f\<in>set fs. \<forall>c. \<exists>e. f c = Inl e" and "length fs = length cs"
  shows "serve sql (map QueryReq fs @ rs) cs = serve sql rs []"
  using assms(2,1)
proof (induction fs cs rule: list_induct2)
  case (Cons f fs c cs)
  then obtain e where "f c = Inl e" by auto
  with Cons show ?case by simp
qed simp

lemma serve_caught:
  assumes "\<forall>r\<in>set rs. \<forall>c\<in>set cs. \<not> loses sql r c" and "cs \<noteq> []"
  shows "\<exists>cs'. serve sql rs cs = Some cs' \<and> set cs' = set cs \<and> length cs' = length cs"
  using assms
proof (induction rs arbitrary: cs)
  case (Cons r rs)
  then obtain c cs' where cs: "cs = c # cs'" by (cases cs) auto
  have "\<exists>ds. serve sql rs (cs' @ [c]) = Some ds \<and> set ds = set (cs' @ [c]) \<and> length ds = length (cs' @ [c])"
    using Cons.prems cs by (intro Cons.IH) auto
  with Cons.prems cs show ?case by auto
qed auto

text \<open>
  C32. \<^verbatim>\<open>query\<close> does not return its connection when the statement throws: after as many
  throwing queries as the pool has connections, whatever comes next waits for ever. Updates and
  statements of \<^verbatim>\<open>exec\<close> that fail with an \<^verbatim>\<open>SQLException\<close>, and queries that do
  not throw, lose nothing: after any number of them, in any mixture, all connections are there.
\<close>

theorem failing_queries_drain_pool:
  fixes r :: "('c, 'e, 'r) sql_request"
  assumes "idle p cs" and "runing p"
    and "\<forall>f\<in>set fs. \<forall>c. \<exists>e. f c = Inl e" and "length fs = length cs"
    and "\<forall>r\<in>set rs. case r of QueryReq f \<Rightarrow> \<forall>c. \<exists>v. f c = Inr v
           | UpdateReq f \<Rightarrow> \<forall>c e. f c = Inl e \<longrightarrow> sql e | ExecReq f \<Rightarrow> \<forall>c e. f c = Inl e \<longrightarrow> sql e"
    and "cs \<noteq> []"
  shows "run_requests sql (map QueryReq fs @ [r]) p = None \<and>
    (\<exists>p' cs'. run_requests sql rs p = Some (Inr p') \<and>
       idle p' cs' \<and> set cs' = set cs \<and> length cs' = length cs)"
proof
  have "serve sql (map QueryReq fs @ [r]) cs = None"
    using serve_failing_queries [OF assms(3,4)] by simp
  with run_requests_spec [OF assms(1,2), of sql "map QueryReq fs @ [r]"]
  show "run_requests sql (map QueryReq fs @ [r]) p = None" by simp
  have "\<not> loses sql q c" if "q \<in> set rs" for q c
    using bspec [OF assms(5) that] by (cases q) (auto split: sum.splits, metis Inl_Inr_False)
  then have "\<forall>q\<in>set rs. \<forall>c\<in>set cs. \<not> loses sql q c" by blast
  with serve_caught assms(6) obtain cs' where "serve sql rs cs = Some cs'" "set cs' = set cs"
    "length cs' = length cs" by blast
  with run_requests_spec [OF assms(1,2), of sql rs]
  show "\<exists>p' cs'. run_requests sql rs p = Some (Inr p') \<and>
      idle p' cs' \<and> set cs' = set cs \<and> length cs' = length cs" by auto
qed

definition demo_pool :: "nat mysql_pool" where
  "demo_pool = \<lparr>pool_size = 1,
     pool = \<lparr>heap = [0 \<mapsto> \<lparr>data = Some 7, link = Some 1\<rparr>, 1 \<mapsto> new_node], brk = 2, head = Some 0, tail = 1\<rparr>,
     runing = True\<rparr>"

lemma demo_pool_idle: "idle demo_pool [7]" "runing demo_pool"
proof -
  show "idle demo_pool [7]"
    unfolding idle_def holds_def
    by (rule exI [of _ "[(0, 7)]"]) (auto simp: demo_pool_def holds_nodes_def new_node_def)
qed (simp add: demo_pool_def)

theorem pool_serves_witness:
  "\<exists>p'. run_requests (\<lambda>e. e = (1::nat)) [UpdateReq (\<lambda>c. Inl 1), QueryReq (\<lambda>c. Inr (c + 1))] demo_pool =
     Some (Inr p') \<and> idle p' [7]"
  using pool_serves [OF demo_pool_idle, of "\<lambda>e. e = (1::nat)"
    "[UpdateReq (\<lambda>c. Inl 1), QueryReq (\<lambda>c. Inr (c + 1))]"] by auto

theorem failing_queries_drain_pool_witness:
  "run_requests (\<lambda>e. e = (1::nat)) (map QueryReq [\<lambda>c. Inl 1] @ [QueryReq (\<lambda>c. Inr c)]) demo_pool = None \<and>
   (\<exists>p' cs'. run_requests (\<lambda>e. e = (1::nat)) [ExecReq (\<lambda>c. Inl 1), UpdateReq (\<lambda>c. Inl 1), QueryReq (\<lambda>c. Inr c)] demo_pool =
      Some (Inr p') \<and> idle p' cs' \<and> set cs' = {7} \<and> length cs' = 1)"
  using failing_queries_drain_pool [OF demo_pool_idle, of "[\<lambda>c. Inl 1]"
    "[ExecReq (\<lambda>c. Inl 1), UpdateReq (\<lambda>c. Inl 1), QueryReq (\<lambda>c. Inr c)]" "\<lambda>e. e = (1::nat)"
    "QueryReq (\<lambda>c. Inr c)"] by simp

text \<open>
  The constructor connects \<^verbatim>\<open>size\<close> times and the pool holds these connections in that
  order; the destructor returns and leaves none. With the default \<^verbatim>\<open>size\<close> 0 of
  \<^verbatim>\<open>Mysql\<close>'s constructors the pool is empty and the first request waits for ever.
\<close>

theorem pool_starts_full:
  assumes "\<forall>i<nat (sint n). \<exists>c. connect drv i url usr password = Inr c \<and> isValid drv c \<and>
      setSchema drv c database = Inr (con i)"
  shows "\<exists>p. new_MysqlPool_schema drv url usr password database n = Inr (Inr p) \<and>
    idle p (map con [0..<nat (sint n)]) \<and> runing p \<and>
    (sint n \<le> 0 \<longrightarrow> run_request sql r p = None) \<and>
    (\<exists>p'. destroy_MysqlPool p = Some (Inr p') \<and> idle p' [])"
proof -
  have "\<forall>i\<in>set [0..<nat (sint n)]. \<exists>c. connect drv i url usr password = Inr c \<and> isValid drv c \<and>
      (case Some database of None \<Rightarrow> Inr c | Some database \<Rightarrow> setSchema drv c database) = Inr (con i)"
    using assms by simp
  from add_connections_fills [OF this holds_new] obtain q
    where q: "add_connections drv url usr password (Some database) [0..<nat (sint n)] new_ThreadSafeQueue =
        Inr (Inr q)" "holds q (map con [0..<nat (sint n)])" by auto
  let ?p = "\<lparr>pool_size = n, pool = q, runing = True\<rparr>"
  have new: "new_MysqlPool_schema drv url usr password database n = Inr (Inr ?p)"
    by (simp add: new_MysqlPool_schema_def make_pool_def q(1))
  have idle: "idle ?p (map con [0..<nat (sint n)])" using q(2) by (simp add: idle_def)
  have "run_request sql r ?p = None" if "sint n \<le> 0"
    using run_request_spec [OF idle, of sql r] that by simp
  moreover obtain q' where "drain q = Some (Inr q')" "holds q' []" using drain_holds [OF q(2)] by blast
  then have "\<exists>p'. destroy_MysqlPool ?p = Some (Inr p') \<and> idle p' []"
    by (simp add: destroy_MysqlPool_def idle_def)
  ultimately show ?thesis using new idle by auto
qed

theorem pool_starts_full_witness:
  "\<exists>p. new_MysqlPool_schema \<lparr>connect = (\<lambda>i _ _ _. Inr (10 * i)), isValid = (\<lambda>_. True),
        setSchema = (\<lambda>c _. Inr (c + 1))\<rparr> ''tcp://db'' ''u'' ''p'' ''test'' 2 =
      (Inr (Inr p) :: (unit + nat mysql_pool) res) \<and> idle p [1, 11]"
  using pool_starts_full [of 2 "\<lparr>connect = (\<lambda>i _ _ _. Inr (10 * i)), isValid = (\<lambda>_. True),
        setSchema = (\<lambda>c _. Inr (c + 1))\<rparr> :: (nat, unit) driver" "''tcp://db''" "''u''" "''p''" "''test''"
        "\<lambda>i. 10 * i + 1"]
  by (auto simp: upt_rec)

section \<open>The Mysql object\<close>

text \<open>
  \<^verbatim>\<open>Mysql\<close> owns its pool by the pointer \<^verbatim>\<open>pool_\<close>. The three constructors and the
  destructor, which closes the pool and then frees it.
\<close>

definition owned :: "('e + 'c mysql_pool) res \<Rightarrow> ('e + 'c mysql_pool option) res" where
  "owned r = bindR r (\<lambda>made. Inr (case made of Inl e \<Rightarrow> Inl e | Inr p \<Rightarrow> Inr (Some p)))"

definition new_Mysql_database :: "('c, 'e) driver \<Rightarrow> string \<Rightarrow> string \<Rightarrow> string \<Rightarrow> string \<Rightarrow> 32 word \<Rightarrow>
    ('e + 'c mysql_pool option) res" where
  "new_Mysql_database drv url usr password database sz = owned (new_MysqlPool_schema drv url usr password database sz)"

definition new_Mysql :: "('c, 'e) driver \<Rightarrow> string \<Rightarrow> string \<Rightarrow> string \<Rightarrow> 32 word \<Rightarrow>
    ('e + 'c mysql_pool option) res" where
  "new_Mysql drv url usr password sz = owned (new_MysqlPool drv url usr password sz)"

definition new_Mysql_host :: "('c, 'e) driver \<Rightarrow> string \<Rightarrow> 32 word \<Rightarrow> string \<Rightarrow> string \<Rightarrow> string \<Rightarrow>
    32 word \<Rightarrow> ('e + 'c mysql_pool option) res" where
  "new_Mysql_host drv host port usr password database sz = owned (new_MysqlPool_host drv host port usr password database sz)"

definition delete_Mysql :: "'c mysql_pool option \<Rightarrow> unit res option" where
  "delete_Mysql pool_ptr = (case pool_ptr of
     None \<Rightarrow> Some (Inr ())
   | Some p \<Rightarrow> map_option (\<lambda>r. bindR r (\<lambda>_. Inr ())) (destroy_MysqlPool (close_pool p)))"

lemma delete_Mysql_returns: "idle p cs \<Longrightarrow> delete_Mysql (Some p) = Some (Inr ())"
  using drain_holds [of "pool p" cs] by (auto simp: delete_Mysql_def destroy_MysqlPool_def close_pool_def idle_def)

text \<open>
  C31. The life of a \<^verbatim>\<open>Mysql\<close> object used by one thread. If the driver connects, the
  constructor makes the connections that were asked for; any sequence of queries, updates and
  statements then keeps exactly the connections the specification keeps, and blocks for ever
  exactly when it comes to a request with no connection left; whenever it returns, the destructor
  returns, too.
\<close>

theorem mysql_life:
  assumes "\<forall>i<nat (sint n). \<exists>c. connect drv i url usr password = Inr c \<and> isValid drv c \<and>
      setSchema drv c database = Inr (con i)"
  shows "\<exists>p. new_Mysql_database drv url usr password database n = Inr (Inr (Some p)) \<and>
    (case serve sql rs (map con [0..<nat (sint n)]) of
       None \<Rightarrow> run_requests sql rs p = None
     | Some cs \<Rightarrow> \<exists>p'. run_requests sql rs p = Some (Inr p') \<and> idle p' cs \<and> delete_Mysql (Some p') = Some (Inr ()))"
proof -
  have "\<forall>i\<in>set [0..<nat (sint n)]. \<exists>c. connect drv i url usr password = Inr c \<and> isValid drv c \<and>
      (case Some database of None \<Rightarrow> Inr c | Some database \<Rightarrow> setSchema drv c database) = Inr (con i)"
    using assms by simp
  from add_connections_fills [OF this holds_new] obtain q
    where q: "add_connections drv url usr password (Some database) [0..<nat (sint n)] new_ThreadSafeQueue =
        Inr (Inr q)" "holds q (map con [0..<nat (sint n)])" by auto
  let ?p = "\<lparr>pool_size = n, pool = q, runing = True\<rparr>"
  have new: "new_Mysql_database drv url usr password database n = Inr (Inr (Some ?p))"
    by (simp add: new_Mysql_database_def owned_def new_MysqlPool_schema_def make_pool_def q(1))
  have "idle ?p (map con [0..<nat (sint n)])" "runing ?p" using q(2) by (simp_all add: idle_def)
  from run_requests_spec [OF this, of sql rs] new delete_Mysql_returns show ?thesis
    by (fastforce split: option.splits)
qed

theorem mysql_life_witness:
  "\<exists>p p'. new_Mysql_database \<lparr>connect = (\<lambda>i _ _ _. Inr (10 * i)), isValid = (\<lambda>_. True),
        setSchema = (\<lambda>c _. Inr (c + 1))\<rparr> ''tcp://db'' ''u'' ''p'' ''test'' 2 =
      (Inr (Inr (Some p)) :: (unit + nat mysql_pool option) res) \<and>
     run_requests (\<lambda>_. True) [QueryReq (\<lambda>c. Inl ()), UpdateReq (\<lambda>c. Inl ())] p = Some (Inr p') \<and> idle p' [11] \<and>
     delete_Mysql (Some p') = Some (Inr ())"
  using mysql_life [of 2 "\<lparr>connect = (\<lambda>i _ _ _. Inr (10 * i)), isValid = (\<lambda>_. True),
        setSchema = (\<lambda>c _. Inr (c + 1))\<rparr> :: (nat, unit) driver" "''tcp://db''" "''u''" "''p''" "''test''"
        "\<lambda>i. 10 * i + 1" "\<lambda>_. True" "[QueryReq (\<lambda>c. Inl ()), UpdateReq (\<lambda>c. Inl ())]"]
  by (auto simp: upt_rec)

section \<open>Closing\<close>

definition step_without_push :: "'c queue_threads \<Rightarrow> 'c queue_threads \<Rightarrow> bool" where
  "step_without_push s s' \<longleftrightarrow> (\<exists>l. (\<forall>v j. l \<noteq> DoPush v j) \<and> queue_step l s s')"

lemma waits_on:
  assumes "items s = []" and "waiter_at s i \<in> {Entering, AboutToSleep, Sleeping}" and "step_without_push s s'"
  shows "items s' = [] \<and> waiter_at s' i \<in> {Entering, AboutToSleep, Sleeping}"
proof -
  from assms(3) obtain l where l: "\<forall>v j. l \<noteq> DoPush v j" "queue_step l s s'"
    by (auto simp: step_without_push_def)
  from l(2) show ?thesis using assms(1,2) l(1) by cases auto
qed

text \<open>
  \<^verbatim>\<open>close\<close> frees nobody who waits. Once the pool is closed no connection is returned
  to the queue, so no step is a push; if the queue is empty then, whatever else happens
  (\<^verbatim>\<open>NotifyAll\<close> included) and however long, a thread that waits in
  \<^verbatim>\<open>GetConnection\<close> goes on waiting: the condition it waits for does not look at
  \<^verbatim>\<open>runing_\<close>.
\<close>

theorem closing_frees_nobody:
  assumes "items s = []" and "waiter_at s i \<in> {Entering, AboutToSleep, Sleeping}"
    and "step_without_push\<^sup>*\<^sup>* s s'"
  shows "items s' = [] \<and> waiter_at s' i \<in> {Entering, AboutToSleep, Sleeping} \<and>
    ReturnConnection c (close_pool p) = Inr (close_pool p)"
proof -
  from assms(3) have "items s' = [] \<and> waiter_at s' i \<in> {Entering, AboutToSleep, Sleeping}"
    by (induction rule: rtranclp_induct) (use assms(1,2) waits_on in blast)+
  then show ?thesis by (simp add: ReturnConnection_def close_pool_def)
qed

theorem closing_frees_nobody_witness:
  "\<exists>s'. queue_step DoNotifyAll (move_to 0 Sleeping (initial_queue :: nat queue_threads)) s' \<and>
     items s' = [] \<and> waiter_at s' 0 \<in> {Entering, AboutToSleep, Sleeping}"
proof -
  let ?s = "move_to 0 Sleeping (initial_queue :: nat queue_threads)"
  note step = queue_step.notify_all [of ?s]
  then have "step_without_push\<^sup>*\<^sup>* ?s (?s\<lparr>waiter_at :=
      (\<lambda>i. if waiter_at ?s i = Sleeping then Entering else waiter_at ?s i)\<rparr>)"
    unfolding step_without_push_def by blast
  from closing_frees_nobody [OF _ _ this, of 0] step show ?thesis by auto
qed

end
