(* ===== verification/Singletons.thy ===== *)
theory Singletons
  imports Prelude
begin

text \<open>
  \<^verbatim>\<open>Singleton\<close> of include/base/singleton.ipp. The constructor of the class is a parameter: it
  makes an object out of the program's state or throws, and \<^verbatim>\<open>std::call_once\<close> lets exactly one
  caller run it, and another one only if it has thrown.
\<close>

record ('i, 's) singleton =
  once_flag :: bool
  instance_ptr :: "'i option"
  program :: 's

definition no_instance :: "'s \<Rightarrow> ('i, 's) singleton" where
  "no_instance s = \<lparr>once_flag = False, instance_ptr = None, program = s\<rparr>"

text \<open>The outcome of a call: the pointer, or that the constructor's exception came out.\<close>

definition GetInstance :: "('s \<Rightarrow> 'i option \<times> 's) \<Rightarrow> ('i, 's) singleton \<Rightarrow>
    'i option option \<times> ('i, 's) singleton" where
  "GetInstance new_T g =
     (if once_flag g then (Some (instance_ptr g), g)
      else (let (obj, s) = new_T (program g) in
            case obj of
              None \<Rightarrow> (None, g\<lparr>program := s\<rparr>)
            | Some i \<Rightarrow> (Some (Some i), g\<lparr>once_flag := True, instance_ptr := Some i, program := s\<rparr>)))"

fun instances :: "('s \<Rightarrow> 'i option \<times> 's) \<Rightarrow> nat \<Rightarrow> ('i, 's) singleton \<Rightarrow>
    'i option option list \<times> ('i, 's) singleton" where
  "instances new_T 0 g = ([], g)"
| "instances new_T (Suc n) g =
     (let (r, g) = GetInstance new_T g; (rs, g) = instances new_T n g in (r # rs, g))"

lemma instances_after:
  assumes "once_flag g"
  shows "instances new_T n g = (replicate n (Some (instance_ptr g)), g)"
  using assms by (induction n) (simp_all add: GetInstance_def)

lemma instances_decided:
  assumes "\<not> once_flag g" and "new_T (program g) = (Some i, s)"
  shows "instances new_T (Suc n) g =
    (replicate (Suc n) (Some (Some i)), g\<lparr>once_flag := True, instance_ptr := Some i, program := s\<rparr>)"
  using assms by (simp add: GetInstance_def instances_after)

text \<open>
  However often the instance is asked for, the results are exceptions of the constructor,
  as many as it throws in a row, followed by one and the same pointer, never a null pointer;
  once the object is there, no call changes the program's state any more.
\<close>

theorem one_instance:
  assumes "instances new_T n (no_instance s) = (rs, g)"
  shows "\<exists>k i. rs = replicate k None @ replicate (n - k) (Some (Some i)) \<and> k \<le> n \<and>
     (k < n \<longrightarrow> once_flag g \<and> instance_ptr g = Some i \<and>
        (\<forall>m. instances new_T m g = (replicate m (Some (Some i)), g)))"
  using assms
proof (induction n arbitrary: s rs)
  case 0
  then show ?case by simp
next
  case (Suc n)
  obtain obj s' where new: "new_T s = (obj, s')" by fastforce
  show ?case
  proof (cases obj)
    case None
    have "(no_instance s)\<lparr>program := s'\<rparr> = no_instance s'" by (simp add: no_instance_def)
    with Suc.prems new None obtain rs' where rs': "instances new_T n (no_instance s') = (rs', g)" "rs = None # rs'"
      by (auto simp: GetInstance_def no_instance_def split: prod.splits)
    from Suc.IH [OF rs'(1)] obtain k i where
      "rs' = replicate k None @ replicate (n - k) (Some (Some i))" "k \<le> n"
      "k < n \<longrightarrow> once_flag g \<and> instance_ptr g = Some i \<and>
        (\<forall>m. instances new_T m g = (replicate m (Some (Some i)), g))" by blast
    with rs'(2) show ?thesis by (intro exI [of _ "Suc k"] exI [of _ i]) simp
  next
    case (Some i)
    have "instances new_T (Suc n) (no_instance s) = (replicate (Suc n) (Some (Some i)),
        (no_instance s)\<lparr>once_flag := True, instance_ptr := Some i, program := s'\<rparr>)"
      by (rule instances_decided) (simp_all add: no_instance_def new Some)
    with Suc.prems have eq: "rs = replicate (Suc n) (Some (Some i))" "once_flag g" "instance_ptr g = Some i"
      by auto
    from instances_after [OF eq(2)] eq show ?thesis by (intro exI [of _ 0] exI [of _ i]) simp
  qed
qed

text \<open>A constructor that throws once.\<close>

theorem one_instance_witness:
  "fst (instances (\<lambda>s. (if s = 0 then None else Some s, Suc s)) 4 (no_instance (0 :: nat))) =
     [None, Some (Some 1), Some (Some 1), Some (Some 1)]"
proof -
  let ?new = "\<lambda>s :: nat. (if s = 0 then None else Some s, Suc s)"
  obtain rs g where r: "instances ?new 4 (no_instance 0) = (rs, g)" by fastforce
  from one_instance [OF r] obtain k i where "rs = replicate k None @ replicate (4 - k) (Some (Some i))" by blast
  have "rs = [None, Some (Some 1), Some (Some 1), Some (Some 1)]"
    using r by (simp add: numeral_eq_Suc GetInstance_def no_instance_def)
  with r show ?thesis by simp
qed

end
