(* ===== verification/Spec2Isabelle.thy ===== *)
theory Spec2Isabelle
  imports Loop_Threads Timer_Schedule Http_Life Signal_Channel Log_Pipeline Mysql_Pool Singletons
begin

text \<open>
  A verification library of the network library Muduo\_C11: a reactor in C++ (one event loop per
  thread over \<^verbatim>\<open>epoll\<close>, timers on a \<^verbatim>\<open>timerfd\<close>, buffered TCP connections,
  a TCP server with a pool of loops) with an HTTP server on top, asynchronous logging, a
  thread-safe queue and a pool of MySQL connections. This root theory imports the library and
  describes it.

  \<^bold>\<open>The program.\<close> An \<^verbatim>\<open>EventLoop\<close> (include/net/EventLoop.h, src/net/EventLoop.cpp)
  waits in its \<^verbatim>\<open>Poller\<close> (Poller.h, Poller.cpp) for events on \<^verbatim>\<open>Channel\<close>s
  (Channel.h, Channel.cpp), dispatches each event to the channel's callbacks, and runs the
  functors other threads have queued, for which an eventfd wakes it up. Its
  \<^verbatim>\<open>TimerQueue\<close> (TimerQueue.h, TimerQueue.cpp, Timer.h, Timer.cpp) is one of the channels,
  a \<^verbatim>\<open>Signals\<close> object (Signals.h, Signals.cpp) another. A \<^verbatim>\<open>TcpConnection\<close>
  (TcpConnection.h, TcpConnection.cpp) owns a channel and two \<^verbatim>\<open>Buffer\<close>s (Buffer.h,
  Buffer.cpp). A \<^verbatim>\<open>TcpServer\<close> (TcpServer.h, TcpServer.cpp) accepts connections in its base
  loop through an \<^verbatim>\<open>Acceptor\<close> (Acceptor.h, Acceptor.cpp, over Socket.cpp and Addrest.cpp),
  gives each to a loop of its \<^verbatim>\<open>EventLoopThreadPool\<close> (EventLoopThreadPool.cpp,
  EventLoopThread.cpp, Thread.cpp) and keeps them in a map. The \<^verbatim>\<open>HttpServer\<close>
  (HttpServer.h, HttpServer.cpp) parses the input of its connections with
  \<^verbatim>\<open>HttpRequest\<close> and answers with \<^verbatim>\<open>HttpResponse\<close>. A \<^verbatim>\<open>Logger\<close>
  (Logger.cpp) builds a line in a \<^verbatim>\<open>LogStream\<close> (LogStream.cpp) and hands it to an output
  function; the \<^verbatim>\<open>AsyncLogger\<close> (AsyncLogger.cpp) collects lines in buffers that its thread
  writes to a \<^verbatim>\<open>LogFile\<close> (LogFile.cpp). \<^verbatim>\<open>MysqlPool\<close> and \<^verbatim>\<open>Mysql\<close>
  (Mysql/) hand database connections out of a \<^verbatim>\<open>ThreadSafeQueue\<close>
  (ThreadSafeQueue.ipp).

  \<^bold>\<open>Conventions.\<close> Faults are values: every undefined access, uncaught exception and
  \<^verbatim>\<open>LOG_FATAL\<close> is an \<^const>\<open>Inl\<close> of the type \<open>fault\<close> (\<open>Prelude\<close>), so that
  an equation with \<^const>\<open>Inr\<close> says that the code returns. Pointers into a buffer are
  indices, pointers to objects are numbers in a store. \<^verbatim>\<open>size_t\<close> sums are taken modulo
  \<open>2 ^ 64\<close> (\<open>sz_add\<close>, \<open>sz_sub\<close>), event bits and \<^verbatim>\<open>int\<close>s are words. What is not under
  src/ is a parameter: \<^verbatim>\<open>epoll_ctl\<close> with the laws \<open>epoll_laws\<close>, the eventfd with
  \<open>eventfd_laws\<close>, the sockets with \<open>socket_laws\<close>, the clock as the sequence of its readings, the
  answers of \<^verbatim>\<open>epoll_wait\<close>, \<^verbatim>\<open>readv\<close> and \<^verbatim>\<open>timerfd_settime\<close> as arguments,
  the iteration order of \<^verbatim>\<open>unordered_map\<close> with \<open>order_law\<close>, what a new thread gets from the
  system as \<open>thread_answers\<close>, the calls on listening sockets and signals as the records \<open>sock_sys\<close> and \<open>sig_sys\<close>, the MySQL driver as a record and
  the outcome of a statement as an argument, local time and the text of a double. User callbacks are values whose
  meaning is a parameter over the whole state, so they may call back into the class.

  \<^bold>\<open>The theories.\<close>
    \<^item> \<open>Prelude\<close>: faults and their sequencing (\<open>bindR\<close>, \<open>foldR\<close>), \<^verbatim>\<open>size_t\<close>
      arithmetic, slices of byte lists, \<^verbatim>\<open>std::find\<close>.
    \<^item> \<open>Decimal\<close>: the decimal printing that \<^verbatim>\<open>std::format\<close>, \<^verbatim>\<open>snprintf\<close> and
      \<^verbatim>\<open>to_string\<close> do, with its inverse.
    \<^item> \<open>Timestamps\<close>: \<^verbatim>\<open>Timestamp\<close> as a linear order, its arithmetic with
      wrap-around, \<^verbatim>\<open>now\<close> and printing; when the clock steps back.
    \<^item> \<open>Byte_Buffer\<close>: \<^verbatim>\<open>Buffer\<close>, the invariant \<open>buf_inv\<close>, the exact condition
      \<open>append_fits\<close> under which an append stays inside the vector, reads, line search; the
      interface \<open>byte_queue\<close> its clients use, interpreted on the model's own operations.
    \<^item> \<open>Channels\<close>: \<^verbatim>\<open>Channel\<close>, event bits, the dispatch as a plan of callbacks.
    \<^item> \<open>Pollers\<close>: \<^verbatim>\<open>Poller\<close> and the operations of \<^verbatim>\<open>Channel\<close> that end in it;
      \<open>poller_inv\<close> (the map, the channel states and the kernel's interest set agree) is kept by
      every sequence of requests, none of which aborts.
    \<^item> \<open>Timer_Queue\<close>: \<^verbatim>\<open>Timer\<close>, \<^verbatim>\<open>ExpiredTimer\<close>, \<^verbatim>\<open>TimerQueue\<close>; when the
      comparator is a strict weak order, insertion, expiry, re-arming, cancelling.
    \<^item> \<open>Event_Loop\<close>: the loop's state (an extension of the timer queue's), functors,
      wake-ups, one round, \<^verbatim>\<open>start\<close> over the waits' answers, timer requests.
    \<^item> \<open>Timer_Schedule\<close>: what the timers of a loop promise, as a schedule of jobs without
      sets, comparators and flags; the timer queue of a loop refines it (\<open>step_refinement\<close> of the
      prelude), for all histories in which the comparator is an order.
    \<^item> \<open>Loop_Life\<close>: a loop from its constructor, over any requests, to its destructor; what
      it registers in the kernel and takes back.
    \<^item> \<open>Loop_Threads\<close>: the interleaving of the loop's thread with others as a step relation
      (one step per access to shared state), order and wake-up invariants, progress under every
      interleaving, and the refinement of the steps by \<^verbatim>\<open>DoCallback\<close>, whose calls are traced.
    \<^item> \<open>Tcp_Connection\<close>, \<open>Tcp_Stream\<close>: \<^verbatim>\<open>TcpConnection\<close> for any number of connections;
      \<open>net_inv\<close>, the stream of a connection (bytes in the kernel followed by bytes in the
      output buffer), sending, draining, shutting down, closing; sequences of operations.
    \<^item> \<open>Http_Request\<close>, \<open>Http_Response\<close>, \<open>Http_Server\<close>: the parser as index loops, proved
      equal to a specification on byte lists; the response writer over \<open>byte_queue\<close>; the
      server's message callback and its runs over any traffic.
    \<^item> \<open>Sockets\<close>: \<^verbatim>\<open>Address\<close> and \<^verbatim>\<open>Socket\<close>; what an address prints as.
    \<^item> \<open>Loop_Pool\<close>: \<^verbatim>\<open>Thread\<close>, the life of an \<^verbatim>\<open>EventLoopThread\<close> as a step
      relation of its owner and its thread, the pool and its round robin.
    \<^item> \<open>Tcp_Server\<close>: \<^verbatim>\<open>Acceptor\<close> and \<^verbatim>\<open>TcpServer\<close>. The state is that of a
      connection's loop, the running one, with the other loops \<open>parked\<close> beside it; \<open>switch\<close>
      changes the thread, \<open>loop_at\<close> reads any loop. \<open>srv_inv\<close> is the invariant of the
      connection map; opening, closing and destroying connections across loops.
    \<^item> \<open>Server_Frames\<close>, \<open>Server_Life\<close>, \<open>Server_Safety\<close>, \<open>Server_Start\<close>: who holds a connection,
      over all the loops of a server: the threads as a step relation (events, accepting, the
      functors of a round one by one, the dropping of their references), its invariant, the safety
      of memory, registrations and descriptors, and a server's start with the loops of its pool. What an operation
      leaves alone is \<open>tame\<close>, with the poller's invariant \<open>goes\<close>.
    \<^item> \<open>Http_Stack\<close>, \<open>Http_Life\<close>: the HTTP server as a client of the TCP server; a request
      through all the layers; its message callback is gentle, so that what \<open>Server_Safety\<close> shows
      holds of every HTTP server from its constructor on.
    \<^item> \<open>Signal_Channel\<close>, \<open>Singletons\<close>: \<^verbatim>\<open>Signals\<close> on an event loop, \<^verbatim>\<open>Singleton\<close>.
    \<^item> \<open>Log_Stream\<close>, \<open>Loggers\<close>: \<^verbatim>\<open>FixedBuffer\<close>, the operators of \<^verbatim>\<open>LogStream\<close>
      with the exact text they print, logging statements.
    \<^item> \<open>Log_File\<close>, \<open>Async_Logger\<close>: rolling log files behind the interface \<open>log_sink\<close>; the
      appending threads and the writing thread as a step relation over any such sink.
    \<^item> \<open>Log_Pipeline\<close>: the two composed, from the logging statements of any threads over the
      buffers to the file: order, that every line is taken, and that it gets there.
    \<^item> \<open>Thread_Queue\<close>, \<open>Mysql_Pool\<close>: the linked list in a heap of nodes as a refinement of a
      first-in first-out list (the interfaces \<open>fifo\<close>, \<open>waiting_fifo\<close>), its two locks and the
      condition variable as a step relation; the pool as a client of the waiting queue.

  \<^bold>\<open>Loops.\<close> The waits of \<^verbatim>\<open>start\<close> are a list: the loop runs as many rounds as the list
  has answers or until it is told to quit. The loop of \<^verbatim>\<open>HttpRequest::parse\<close> is a
  partial function; it is proved to return on every well-formed buffer. The bound of the
  specification \<open>parse_bytes\<close>, the length of the input plus one, is enough because every line
  takes at least two bytes.

  \<^bold>\<open>What the theorems show of the code's flaws.\<close> Several properties are exact conditions: an
  append or a read leaves the vector when none of the three cases of \<open>append_fits\<close> applies
  (\<^verbatim>\<open>MakeSpace\<close> resizes too little); the timers' comparator is an order only for timers due
  in the order of their creation; a cancel from a timer callback is lost; a send after the close
  registers the channel again; a send from another thread keeps a pointer; a hang-up alone is
  ignored; a request split after its first line is refused; header values lose a character.

  In the server and the tools: \<^verbatim>\<open>~EventLoopThread\<close> hangs if its quit comes before the
  loop starts; negative integers cannot be logged; messages accepted before
  \<^verbatim>\<open>AsyncLogger::stop\<close> are not written; a notification of the queue can be lost; a failing
  query takes a connection out of the pool, and closing the pool frees no waiter.

  \<^bold>\<open>Not modelled.\<close> The log messages are left out of the modelled functions of the other
  classes, since they change none of their state; only \<^verbatim>\<open>LOG_FATAL\<close>, which aborts, is kept.
  The shared pointers to a connection are those of the map and of the functors; that an application
  keeps one, or acts on a connection of another loop, is excluded by \<open>gentle\<close> (sends and shutdowns
  in the callbacks are gentle), and the destruction of the server is not among the steps of
  \<open>Server_Life\<close>. The static counter of timer numbers is kept per loop. Sums of timestamps wrap
  around; a write to a log file that is open succeeds; the output function that hands lines to
  \<^verbatim>\<open>AsyncLogger::append\<close> is the application's (\<open>deliver\<close>).
  \<^verbatim>\<open>nocopyable\<close> has nothing to execute; what identifies a thread and how
  that prints is the standard library's; the enumerations \<^verbatim>\<open>ReqHeader\<close> and \<^verbatim>\<open>ResHeader\<close> of HttpHead.h that no
  code uses and the build files are left out. Data races are outside the step relations, whose
  steps are atomic.
\<close>

end
